(* ===== verification/Prelude.thy ===== *)
theory Prelude
  imports Main "HOL-Library.Word" "HOL-Library.Multiset"
begin

text \<open>
  Shared vocabulary of the development: the names of the C integer types, the
  outcomes of a call that can raise an error, the counting loops over arrays that
  the C code writes again and again, and the generic lemmas on lists, words and
  integers that the component theories use.
\<close>

unbundle bit_operations_syntax

section \<open>Types\<close>

type_synonym uint8 = "8 word"
type_synonym uint16 = "16 word"
type_synonym uint32 = "32 word"
type_synonym uint64 = "64 word"

text \<open>
  A call of the backend returns a value, or leaves through \<open>ereport\<close>/\<open>elog\<close> with a
  message; \<open>FATAL\<close> ends the session, \<open>PANIC\<close> the server.  \<open>Undefined_Behaviour\<close> marks a call that breaks a documented precondition
  (an \<open>Assert\<close> of the source, a read outside an array), where C promises nothing.
\<close>

datatype pg_error = ERROR string | FATAL string | PANIC string | Undefined_Behaviour

type_synonym 'a result = "pg_error + 'a"

text \<open>
  Arithmetic on C \<open>int\<close>, where a value may leave the range: the server is compiled with
  \<open>-fwrapv\<close>, so that signed overflow wraps around.
\<close>

definition INT_MAX :: int where
  "INT_MAX = 2147483647"

definition wrap32 :: "int \<Rightarrow> int" where
  "wrap32 x = (x + 2147483648) mod 4294967296 - 2147483648"

lemma wrap32_id: "- INT_MAX - 1 \<le> x \<Longrightarrow> x \<le> INT_MAX \<Longrightarrow> wrap32 x = x"
  by (simp add: wrap32_def INT_MAX_def)

lemma wrap32_diff: "wrap32 (wrap32 x - y) = wrap32 (x - y)"
  by (simp add: wrap32_def mod_simps algebra_simps)

lemma wrap32_overflow: "wrap32 (INT_MAX + 1) < 0"
  by (simp add: wrap32_def INT_MAX_def)

text \<open>A loop whose body may raise an error.\<close>

fun fold_result :: "('a \<Rightarrow> 's \<Rightarrow> 's result) \<Rightarrow> 'a list \<Rightarrow> 's \<Rightarrow> 's result" where
  "fold_result f [] s = Inr s"
| "fold_result f (x # xs) s = (case f x s of Inl e \<Rightarrow> Inl e | Inr s' \<Rightarrow> fold_result f xs s')"

section \<open>Lemma collections\<close>

named_theorems loop_simps \<open>what a counting loop leaves at each index\<close>
named_theorems bit_mem_simps \<open>membership in bit sets, word by word\<close>

section \<open>Counting loops over arrays\<close>

text \<open>
  \<open>for (i = lo; i < hi; i++) xs[i] = f(i, xs[i]);\<close>
\<close>

function for_upd :: "nat \<Rightarrow> nat \<Rightarrow> (nat \<Rightarrow> 'a \<Rightarrow> 'a) \<Rightarrow> 'a list \<Rightarrow> 'a list" where
  "for_upd lo hi f xs =
     (if lo < hi then for_upd (Suc lo) hi f (xs[lo := f lo (xs ! lo)]) else xs)"
  by pat_completeness auto
termination
  by (relation "measure (\<lambda>(lo, hi, f, xs). hi - lo)") auto

declare for_upd.simps [simp del]

lemma length_for_upd [simp, loop_simps]: "length (for_upd lo hi f xs) = length xs"
  by (induction lo hi f xs rule: for_upd.induct) (simp add: for_upd.simps)

lemma nth_for_upd [loop_simps]:
  "i < length xs \<Longrightarrow>
   for_upd lo hi f xs ! i = (if lo \<le> i \<and> i < hi then f i (xs ! i) else xs ! i)"
proof (induction lo hi f xs rule: for_upd.induct)
  case (1 lo hi f xs)
  show ?case
  proof (cases "lo < hi")
    case True
    with 1 have "for_upd lo hi f xs ! i =
        (if Suc lo \<le> i \<and> i < hi then f i (xs[lo := f lo (xs ! lo)] ! i)
         else xs[lo := f lo (xs ! lo)] ! i)"
      by (simp add: for_upd.simps [of lo hi f xs])
    with True 1(2) show ?thesis
      by (cases "i = lo") auto
  next
    case False
    then show ?thesis by (auto simp: for_upd.simps [of lo hi f xs])
  qed
qed

text \<open>
  \<open>memmove(&xs[dst], &xs[src], n)\<close> (and \<open>memcpy\<close>, where the areas do not overlap)
  inside one array of cells.
\<close>

definition memmove :: "nat \<Rightarrow> nat \<Rightarrow> nat \<Rightarrow> 'a list \<Rightarrow> 'a list" where
  "memmove dst src n xs = take dst xs @ take n (drop src xs) @ drop (dst + n) xs"

lemma length_memmove [simp]:
  "dst + n \<le> length xs \<Longrightarrow> src + n \<le> length xs \<Longrightarrow> length (memmove dst src n xs) = length xs"
  by (simp add: memmove_def)

lemma nth_memmove [loop_simps]:
  assumes "dst + n \<le> length xs" "src + n \<le> length xs" "i < length xs"
  shows "memmove dst src n xs ! i =
           (if dst \<le> i \<and> i < dst + n then xs ! (src + (i - dst)) else xs ! i)"
proof -
  have "length (take dst xs) = dst" "length (take n (drop src xs)) = n"
    using assms by simp_all
  then show ?thesis
    using assms by (auto simp: memmove_def nth_append)
qed

section \<open>Integers\<close>

definition sgn_cmp :: "'a::linorder \<Rightarrow> 'a \<Rightarrow> int" where
  "sgn_cmp x y = (if x < y then -1 else if x > y then 1 else 0)"

lemma all_upt_iff [simp]: "list_all P [lo..<hi] \<longleftrightarrow> (\<forall>i. lo \<le> i \<and> i < hi \<longrightarrow> P i)"
  by (auto simp: list_all_iff)

lemma ex_upt_iff [simp]: "list_ex P [lo..<hi] \<longleftrightarrow> (\<exists>i. lo \<le> i \<and> i < hi \<and> P i)"
  by (auto simp: list_ex_iff)

section \<open>Words\<close>

lemma word_neq_0_bit: "w \<noteq> 0 \<longleftrightarrow> (\<exists>n < LENGTH('a). bit w n)" for w :: "'a::len word"
  by (auto simp: bit_eq_iff dest: bit_imp_le_length)

lemma bit_unat: "bit (unat w) n \<longleftrightarrow> bit w n" for w :: "'a::len word"
  by (auto simp: bit_unsigned_iff dest: bit_imp_le_length)

lemma unat_exp: "n < LENGTH('a) \<Longrightarrow> unat (2 ^ n :: 'a::len word) = 2 ^ n"
  by (rule bit_eqI) (auto simp: bit_unat bit_exp_iff)

lemma bit_1_shift: "bit (push_bit n 1 :: 'a::len word) m \<longleftrightarrow> m = n \<and> m < LENGTH('a)"
  by (auto simp: bit_exp_iff)

text \<open>Two words that agree above bit \<open>k\<close> compare as their bits at \<open>k\<close> do.\<close>

lemma bit_div_Suc: "uint w div 2 ^ k = 2 * (uint w div 2 ^ Suc k) + of_bool (bit w k)"
  for w :: "'a::len word"
proof -
  have "uint w div 2 ^ Suc k = uint w div 2 ^ k div 2"
    by (simp only: power_Suc2 zdiv_zmult2_eq zero_le_numeral)
  moreover have "bit w k = bit (uint w) k"
    by (auto simp: bit_uint_iff dest: bit_imp_le_length)
  ultimately show ?thesis
    by (simp add: bit_iff_odd odd_two_times_div_two_succ)
qed

lemma word_less_at_top_bit:
  fixes v w :: "'a::len word"
  assumes "\<not> bit v k" "bit w k" "\<And>n. k < n \<Longrightarrow> bit v n = bit w n"
  shows "v < w"
proof -
  have "drop_bit (Suc k) (uint v) = drop_bit (Suc k) (uint w)"
    using assms(3) by (intro bit_eqI) (simp add: bit_drop_bit_eq bit_uint_iff)
  with assms(1,2) have lt: "uint v div 2 ^ k < uint w div 2 ^ k"
    by (simp add: bit_div_Suc [of v k] bit_div_Suc [of w k] drop_bit_eq_div del: power_Suc)
  have "uint v < uint w"
  proof (rule ccontr)
    assume "\<not> uint v < uint w"
    then have "uint w div 2 ^ k \<le> uint v div 2 ^ k"
      by (intro zdiv_mono1) simp_all
    with lt show False by simp
  qed
  then show ?thesis by (simp add: word_less_def)
qed

text \<open>The word held by bytes in little-endian order.\<close>

fun le_word :: "uint8 list \<Rightarrow> 'a::len word" where
  "le_word [] = 0"
| "le_word (b # bs) = ucast b OR push_bit 8 (le_word bs)"

lemma bit_le_word:
  "bit (le_word bs :: 'a::len word) n \<longleftrightarrow>
     n < LENGTH('a) \<and> n div 8 < length bs \<and> bit (bs ! (n div 8)) (n mod 8)"
proof (induction bs arbitrary: n)
  case Nil
  show ?case by simp
next
  case (Cons b bs)
  show ?case
  proof (cases "n < 8")
    case True
    then show ?thesis by (auto simp: bit_or_iff bit_push_bit_iff bit_ucast_iff)
  next
    case False
    then obtain m where n: "n = m + 8"
      by (metis add.commute le_Suc_ex not_less)
    have "\<not> bit b n"
      using False by (auto dest: bit_imp_le_length)
    moreover have "n div 8 = Suc (m div 8)" "n mod 8 = m mod 8"
      by (simp_all add: n)
    ultimately show ?thesis
      by (auto simp: bit_or_iff bit_push_bit_iff bit_ucast_iff Cons.IH n)
  qed
qed

end
