(* ===== verification/Bitutils.thy ===== *)
theory Bitutils
  imports Prelude
begin

text \<open>
  The bit-twiddling primitives of \<open>src/include/port/pg_bitutils.h\<close> and
  \<open>src/port/pg_bitutils.c\<close>, in the portable branch (the one the build takes when the
  compiler has no \<open>__builtin_clz\<close>, \<open>__builtin_ctz\<close> or \<open>__builtin_popcount\<close>): table
  lookups byte by byte.  The theorems say that they find the highest set bit, the
  lowest set bit and the number of set bits, for both word widths.
\<close>

section \<open>The tables\<close>

definition pg_leftmost_one_pos :: "nat list" where
  "pg_leftmost_one_pos = [
    0, 0, 1, 1, 2, 2, 2, 2, 3, 3, 3, 3, 3, 3, 3, 3,
    4, 4, 4, 4, 4, 4, 4, 4, 4, 4, 4, 4, 4, 4, 4, 4,
    5, 5, 5, 5, 5, 5, 5, 5, 5, 5, 5, 5, 5, 5, 5, 5,
    5, 5, 5, 5, 5, 5, 5, 5, 5, 5, 5, 5, 5, 5, 5, 5,
    6, 6, 6, 6, 6, 6, 6, 6, 6, 6, 6, 6, 6, 6, 6, 6,
    6, 6, 6, 6, 6, 6, 6, 6, 6, 6, 6, 6, 6, 6, 6, 6,
    6, 6, 6, 6, 6, 6, 6, 6, 6, 6, 6, 6, 6, 6, 6, 6,
    6, 6, 6, 6, 6, 6, 6, 6, 6, 6, 6, 6, 6, 6, 6, 6,
    7, 7, 7, 7, 7, 7, 7, 7, 7, 7, 7, 7, 7, 7, 7, 7,
    7, 7, 7, 7, 7, 7, 7, 7, 7, 7, 7, 7, 7, 7, 7, 7,
    7, 7, 7, 7, 7, 7, 7, 7, 7, 7, 7, 7, 7, 7, 7, 7,
    7, 7, 7, 7, 7, 7, 7, 7, 7, 7, 7, 7, 7, 7, 7, 7,
    7, 7, 7, 7, 7, 7, 7, 7, 7, 7, 7, 7, 7, 7, 7, 7,
    7, 7, 7, 7, 7, 7, 7, 7, 7, 7, 7, 7, 7, 7, 7, 7,
    7, 7, 7, 7, 7, 7, 7, 7, 7, 7, 7, 7, 7, 7, 7, 7,
    7, 7, 7, 7, 7, 7, 7, 7, 7, 7, 7, 7, 7, 7, 7, 7]"

definition pg_rightmost_one_pos :: "nat list" where
  "pg_rightmost_one_pos = [
    0, 0, 1, 0, 2, 0, 1, 0, 3, 0, 1, 0, 2, 0, 1, 0,
    4, 0, 1, 0, 2, 0, 1, 0, 3, 0, 1, 0, 2, 0, 1, 0,
    5, 0, 1, 0, 2, 0, 1, 0, 3, 0, 1, 0, 2, 0, 1, 0,
    4, 0, 1, 0, 2, 0, 1, 0, 3, 0, 1, 0, 2, 0, 1, 0,
    6, 0, 1, 0, 2, 0, 1, 0, 3, 0, 1, 0, 2, 0, 1, 0,
    4, 0, 1, 0, 2, 0, 1, 0, 3, 0, 1, 0, 2, 0, 1, 0,
    5, 0, 1, 0, 2, 0, 1, 0, 3, 0, 1, 0, 2, 0, 1, 0,
    4, 0, 1, 0, 2, 0, 1, 0, 3, 0, 1, 0, 2, 0, 1, 0,
    7, 0, 1, 0, 2, 0, 1, 0, 3, 0, 1, 0, 2, 0, 1, 0,
    4, 0, 1, 0, 2, 0, 1, 0, 3, 0, 1, 0, 2, 0, 1, 0,
    5, 0, 1, 0, 2, 0, 1, 0, 3, 0, 1, 0, 2, 0, 1, 0,
    4, 0, 1, 0, 2, 0, 1, 0, 3, 0, 1, 0, 2, 0, 1, 0,
    6, 0, 1, 0, 2, 0, 1, 0, 3, 0, 1, 0, 2, 0, 1, 0,
    4, 0, 1, 0, 2, 0, 1, 0, 3, 0, 1, 0, 2, 0, 1, 0,
    5, 0, 1, 0, 2, 0, 1, 0, 3, 0, 1, 0, 2, 0, 1, 0,
    4, 0, 1, 0, 2, 0, 1, 0, 3, 0, 1, 0, 2, 0, 1, 0]"

definition pg_number_of_ones :: "nat list" where
  "pg_number_of_ones = [
    0, 1, 1, 2, 1, 2, 2, 3, 1, 2, 2, 3, 2, 3, 3, 4,
    1, 2, 2, 3, 2, 3, 3, 4, 2, 3, 3, 4, 3, 4, 4, 5,
    1, 2, 2, 3, 2, 3, 3, 4, 2, 3, 3, 4, 3, 4, 4, 5,
    2, 3, 3, 4, 3, 4, 4, 5, 3, 4, 4, 5, 4, 5, 5, 6,
    1, 2, 2, 3, 2, 3, 3, 4, 2, 3, 3, 4, 3, 4, 4, 5,
    2, 3, 3, 4, 3, 4, 4, 5, 3, 4, 4, 5, 4, 5, 5, 6,
    2, 3, 3, 4, 3, 4, 4, 5, 3, 4, 4, 5, 4, 5, 5, 6,
    3, 4, 4, 5, 4, 5, 5, 6, 4, 5, 5, 6, 5, 6, 6, 7,
    1, 2, 2, 3, 2, 3, 3, 4, 2, 3, 3, 4, 3, 4, 4, 5,
    2, 3, 3, 4, 3, 4, 4, 5, 3, 4, 4, 5, 4, 5, 5, 6,
    2, 3, 3, 4, 3, 4, 4, 5, 3, 4, 4, 5, 4, 5, 5, 6,
    3, 4, 4, 5, 4, 5, 5, 6, 4, 5, 5, 6, 5, 6, 6, 7,
    2, 3, 3, 4, 3, 4, 4, 5, 3, 4, 4, 5, 4, 5, 5, 6,
    3, 4, 4, 5, 4, 5, 5, 6, 4, 5, 5, 6, 5, 6, 6, 7,
    3, 4, 4, 5, 4, 5, 5, 6, 4, 5, 5, 6, 5, 6, 6, 7,
    4, 5, 5, 6, 5, 6, 6, 7, 5, 6, 6, 7, 6, 7, 7, 8]"

section \<open>Positions of the extreme bits\<close>

text \<open>
  \<open>while ((word >> shift) == 0) shift -= 8;\<close>  The callers assert that the word is not
  zero, so the loop stops at \<open>shift = 0\<close> at the latest.
\<close>

fun leftmost_shift :: "'a::len word \<Rightarrow> nat \<Rightarrow> nat" where
  "leftmost_shift word shift =
     (if shift = 0 \<or> drop_bit shift word \<noteq> 0 then shift else leftmost_shift word (shift - 8))"

declare leftmost_shift.simps [simp del]

definition pg_leftmost_one_pos32 :: "uint32 \<Rightarrow> nat" where
  "pg_leftmost_one_pos32 word =
     (let shift = leftmost_shift word (32 - 8)
      in shift + pg_leftmost_one_pos ! unat (drop_bit shift word AND 255))"

definition pg_leftmost_one_pos64 :: "uint64 \<Rightarrow> nat" where
  "pg_leftmost_one_pos64 word =
     (let shift = leftmost_shift word (64 - 8)
      in shift + pg_leftmost_one_pos ! unat (drop_bit shift word AND 255))"

text \<open>
  \<open>while ((word & 255) == 0) { word >>= 8; result += 8; }\<close>, again on a nonzero word.
\<close>

lemma drop_bit_8_less: "word \<noteq> 0 \<Longrightarrow> unat (drop_bit 8 word) < unat word"
  for word :: "'a::len word"
  by (simp only: unat_drop_bit_eq) (simp add: drop_bit_eq_div unat_gt_0)

function rightmost_loop :: "'a::len word \<Rightarrow> nat \<Rightarrow> 'a word \<times> nat" where
  "rightmost_loop word result =
     (if word = 0 \<or> word AND 255 \<noteq> 0 then (word, result)
      else rightmost_loop (drop_bit 8 word) (result + 8))"
  by pat_completeness auto
termination
  by (relation "measure (\<lambda>(word, result). unat word)") (auto intro: drop_bit_8_less)

declare rightmost_loop.simps [simp del]

definition pg_rightmost_one_pos32 :: "uint32 \<Rightarrow> nat" where
  "pg_rightmost_one_pos32 word =
     (let (word, result) = rightmost_loop word 0
      in result + pg_rightmost_one_pos ! unat (word AND 255))"

definition pg_rightmost_one_pos64 :: "uint64 \<Rightarrow> nat" where
  "pg_rightmost_one_pos64 word =
     (let (word, result) = rightmost_loop word 0
      in result + pg_rightmost_one_pos ! unat (word AND 255))"

section \<open>Powers of two\<close>

definition pg_nextpower2_32 :: "uint32 \<Rightarrow> uint32" where
  "pg_nextpower2_32 num =
     (if num AND (num - 1) = 0 then num
      else push_bit (pg_leftmost_one_pos32 num + 1) 1)"

definition pg_nextpower2_64 :: "uint64 \<Rightarrow> uint64" where
  "pg_nextpower2_64 num =
     (if num AND (num - 1) = 0 then num
      else push_bit (pg_leftmost_one_pos64 num + 1) 1)"

definition pg_prevpower2_32 :: "uint32 \<Rightarrow> uint32" where
  "pg_prevpower2_32 num = push_bit (pg_leftmost_one_pos32 num) 1"

definition pg_prevpower2_64 :: "uint64 \<Rightarrow> uint64" where
  "pg_prevpower2_64 num = push_bit (pg_leftmost_one_pos64 num) 1"

definition pg_ceil_log2_32 :: "uint32 \<Rightarrow> nat" where
  "pg_ceil_log2_32 num = (if num < 2 then 0 else pg_leftmost_one_pos32 (num - 1) + 1)"

definition pg_ceil_log2_64 :: "uint64 \<Rightarrow> nat" where
  "pg_ceil_log2_64 num = (if num < 2 then 0 else pg_leftmost_one_pos64 (num - 1) + 1)"

section \<open>Population counts\<close>

text \<open>\<open>while (word != 0) { result += pg_number_of_ones[word & 255]; word >>= 8; }\<close>\<close>

function popcount_loop :: "'a::len word \<Rightarrow> nat \<Rightarrow> nat" where
  "popcount_loop word result =
     (if word \<noteq> 0
      then popcount_loop (drop_bit 8 word) (result + pg_number_of_ones ! unat (word AND 255))
      else result)"
  by pat_completeness auto
termination
  by (relation "measure (\<lambda>(word, result). unat word)") (auto intro: drop_bit_8_less)

declare popcount_loop.simps [simp del]

definition pg_popcount32 :: "uint32 \<Rightarrow> nat" where
  "pg_popcount32 word = popcount_loop word 0"

definition pg_popcount64 :: "uint64 \<Rightarrow> nat" where
  "pg_popcount64 word = popcount_loop word 0"

text \<open>
  \<open>pg_popcount\<close> reads a byte array at address \<open>addr\<close>: whole words while the address is
  aligned to eight and eight bytes remain, then byte by byte.
\<close>

function popcount_words :: "uint8 list \<Rightarrow> nat \<Rightarrow> uint8 list \<times> nat" where
  "popcount_words buf popcnt =
     (if length buf \<ge> 8
      then popcount_words (drop 8 buf) (popcnt + pg_popcount64 (le_word (take 8 buf)))
      else (buf, popcnt))"
  by pat_completeness auto
termination
  by (relation "measure (\<lambda>(buf, popcnt). length buf)") auto

declare popcount_words.simps [simp del]

fun popcount_bytes :: "uint8 list \<Rightarrow> nat \<Rightarrow> nat" where
  "popcount_bytes [] popcnt = popcnt"
| "popcount_bytes (b # buf) popcnt = popcount_bytes buf (popcnt + pg_number_of_ones ! unat b)"

definition pg_popcount :: "nat \<Rightarrow> uint8 list \<Rightarrow> nat" where
  "pg_popcount addr buf =
     (let (rest, popcnt) = (if addr mod 8 = 0 then popcount_words buf 0 else (buf, 0))
      in popcount_bytes rest popcnt)"

section \<open>Rotations\<close>

definition pg_rotate_right32 :: "uint32 \<Rightarrow> nat \<Rightarrow> uint32" where
  "pg_rotate_right32 word n = drop_bit n word OR push_bit (32 - n) word"

definition pg_rotate_left32 :: "uint32 \<Rightarrow> nat \<Rightarrow> uint32" where
  "pg_rotate_left32 word n = push_bit n word OR drop_bit (32 - n) word"

section \<open>The tables are right\<close>

text \<open>Every entry of a table, checked against its index.\<close>

fun table_ok :: "(nat \<Rightarrow> 'a \<Rightarrow> bool) \<Rightarrow> nat \<Rightarrow> 'a list \<Rightarrow> bool" where
  "table_ok P i [] = True"
| "table_ok P i (t # ts) = (P i t \<and> table_ok P (i + 1) ts)"

lemma table_okD: "table_ok P i ts \<Longrightarrow> j < length ts \<Longrightarrow> P (i + j) (ts ! j)"
proof (induction ts arbitrary: i j)
  case (Cons t ts)
  then show ?case by (cases j) force+
qed simp

lemma leftmost_table:
  "table_ok (\<lambda>b t. b = 0 \<or> 2 ^ t \<le> b \<and> b < 2 ^ (t + 1)) 0 pg_leftmost_one_pos"
  unfolding pg_leftmost_one_pos_def by simp

lemma rightmost_table:
  "table_ok (\<lambda>b t. b = 0 \<or> t < 8 \<and> b mod 2 ^ t = 0 \<and> b div 2 ^ t mod 2 = 1) 0 pg_rightmost_one_pos"
  unfolding pg_rightmost_one_pos_def by simp

lemma number_of_ones_table:
  "table_ok (\<lambda>b t. t = b mod 2 + b div 2 mod 2 + b div 4 mod 2 + b div 8 mod 2 + b div 16 mod 2
      + b div 32 mod 2 + b div 64 mod 2 + b div 128 mod 2) 0 pg_number_of_ones"
  unfolding pg_number_of_ones_def by simp

lemma table_lengths [simp]:
  "length pg_leftmost_one_pos = 256" "length pg_rightmost_one_pos = 256"
  "length pg_number_of_ones = 256"
  by (simp_all add: pg_leftmost_one_pos_def pg_rightmost_one_pos_def pg_number_of_ones_def)

section \<open>Correctness of the loops\<close>

lemma unat_top_bit:
  assumes "2 ^ t \<le> unat w" "unat w < 2 ^ (t + 1)"
  shows "bit w t" "n > t \<Longrightarrow> \<not> bit w n"
proof -
  have "unat w div 2 ^ t = 1"
    using assms by (intro div_nat_eqI) simp_all
  then show "bit w t" by (simp add: bit_unat [symmetric] bit_iff_odd)
  assume "n > t"
  then have "(2::nat) ^ (t + 1) \<le> 2 ^ n" by (intro power_increasing) simp_all
  with assms show "\<not> bit w n" by (simp add: bit_unat [symmetric] bit_iff_odd)
qed

lemma and_255: "w AND 255 = take_bit 8 w" for w :: "'a::len word"
  by (simp add: take_bit_eq_mask mask_eq_exp_minus_1)

lemma unat_and_255: "unat (w AND 255) < 256" for w :: "'a::len word"
proof -
  have "unat (take_bit 8 w) = take_bit 8 (unat w)" by (simp add: unsigned_take_bit_eq)
  then show ?thesis using take_bit_nat_less_exp [of 8 "unat w"] by (simp add: and_255)
qed

lemma leftmost_shift_spec:
  "w \<noteq> 0 \<Longrightarrow> 8 dvd s \<Longrightarrow> drop_bit (s + 8) w = 0 \<Longrightarrow>
   leftmost_shift w s \<le> s \<and> drop_bit (leftmost_shift w s) w \<noteq> 0 \<and>
   drop_bit (leftmost_shift w s + 8) w = 0"
proof (induction w s rule: leftmost_shift.induct)
  case (1 w s)
  show ?case
  proof (cases "s = 0 \<or> drop_bit s w \<noteq> 0")
    case True
    with 1 show ?thesis by (auto simp: leftmost_shift.simps [of w s])
  next
    case False
    with 1(3) have "8 \<le> s" "8 dvd s - 8" by (auto simp: dvd_diff_nat dest: dvd_imp_le)
    with False 1 show ?thesis
      by (auto simp: leftmost_shift.simps [of w s])
  qed
qed

lemma leftmost_table_pos:
  fixes v :: "'a::len word"
  assumes "v \<noteq> 0" "drop_bit 8 v = 0"
  shows "bit v (pg_leftmost_one_pos ! unat (v AND 255))"
    and "n > pg_leftmost_one_pos ! unat (v AND 255) \<Longrightarrow> \<not> bit v n"
proof -
  have "\<not> bit v n" if "8 \<le> n" for n
  proof -
    from that obtain k where "n = 8 + k" by (blast dest: le_Suc_ex)
    moreover have "\<not> bit (drop_bit 8 v) k" by (simp add: assms(2))
    ultimately show ?thesis by (simp add: bit_drop_bit_eq)
  qed
  then have "take_bit 8 v = v"
    by (intro bit_eqI) (metis bit_take_bit_iff not_less)
  then have v: "v AND 255 = v" by (simp add: and_255)
  with unat_and_255 [of v] have "unat v < 256" by simp
  with assms(1) have "2 ^ (pg_leftmost_one_pos ! unat v) \<le> unat v"
      "unat v < 2 ^ (pg_leftmost_one_pos ! unat v + 1)"
    using table_okD [OF leftmost_table, of "unat v"] by (auto simp: unat_eq_0)
  from unat_top_bit [OF this] show "bit v (pg_leftmost_one_pos ! unat (v AND 255))"
    and "n > pg_leftmost_one_pos ! unat (v AND 255) \<Longrightarrow> \<not> bit v n"
    by (simp_all add: v)
qed

lemma leftmost_pos:
  fixes w :: "'a::len word"
  assumes "w \<noteq> 0" "8 dvd s" "LENGTH('a) = s + 8"
  defines "r \<equiv> leftmost_shift w s"
  defines "p \<equiv> r + pg_leftmost_one_pos ! unat (drop_bit r w AND 255)"
  shows "bit w p \<and> (\<forall>n > p. \<not> bit w n)"
proof -
  have "drop_bit (s + 8) w = 0"
    by (rule bit_eqI) (use assms(3) in \<open>auto simp: bit_drop_bit_eq dest: bit_imp_le_length\<close>)
  from leftmost_shift_spec [OF assms(1,2) this]
  have r: "drop_bit r w \<noteq> 0" "drop_bit 8 (drop_bit r w) = 0"
    by (simp_all add: r_def add.commute)
  have "\<not> bit w n" if "n > p" for n
  proof -
    have "\<not> bit (drop_bit r w) (n - r)"
      using that by (intro leftmost_table_pos(2) [OF r]) (simp add: p_def less_diff_conv2)
    with that show ?thesis by (simp add: bit_drop_bit_eq p_def)
  qed
  with leftmost_table_pos(1) [OF r] show ?thesis
    by (simp add: p_def bit_drop_bit_eq)
qed

lemma rightmost_loop_spec:
  "w \<noteq> 0 \<Longrightarrow> \<exists>k. rightmost_loop w result = (drop_bit k w, result + k) \<and>
     drop_bit k w AND 255 \<noteq> 0 \<and> (\<forall>n < k. \<not> bit w n)"
proof (induction w result rule: rightmost_loop.induct)
  case (1 w result)
  show ?case
  proof (cases "w AND 255 \<noteq> 0")
    case True
    then show ?thesis by (intro exI [of _ 0]) (simp add: rightmost_loop.simps [of w])
  next
    case False
    then have low: "\<not> bit w n" if "n < 8" for n
      using that by (auto simp: and_255 bit_eq_iff bit_take_bit_iff dest: bit_imp_le_length)
    have "drop_bit 8 w \<noteq> 0"
    proof
      assume "drop_bit 8 w = 0"
      then have "w = 0"
        using False by (metis and_255 bits_ident add.right_neutral push_bit_of_0)
      with \<open>w \<noteq> 0\<close> show False by simp
    qed
    with 1 False obtain k where k: "rightmost_loop (drop_bit 8 w) (result + 8) =
        (drop_bit k (drop_bit 8 w), result + 8 + k)"
        "drop_bit k (drop_bit 8 w) AND 255 \<noteq> 0" "\<forall>n < k. \<not> bit (drop_bit 8 w) n"
      by blast
    have "\<not> bit w n" if "n < k + 8" for n
    proof (cases "n < 8")
      case False
      then obtain m where "n = 8 + m" by (metis le_Suc_ex not_less)
      with k(3) that show ?thesis by (simp add: bit_drop_bit_eq)
    qed (rule low)
    with k 1(2) False show ?thesis
      by (intro exI [of _ "k + 8"]) (simp add: rightmost_loop.simps [of w] add.commute)
  qed
qed

lemma nat_low_bit:
  fixes b :: nat
  assumes "b mod 2 ^ t = 0" "b div 2 ^ t mod 2 = 1"
  shows "bit b t" "n < t \<Longrightarrow> \<not> bit b n"
proof -
  show "bit b t" using assms(2) by (simp add: bit_iff_odd odd_iff_mod_2_eq_one)
  assume "n < t"
  have "take_bit t b = 0" using assms(1) by (simp add: take_bit_eq_mod)
  with \<open>n < t\<close> show "\<not> bit b n" by (metis bit_take_bit_iff bit_0_eq bot_apply bot_bool_def)
qed

lemma rightmost_pos:
  fixes w :: "'a::len word"
  assumes "w \<noteq> 0"
  defines "p \<equiv> (let (w', r) = rightmost_loop w 0 in r + pg_rightmost_one_pos ! unat (w' AND 255))"
  shows "bit w p \<and> (\<forall>n < p. \<not> bit w n)"
proof -
  obtain k where k: "rightmost_loop w 0 = (drop_bit k w, k)"
      "drop_bit k w AND 255 \<noteq> 0" "\<forall>n < k. \<not> bit w n"
    using rightmost_loop_spec [OF assms(1), of 0] by auto
  define v where "v = drop_bit k w"
  define b where "b = unat (v AND 255)"
  define t where "t = pg_rightmost_one_pos ! b"
  have "b \<noteq> 0" "b < 256"
    using k(2) by (simp_all add: b_def v_def unat_eq_0 unat_and_255)
  then have "t < 8" "b mod 2 ^ t = 0" "b div 2 ^ t mod 2 = 1"
    using table_okD [OF rightmost_table, of b] by (simp_all add: t_def)
  then have t: "bit b t" "\<And>n. n < t \<Longrightarrow> \<not> bit b n" "t < 8"
    using nat_low_bit by auto
  have vb: "bit v n \<longleftrightarrow> bit b n" if "n < 8" for n
    using that by (simp add: b_def bit_unat and_255 bit_take_bit_iff)
  have "\<not> bit w n" if "n < k + t" for n
  proof (cases "n < k")
    case False
    then obtain m where "n = k + m" by (metis le_Suc_ex not_less)
    with that t vb [of m] show ?thesis by (simp add: v_def bit_drop_bit_eq)
  qed (use k(3) in simp)
  moreover have "bit w (k + t)" using t vb [of t] by (simp add: v_def bit_drop_bit_eq)
  ultimately show ?thesis by (simp add: p_def k(1) t_def b_def v_def)
qed

lemma number_of_ones: "b < 256 \<Longrightarrow> pg_number_of_ones ! b = card {n. bit b n}"
proof -
  assume b: "b < 256"
  have "n < 8" if "bit b n" for n
  proof (rule ccontr)
    assume "\<not> n < 8"
    then have "(2::nat) ^ 8 \<le> 2 ^ n" by (intro power_increasing) simp_all
    with b have "b div 2 ^ n = 0" by simp
    with that show False by (simp add: bit_iff_odd)
  qed
  then have "{n. bit b n} = {n \<in> {..<8}. bit b n}" by auto
  then have c: "card {n. bit b n} = (\<Sum>n<8. of_bool (bit b n))"
    by (simp add: of_bool_def sum.If_cases Int_def)
  have m: "b div 128 mod 2 = b div 128"
    using b by (intro mod_less) simp
  have "(\<Sum>n<8. of_bool (bit b n)) = pg_number_of_ones ! b"
    using table_okD [OF number_of_ones_table, of b] b
    by (simp add: m lessThan_nat_numeral lessThan_Suc bit_iff_odd of_bool_odd_eq_mod_2)
  with c show ?thesis by simp
qed

lemma bits_split_8: "{n. bit w n} = {n. bit (take_bit 8 w) n} \<union> (+) 8 ` {n. bit (drop_bit 8 w) n}"
  for w :: "'a::len word"
  by (auto simp: bit_take_bit_iff bit_drop_bit_eq image_iff) (metis le_Suc_ex not_less)

lemma finite_bits [simp]: "finite {n. bit w n}" for w :: "'a::len word"
  by (rule finite_subset [of _ "{..<LENGTH('a)}"]) (auto dest: bit_imp_le_length)

lemma popcount_loop_spec: "popcount_loop w result = result + card {n. bit w n}"
proof (induction w result rule: popcount_loop.induct)
  case (1 w result)
  show ?case
  proof (cases "w = 0")
    case False
    have "card {n. bit w n} = card {n. bit (take_bit 8 w) n} + card {n. bit (drop_bit 8 w) n}"
      by (subst bits_split_8, subst card_Un_disjoint)
         (auto simp: bit_take_bit_iff card_image)
    moreover have "card {n. bit (take_bit 8 w) n} = pg_number_of_ones ! unat (w AND 255)"
      using number_of_ones [OF unat_and_255, of w] by (simp add: bit_unat and_255)
    ultimately show ?thesis
      using False 1 by (simp add: popcount_loop.simps [of w])
  qed (simp add: popcount_loop.simps)
qed


section \<open>What the primitives compute\<close>

lemma pg_leftmost_one_pos64_bits: "w \<noteq> 0 \<Longrightarrow> bit w (pg_leftmost_one_pos64 w)"
    "w \<noteq> 0 \<Longrightarrow> n > pg_leftmost_one_pos64 w \<Longrightarrow> \<not> bit w n"
  using leftmost_pos [of w 56] by (simp_all add: pg_leftmost_one_pos64_def Let_def)

lemma pg_leftmost_one_pos32_bits: "w \<noteq> 0 \<Longrightarrow> bit w (pg_leftmost_one_pos32 w)"
    "w \<noteq> 0 \<Longrightarrow> n > pg_leftmost_one_pos32 w \<Longrightarrow> \<not> bit w n"
  using leftmost_pos [of w 24] by (simp_all add: pg_leftmost_one_pos32_def Let_def)

lemma pg_rightmost_one_pos64_bits: "w \<noteq> 0 \<Longrightarrow> bit w (pg_rightmost_one_pos64 w)"
    "w \<noteq> 0 \<Longrightarrow> n < pg_rightmost_one_pos64 w \<Longrightarrow> \<not> bit w n"
  using rightmost_pos [of w] by (simp_all add: pg_rightmost_one_pos64_def)

lemma pg_popcount64_card: "pg_popcount64 w = card {n. bit w n}"
  by (simp add: pg_popcount64_def popcount_loop_spec)

lemma top_bit_bounds:
  fixes w :: "'a::len word"
  assumes "bit w p" "\<And>n. n > p \<Longrightarrow> \<not> bit w n"
  shows "2 ^ p \<le> unat w" "unat w < 2 ^ Suc p"
proof -
  have "take_bit (Suc p) (unat w) = unat w"
    by (rule bit_eqI) (use assms(2) in \<open>auto simp: bit_take_bit_iff bit_unat not_less less_Suc_eq_le
      intro: ccontr\<close>)
  then show "unat w < 2 ^ Suc p" by (metis take_bit_nat_less_exp)
  have "unat w div 2 ^ p \<noteq> 0"
    using assms(1) by (metis bit_unat bit_iff_odd even_zero)
  then show "2 ^ p \<le> unat w" by (metis div_less not_less)
qed

lemma and_pred_eq_0:
  fixes w :: "'a::len word"
  assumes "bit w p" "\<And>n. n > p \<Longrightarrow> \<not> bit w n"
  shows "w AND (w - 1) = 0 \<longleftrightarrow> unat w = 2 ^ p"
proof
  note b = top_bit_bounds [OF assms]
  have "w \<noteq> 0" using assms(1) by auto
  then have um: "unat (w - 1) = unat w - 1"
    by (metis unat_minus_one)
  show "unat w = 2 ^ p" if eq: "w AND (w - 1) = 0"
  proof (rule ccontr)
    assume "unat w \<noteq> 2 ^ p"
    with b um have "2 ^ p \<le> unat (w - 1)" "unat (w - 1) < 2 ^ (p + 1)" by simp_all
    then have "bit (w - 1) p" by (rule unat_top_bit)
    with assms(1) have "bit (w AND (w - 1)) p" by (simp add: bit_and_iff)
    with eq show False by simp
  qed
  show "w AND (w - 1) = 0" if "unat w = 2 ^ p"
  proof (rule bit_eqI)
    fix n
    have "bit (unat w) n \<longleftrightarrow> n = p" using that by (simp add: bit_exp_iff)
    moreover have "unat (w - 1) < 2 ^ p" using um that by simp
    then have "\<not> bit (w - 1) p" by (simp add: bit_unat [symmetric] bit_iff_odd)
    ultimately show "bit (w AND (w - 1)) n = bit (0 :: 'a word) n"
      by (auto simp: bit_and_iff bit_unat)
  qed
qed

lemma pg_nextpower2_32_spec:
  assumes "0 < num" "num \<le> 2 ^ 31"
  shows "\<exists>k. unat (pg_nextpower2_32 num) = 2 ^ k" "num \<le> pg_nextpower2_32 num"
    "unat (pg_nextpower2_32 num) < 2 * unat num"
proof -
  define p where "p = pg_leftmost_one_pos32 num"
  have nz: "num \<noteq> 0" using assms(1) by auto
  note bits = pg_leftmost_one_pos32_bits [OF nz, folded p_def]
  note b = top_bit_bounds [OF bits]
  have le: "unat num \<le> 2 ^ 31" using assms(2) by (simp add: word_le_nat_alt)
  show "\<exists>k. unat (pg_nextpower2_32 num) = 2 ^ k" "num \<le> pg_nextpower2_32 num"
    "unat (pg_nextpower2_32 num) < 2 * unat num"
  proof (atomize (full), cases "num AND (num - 1) = 0")
    case True
    with nz show "(\<exists>k. unat (pg_nextpower2_32 num) = 2 ^ k) \<and> num \<le> pg_nextpower2_32 num \<and>
        unat (pg_nextpower2_32 num) < 2 * unat num"
      using and_pred_eq_0 [OF bits] by (auto simp: pg_nextpower2_32_def unat_gt_0)
  next
    case False
    then have "2 ^ p < unat num" using and_pred_eq_0 [OF bits] b by auto
    with le have "(2::nat) ^ p < 2 ^ 31" by linarith
    then have "p < 31"
      using power_increasing [of 31 p "2::nat"] by (cases "p < 31") simp_all
    then have u: "unat (2 ^ Suc p :: uint32) = 2 ^ Suc p"
      by (intro unat_exp) simp
    from False have e: "pg_nextpower2_32 num = 2 ^ Suc p"
      by (simp add: pg_nextpower2_32_def p_def)
    show "(\<exists>k. unat (pg_nextpower2_32 num) = 2 ^ k) \<and> num \<le> pg_nextpower2_32 num \<and>
        unat (pg_nextpower2_32 num) < 2 * unat num"
      unfolding e u word_le_nat_alt using b \<open>2 ^ p < unat num\<close>
      by (intro conjI exI [of _ "Suc p"]) simp_all
  qed
qed

lemma popcount_bytes_spec: "popcount_bytes buf c = c + (\<Sum>b\<leftarrow>buf. card {n. bit b n})"
proof (induction buf arbitrary: c)
  case (Cons b buf)
  have "unat b < 256" using unsigned_less [of b, where ?'a = nat] by simp
  then have "pg_number_of_ones ! unat b = card {n. bit b n}"
    by (simp add: number_of_ones bit_unat)
  with Cons show ?case by simp
qed simp


lemma card_bits_le_word:
  "8 * length bs \<le> LENGTH('a) \<Longrightarrow>
   card {n. bit (le_word bs :: 'a::len word) n} = (\<Sum>b\<leftarrow>bs. card {n. bit b n})"
proof (induction bs)
  case (Cons b bs)
  let ?w = "le_word bs :: 'a word"
  have "{n. bit (le_word (b # bs) :: 'a word) n} = {n. bit b n} \<union> (+) 8 ` {n. bit ?w n}"
  proof (rule set_eqI, unfold mem_Collect_eq Un_iff)
    fix n
    have "bit b n \<Longrightarrow> n < LENGTH('a)"
      using Cons.prems by (auto dest: bit_imp_le_length)
    moreover have "n < LENGTH('a)" if "bit ?w (n - 8)" "8 \<le> n"
    proof -
      from that have "(n - 8) div 8 < length bs" by (simp add: bit_le_word)
      then have "n - 8 < 8 * length bs" by (simp add: div_less_iff_less_mult mult.commute)
      with Cons.prems show ?thesis by simp
    qed
    ultimately show "bit (le_word (b # bs) :: 'a word) n = (bit b n \<or> n \<in> (+) 8 ` {n. bit ?w n})"
      by (auto simp: bit_or_iff bit_push_bit_iff bit_ucast_iff image_iff)
  qed
  moreover have "{n. bit b n} \<inter> (+) 8 ` {n. bit ?w n} = {}"
    by (auto dest: bit_imp_le_length)
  ultimately show ?case
    using Cons by (simp add: card_Un_disjoint card_image del: le_word.simps)
qed (simp add: bot_fun_def bot_bool_def)

lemma popcount_words_spec:
  "popcount_words buf c = (rest, c') \<Longrightarrow>
   c' + (\<Sum>b\<leftarrow>rest. card {n. bit b n}) = c + (\<Sum>b\<leftarrow>buf. card {n. bit b n})"
proof (induction buf c rule: popcount_words.induct)
  case (1 buf c)
  show ?case
  proof (cases "8 \<le> length buf")
    case True
    have "(\<Sum>b\<leftarrow>buf. card {n. bit b n}) =
        (\<Sum>b\<leftarrow>take 8 buf. card {n. bit b n}) + (\<Sum>b\<leftarrow>drop 8 buf. card {n. bit b n})"
      by (metis append_take_drop_id map_append sum_list_append)
    moreover have "pg_popcount64 (le_word (take 8 buf)) = (\<Sum>b\<leftarrow>take 8 buf. card {n. bit b n})"
      by (simp add: pg_popcount64_card card_bits_le_word)
    ultimately show ?thesis
      using 1 True by (simp add: popcount_words.simps [of buf])
  next
    case False
    with 1(2) show ?thesis by (simp add: popcount_words.simps [of buf])
  qed
qed

text \<open>
  The array version does not depend on where the array lies: the aligned walk by words and
  the walk by bytes give the same count.
\<close>

lemma pg_popcount_spec: "pg_popcount addr buf = (\<Sum>b\<leftarrow>buf. card {n. bit b n})"
proof (cases "popcount_words buf 0")
  case (Pair rest c)
  then show ?thesis
    using popcount_words_spec [OF Pair] by (simp add: pg_popcount_def popcount_bytes_spec)
qed

section \<open>Properties\<close>

text \<open>
  C16: on a non-zero word, scanning the bytes through the lookup tables finds the highest
  and the lowest one bit, and the population count is the number of one bits, at both
  widths.
\<close>

theorem bit_positions:
  fixes v :: uint32 and w :: uint64
  assumes "v \<noteq> 0" "w \<noteq> 0"
  shows "pg_leftmost_one_pos32 v = Max {n. bit v n} \<and> pg_leftmost_one_pos64 w = Max {n. bit w n} \<and>
    pg_rightmost_one_pos32 v = Min {n. bit v n} \<and> pg_rightmost_one_pos64 w = Min {n. bit w n} \<and>
    pg_popcount32 v = card {n. bit v n} \<and> pg_popcount64 w = card {n. bit w n}"
proof (intro conjI)
  note l = pg_leftmost_one_pos32_bits [OF assms(1)] pg_leftmost_one_pos64_bits [OF assms(2)]
  note r = pg_rightmost_one_pos64_bits [OF assms(2)] rightmost_pos [OF assms(1)]
  show "pg_leftmost_one_pos32 v = Max {n. bit v n}" "pg_leftmost_one_pos64 w = Max {n. bit w n}"
    using l by (auto intro!: Max_eqI [symmetric] finite_bits simp: not_le [symmetric])
  show "pg_rightmost_one_pos64 w = Min {n. bit w n}" "pg_rightmost_one_pos32 v = Min {n. bit v n}"
    using r by (auto intro!: Min_eqI [symmetric] finite_bits simp: not_le [symmetric] pg_rightmost_one_pos32_def)
qed (simp_all add: pg_popcount32_def pg_popcount64_def popcount_loop_spec)

theorem bit_positions_witness:
  "(0x50 :: uint32) \<noteq> 0 \<and> (0x50000000000 :: uint64) \<noteq> 0 \<and>
   pg_leftmost_one_pos32 0x50 = Max {n. bit (0x50 :: uint32) n}"
  using bit_positions [of "0x50" "0x50000000000"] by simp

text \<open>
  C17: \<open>pg_nextpower2_32\<close> rounds up to the least power of two that is not smaller, for every
  argument whose result fits 32 bits.
\<close>

theorem nextpower2_least:
  assumes "0 < num" "num \<le> 2 ^ 31"
  shows "\<exists>k. unat (pg_nextpower2_32 num) = 2 ^ k \<and> unat num \<le> 2 ^ k \<and>
    (\<forall>j. unat num \<le> 2 ^ j \<longrightarrow> k \<le> j)"
proof -
  note s = pg_nextpower2_32_spec [OF assms]
  obtain k where k: "unat (pg_nextpower2_32 num) = 2 ^ k" using s(1) by blast
  have "k \<le> j" if "unat num \<le> 2 ^ j" for j
  proof -
    have "(2::nat) ^ k < 2 ^ Suc j" using s(3) that unfolding k by simp
    then have "k < Suc j" by (rule power_less_imp_less_exp [rotated]) simp
    then show ?thesis by simp
  qed
  then show ?thesis using k s(2) by (auto simp: word_le_nat_alt intro!: exI [of _ k])
qed

theorem nextpower2_least_witness:
  "(0 :: uint32) < 5 \<and> (5 :: uint32) \<le> 2 ^ 31 \<and> (\<exists>k. unat (pg_nextpower2_32 5) = 2 ^ k \<and>
     unat (5 :: uint32) \<le> 2 ^ k \<and> (\<forall>j. unat (5 :: uint32) \<le> 2 ^ j \<longrightarrow> k \<le> j))"
  using nextpower2_least [of 5] by simp

text \<open>
  C18: \<open>pg_popcount\<close> counts the one bits of a buffer, whether or not the buffer is aligned
  so that its first part is processed eight bytes at a time.
\<close>

theorem pg_popcount_counts: "pg_popcount addr buf = (\<Sum>b\<leftarrow>buf. card {n. bit b n})"
  by (rule pg_popcount_spec)

end
