(* ===== verification/Hashfn.thy ===== *)
theory Hashfn
  imports Bitutils
begin

text \<open>
  The hash functions of \<open>src/common/hashfn.c\<close>.  A key is the list of its bytes; \<open>addr\<close>
  is the address it starts at (the code takes word-wide fetches when it is a multiple of
  four) and \<open>be\<close> is the build's \<open>WORDS_BIGENDIAN\<close>, so that all four code paths are
  modelled.  The theorems say that the paths agree, that \<open>mix\<close> is reversible as its
  comment claims, and that the variants for fixed-size keys compute what the general
  function computes.
\<close>

section \<open>Mixing\<close>

abbreviation rot :: "uint32 \<Rightarrow> nat \<Rightarrow> uint32" where
  "rot x k \<equiv> pg_rotate_left32 x k"

text \<open>One line of the macro: \<open>x -= y; x ^= rot(y, k); y += z;\<close>\<close>

definition mix_line :: "nat \<Rightarrow> uint32 \<Rightarrow> uint32 \<Rightarrow> uint32 \<Rightarrow> uint32 \<times> uint32" where
  "mix_line k x y z = ((x - y) XOR rot y k, y + z)"

definition mix :: "uint32 \<times> uint32 \<times> uint32 \<Rightarrow> uint32 \<times> uint32 \<times> uint32" where
  "mix s = (let (a, b, c) = s;
                (a, c) = mix_line 4 a c b;
                (b, a) = mix_line 6 b a c;
                (c, b) = mix_line 8 c b a;
                (a, c) = mix_line 16 a c b;
                (b, a) = mix_line 19 b a c;
                (c, b) = mix_line 4 c b a
            in (a, b, c))"

definition final :: "uint32 \<times> uint32 \<times> uint32 \<Rightarrow> uint32 \<times> uint32 \<times> uint32" where
  "final s = (let (a, b, c) = s;
                  c = c XOR b; c = c - rot b 14;
                  a = a XOR c; a = a - rot c 11;
                  b = b XOR a; b = b - rot a 25;
                  c = c XOR b; c = c - rot b 16;
                  a = a XOR c; a = a - rot c 4;
                  b = b XOR a; b = b - rot a 14;
                  c = c XOR b; c = c - rot b 24
              in (a, b, c))"

section \<open>Reading the key\<close>

text \<open>\<open>(uint32) k[i] << n\<close>\<close>

definition shl :: "uint8 list \<Rightarrow> nat \<Rightarrow> nat \<Rightarrow> uint32" where
  "shl k i n = push_bit n (ucast (k ! i))"

text \<open>\<open>ka[i]\<close>: the word at byte offset \<open>4 * i\<close>, in the machine's byte order.\<close>

definition ka :: "bool \<Rightarrow> uint8 list \<Rightarrow> nat \<Rightarrow> uint32" where
  "ka be k i = (let bytes = take 4 (drop (4 * i) k) in le_word (if be then rev bytes else bytes))"

type_synonym hash_state = "uint32 \<times> uint32 \<times> uint32"

text \<open>The loop over twelve-byte blocks, with word-wide fetches.\<close>

function aligned_loop :: "bool \<Rightarrow> uint8 list \<Rightarrow> hash_state \<Rightarrow> uint8 list \<times> hash_state" where
  "aligned_loop be k s =
     (if length k \<ge> 12
      then let (a, b, c) = s
           in aligned_loop be (drop 12 k) (mix (a + ka be k 0, b + ka be k 1, c + ka be k 2))
      else (k, s))"
  by pat_completeness auto
termination
  by (relation "measure (\<lambda>(be, k, s). length k)") auto

declare aligned_loop.simps [simp del]

text \<open>The same loop, byte by byte.\<close>

definition fetch_bytes :: "bool \<Rightarrow> uint8 list \<Rightarrow> nat \<Rightarrow> uint32" where
  "fetch_bytes be k i =
     (if be then ucast (k ! (i + 3)) + shl k (i + 2) 8 + shl k (i + 1) 16 + shl k i 24
      else ucast (k ! i) + shl k (i + 1) 8 + shl k (i + 2) 16 + shl k (i + 3) 24)"

function unaligned_loop :: "bool \<Rightarrow> uint8 list \<Rightarrow> hash_state \<Rightarrow> uint8 list \<times> hash_state" where
  "unaligned_loop be k s =
     (if length k \<ge> 12
      then let (a, b, c) = s
           in unaligned_loop be (drop 12 k)
                (mix (a + fetch_bytes be k 0, b + fetch_bytes be k 4, c + fetch_bytes be k 8))
      else (k, s))"
  by pat_completeness auto
termination
  by (relation "measure (\<lambda>(be, k, s). length k)") auto

declare unaligned_loop.simps [simp del]

text \<open>
  The \<open>switch\<close> over the last eleven bytes.  A case that falls through runs whenever the
  length is at least its label.
\<close>

definition add_if :: "bool \<Rightarrow> uint32 \<Rightarrow> uint32 \<Rightarrow> uint32" where
  "add_if p x y = (if p then y + x else y)"

definition aligned_tail_le :: "uint8 list \<Rightarrow> hash_state \<Rightarrow> hash_state" where
  "aligned_tail_le k s =
     (let (a, b, c) = s; len = length k in
      if len \<ge> 8 then
        let c = add_if (len \<ge> 11) (shl k 10 24) c;
            c = add_if (len \<ge> 10) (shl k 9 16) c;
            c = add_if (len \<ge> 9) (shl k 8 8) c
        in (a + ka False k 0, b + ka False k 1, c)
      else if len \<ge> 4 then
        let b = add_if (len \<ge> 7) (shl k 6 16) b;
            b = add_if (len \<ge> 6) (shl k 5 8) b;
            b = add_if (len \<ge> 5) (ucast (k ! 4)) b
        in (a + ka False k 0, b, c)
      else
        let a = add_if (len \<ge> 3) (shl k 2 16) a;
            a = add_if (len \<ge> 2) (shl k 1 8) a;
            a = add_if (len \<ge> 1) (ucast (k ! 0)) a
        in (a, b, c))"

definition aligned_tail_be :: "uint8 list \<Rightarrow> hash_state \<Rightarrow> hash_state" where
  "aligned_tail_be k s =
     (let (a, b, c) = s; len = length k in
      if len \<ge> 8 then
        let c = add_if (len \<ge> 11) (shl k 10 8) c;
            c = add_if (len \<ge> 10) (shl k 9 16) c;
            c = add_if (len \<ge> 9) (shl k 8 24) c
        in (a + ka True k 0, b + ka True k 1, c)
      else if len \<ge> 4 then
        let b = add_if (len \<ge> 7) (shl k 6 8) b;
            b = add_if (len \<ge> 6) (shl k 5 16) b;
            b = add_if (len \<ge> 5) (shl k 4 24) b
        in (a + ka True k 0, b, c)
      else
        let a = add_if (len \<ge> 3) (shl k 2 8) a;
            a = add_if (len \<ge> 2) (shl k 1 16) a;
            a = add_if (len \<ge> 1) (shl k 0 24) a
        in (a, b, c))"

definition unaligned_tail_le :: "uint8 list \<Rightarrow> hash_state \<Rightarrow> hash_state" where
  "unaligned_tail_le k s =
     (let (a, b, c) = s; len = length k;
          c = add_if (len \<ge> 11) (shl k 10 24) c;
          c = add_if (len \<ge> 10) (shl k 9 16) c;
          c = add_if (len \<ge> 9) (shl k 8 8) c;
          b = add_if (len \<ge> 8) (shl k 7 24) b;
          b = add_if (len \<ge> 7) (shl k 6 16) b;
          b = add_if (len \<ge> 6) (shl k 5 8) b;
          b = add_if (len \<ge> 5) (ucast (k ! 4)) b;
          a = add_if (len \<ge> 4) (shl k 3 24) a;
          a = add_if (len \<ge> 3) (shl k 2 16) a;
          a = add_if (len \<ge> 2) (shl k 1 8) a;
          a = add_if (len \<ge> 1) (ucast (k ! 0)) a
      in (a, b, c))"

definition unaligned_tail_be :: "uint8 list \<Rightarrow> hash_state \<Rightarrow> hash_state" where
  "unaligned_tail_be k s =
     (let (a, b, c) = s; len = length k;
          c = add_if (len \<ge> 11) (shl k 10 8) c;
          c = add_if (len \<ge> 10) (shl k 9 16) c;
          c = add_if (len \<ge> 9) (shl k 8 24) c;
          b = add_if (len \<ge> 8) (ucast (k ! 7)) b;
          b = add_if (len \<ge> 7) (shl k 6 8) b;
          b = add_if (len \<ge> 6) (shl k 5 16) b;
          b = add_if (len \<ge> 5) (shl k 4 24) b;
          a = add_if (len \<ge> 4) (ucast (k ! 3)) a;
          a = add_if (len \<ge> 3) (shl k 2 8) a;
          a = add_if (len \<ge> 2) (shl k 1 16) a;
          a = add_if (len \<ge> 1) (shl k 0 24) a
      in (a, b, c))"

text \<open>The part that \<open>hash_bytes\<close> and \<open>hash_bytes_extended\<close> spell out twice.\<close>

definition absorb :: "bool \<Rightarrow> nat \<Rightarrow> uint8 list \<Rightarrow> hash_state \<Rightarrow> hash_state" where
  "absorb be addr k s =
     (if addr mod 4 = 0
      then let (k, s) = aligned_loop be k s
           in if be then aligned_tail_be k s else aligned_tail_le k s
      else let (k, s) = unaligned_loop be k s
           in if be then unaligned_tail_be k s else unaligned_tail_le k s)"

section \<open>The hash functions\<close>

definition hash_init :: "nat \<Rightarrow> uint32" where
  "hash_init keylen = 0x9e3779b9 + of_nat keylen + 3923095"

definition hash_bytes :: "bool \<Rightarrow> nat \<Rightarrow> uint8 list \<Rightarrow> uint32" where
  "hash_bytes be addr k =
     (let i = hash_init (length k);
          (a, b, c) = final (absorb be addr k (i, i, i))
      in c)"

definition perturb :: "uint64 \<Rightarrow> hash_state \<Rightarrow> hash_state" where
  "perturb seed s =
     (if seed \<noteq> 0
      then let (a, b, c) = s in mix (a + ucast (drop_bit 32 seed), b + ucast seed, c)
      else s)"

definition hash_bytes_extended :: "bool \<Rightarrow> nat \<Rightarrow> uint8 list \<Rightarrow> uint64 \<Rightarrow> uint64" where
  "hash_bytes_extended be addr k seed =
     (let i = hash_init (length k);
          (a, b, c) = final (absorb be addr k (perturb seed (i, i, i)))
      in push_bit 32 (ucast b) OR ucast c)"

definition hash_bytes_uint32 :: "uint32 \<Rightarrow> uint32" where
  "hash_bytes_uint32 k =
     (let i = hash_init 4; (a, b, c) = final (i + k, i, i) in c)"

definition hash_bytes_uint32_extended :: "uint32 \<Rightarrow> uint64 \<Rightarrow> uint64" where
  "hash_bytes_uint32_extended k seed =
     (let i = hash_init 4;
          (a, b, c) = perturb seed (i, i, i);
          (a, b, c) = final (a + k, b, c)
      in push_bit 32 (ucast b) OR ucast c)"

text \<open>
  \<open>string_hash\<close> hashes at most \<open>keysize - 1\<close> bytes of a NUL-terminated string; the model
  takes the bytes up to the first NUL.
\<close>

definition string_hash :: "bool \<Rightarrow> nat \<Rightarrow> uint8 list \<Rightarrow> nat \<Rightarrow> uint32" where
  "string_hash be addr key keysize =
     (let s_len = length (takeWhile (\<lambda>b. b \<noteq> 0) key);
          s_len = min s_len (keysize - 1)
      in hash_bytes be addr (take s_len key))"

definition tag_hash :: "bool \<Rightarrow> nat \<Rightarrow> uint8 list \<Rightarrow> nat \<Rightarrow> uint32" where
  "tag_hash be addr key keysize = hash_bytes be addr (take keysize key)"

definition uint32_hash :: "bool \<Rightarrow> uint8 list \<Rightarrow> uint32" where
  "uint32_hash be key = hash_bytes_uint32 (ka be key 0)"

definition hash_combine :: "uint32 \<Rightarrow> uint32 \<Rightarrow> uint32" where
  "hash_combine a b = a XOR (b + 0x9e3779b9 + push_bit 6 a + drop_bit 2 a)"

definition murmurhash32 :: "uint32 \<Rightarrow> uint32" where
  "murmurhash32 data =
     (let h = data;
          h = h XOR drop_bit 16 h; h = h * 0x85ebca6b;
          h = h XOR drop_bit 13 h; h = h * 0xc2b2ae35;
          h = h XOR drop_bit 16 h
      in h)"

section \<open>Reversibility\<close>

definition unmix_line :: "nat \<Rightarrow> uint32 \<Rightarrow> uint32 \<Rightarrow> uint32 \<Rightarrow> uint32 \<times> uint32" where
  "unmix_line k x y z = ((x XOR rot (y - z) k) + (y - z), y - z)"

definition unmix :: "uint32 \<times> uint32 \<times> uint32 \<Rightarrow> uint32 \<times> uint32 \<times> uint32" where
  "unmix s = (let (a, b, c) = s;
                  (c, b) = unmix_line 4 c b a;
                  (b, a) = unmix_line 19 b a c;
                  (a, c) = unmix_line 16 a c b;
                  (c, b) = unmix_line 8 c b a;
                  (b, a) = unmix_line 6 b a c;
                  (a, c) = unmix_line 4 a c b
              in (a, b, c))"

lemma unmix_mix_line: "unmix_line k (fst (mix_line k x y z)) (snd (mix_line k x y z)) z = (x, y)"
  by (simp add: mix_line_def unmix_line_def xor.assoc)

lemma mix_unmix_line: "mix_line k (fst (unmix_line k x y z)) (snd (unmix_line k x y z)) z = (x, y)"
  by (simp add: mix_line_def unmix_line_def xor.assoc)

lemma unmix_mix: "unmix (mix s) = s"
  by (cases s) (simp add: mix_def unmix_def Let_def case_prod_beta unmix_mix_line)

lemma mix_unmix: "mix (unmix s) = s"
  by (cases s) (simp add: mix_def unmix_def Let_def case_prod_beta mix_unmix_line)

section \<open>The four code paths\<close>

lemma le_word_add:
  assumes "8 \<le> LENGTH('a::len)"
  shows "(le_word (b # bs) :: 'a word) = ucast b + push_bit 8 (le_word bs)"
proof -
  have "\<not> bit (ucast b :: 'a word) n \<or> \<not> bit (push_bit 8 (le_word bs) :: 'a word) n" for n
    by (auto simp: bit_push_bit_iff bit_ucast_iff dest: bit_imp_le_length)
  then show ?thesis by (simp add: disjunctive_add)
qed

lemma take_4: "i + 4 \<le> length k \<Longrightarrow> take 4 (drop i k) = [k ! i, k ! (i + 1), k ! (i + 2), k ! (i + 3)]"
  by (rule nth_equalityI) (auto simp: less_Suc_eq numeral_eq_Suc add.commute)

lemma ka_fetch: "4 * i + 4 \<le> length k \<Longrightarrow> ka be k i = fetch_bytes be k (4 * i)"
  by (simp add: ka_def take_4 le_word_add push_bit_add fetch_bytes_def shl_def del: le_word.simps(2))

lemma loops_agree: "aligned_loop be k s = unaligned_loop be k s"
proof (induction be k s rule: aligned_loop.induct)
  case (1 be k s)
  then show ?case
    by (cases s) (simp add: aligned_loop.simps [of be k] unaligned_loop.simps [of be k]
      ka_fetch [of 0, simplified] ka_fetch [of 1, simplified] ka_fetch [of 2, simplified])
qed

lemma unaligned_loop_length: "unaligned_loop be k s = (k', s') \<Longrightarrow> length k' < 12"
proof (induction be k s rule: unaligned_loop.induct)
  case (1 be k s)
  then show ?case
    by (cases s) (auto simp: unaligned_loop.simps [of be k] split: if_splits)
qed

lemmas tail_defs = aligned_tail_le_def aligned_tail_be_def unaligned_tail_le_def
  unaligned_tail_be_def add_if_def Let_def fetch_bytes_def

lemma tails_agree_le: "length k < 12 \<Longrightarrow> aligned_tail_le k s = unaligned_tail_le k s"
  by (cases s) (simp add: tail_defs ka_fetch [of 0, simplified] ka_fetch [of 1, simplified]
    algebra_simps flip: numeral_2_eq_2)

lemma tails_agree_be: "length k < 12 \<Longrightarrow> aligned_tail_be k s = unaligned_tail_be k s"
  by (cases s) (simp add: tail_defs ka_fetch [of 0, simplified] ka_fetch [of 1, simplified]
    algebra_simps flip: numeral_2_eq_2)

lemma absorb_addr: "absorb be addr k s = absorb be addr' k s"
  by (auto simp: absorb_def loops_agree tails_agree_le tails_agree_be split: prod.splits
      dest: unaligned_loop_length)

section \<open>Fixed-size keys, seeds and murmurhash\<close>


lemma absorb_4:
  assumes "length k = 4"
  shows "absorb be addr k (a, b, c) = (a + ka be k 0, b, c)"
proof -
  have "absorb be 0 k (a, b, c) = (a + ka be k 0, b, c)"
    using assms by (simp add: absorb_def aligned_loop.simps [of be k] tail_defs)
  with absorb_addr show ?thesis by metis
qed

lemma hash_bytes_uint32_eq:
  "length k = 4 \<Longrightarrow> hash_bytes_uint32 (ka be k 0) = hash_bytes be addr k"
  by (simp add: hash_bytes_uint32_def hash_bytes_def absorb_4 Let_def)

lemma hash_bytes_uint32_extended_eq:
  "length k = 4 \<Longrightarrow> hash_bytes_uint32_extended (ka be k 0) seed = hash_bytes_extended be addr k seed"
  by (cases "perturb seed (hash_init 4, hash_init 4, hash_init 4)")
     (simp add: hash_bytes_uint32_extended_def hash_bytes_extended_def absorb_4 Let_def)

lemma ucast_pack: "ucast (push_bit 32 (ucast b) OR ucast c :: uint64) = c" for b c :: uint32
  by (rule bit_eqI) (auto simp: bit_ucast_iff bit_or_iff bit_push_bit_iff)

lemma hash_bytes_extended_seed_0: "ucast (hash_bytes_extended be addr k 0) = hash_bytes be addr k"
  by (simp add: hash_bytes_extended_def hash_bytes_def perturb_def Let_def ucast_pack
      split: prod.splits)

lemma xorshift_16: "(h XOR drop_bit 16 h) XOR drop_bit 16 (h XOR drop_bit 16 h) = h" for h :: uint32
  by (rule bit_eqI) (auto simp: bit_xor_iff bit_drop_bit_eq dest: bit_imp_le_length)

lemma xorshift_13:
  "(let g = h XOR drop_bit 13 h in g XOR drop_bit 13 g XOR drop_bit 26 g) = h" for h :: uint32
  by (rule bit_eqI) (auto simp: Let_def bit_xor_iff bit_drop_bit_eq dest: bit_imp_le_length)

definition unmurmur :: "uint32 \<Rightarrow> uint32" where
  "unmurmur h =
     (let h = h XOR drop_bit 16 h; h = h * 0x7ed1b41d;
          h = h XOR drop_bit 13 h XOR drop_bit 26 h; h = h * 0xa5cb9243
      in h XOR drop_bit 16 h)"

lemma unmurmur: "unmurmur (murmurhash32 h) = h"
proof -
  have k: "(0x85ebca6b :: uint32) * 0xa5cb9243 = 1" "(0xc2b2ae35 :: uint32) * 0x7ed1b41d = 1"
    by simp_all
  have m: "h * 0x85ebca6b * 0xa5cb9243 = h" "h * 0xc2b2ae35 * 0x7ed1b41d = h" for h :: uint32
    by (simp_all only: mult.assoc k mult_1_right)
  show ?thesis
    by (simp only: unmurmur_def murmurhash32_def Let_def xorshift_16 xorshift_13 [unfolded Let_def] m)
qed

section \<open>Properties\<close>

text \<open>
  C13: the hash of a key does not depend on the address the key is stored at: the path with
  word-wide fetches and the byte-by-byte path compute the same 32-bit and 64-bit values,
  on little-endian and on big-endian machines.
\<close>

theorem hash_bytes_address_independent:
  "hash_bytes be addr k = hash_bytes be addr' k \<and>
   hash_bytes_extended be addr k seed = hash_bytes_extended be addr' k seed"
  unfolding hash_bytes_def hash_bytes_extended_def
  by (metis absorb_addr)

text \<open>
  C14: \<open>mix\<close> is reversible, as its comment says: it is a bijection on triples of 32-bit words,
  so no information of the state is lost between blocks.
\<close>

theorem mix_reversible: "bij mix"
  by (rule o_bij [of unmix]) (simp_all add: fun_eq_iff unmix_mix mix_unmix)

text \<open>
  C15: the variants for 32-bit keys have the result of the general function on the key's
  four bytes in memory, with and without a seed; a zero seed leaves the low half of the
  64-bit hash equal to the 32-bit hash.
\<close>

theorem hash_uint32_variants:
  "hash_bytes_uint32 (ka be [b0, b1, b2, b3] 0) = hash_bytes be addr [b0, b1, b2, b3] \<and>
   hash_bytes_uint32_extended (ka be [b0, b1, b2, b3] 0) seed =
     hash_bytes_extended be addr [b0, b1, b2, b3] seed \<and>
   uint32_hash be [b0, b1, b2, b3] = tag_hash be addr [b0, b1, b2, b3] 4 \<and>
   ucast (hash_bytes_extended be addr k 0) = hash_bytes be addr k"
  by (simp add: hash_bytes_uint32_eq hash_bytes_uint32_extended_eq hash_bytes_extended_seed_0
      uint32_hash_def tag_hash_def)

end
