(* ===== verification/Bitmapset.thy ===== *)
theory Bitmapset
  imports Hashfn
begin

text \<open>
  The bitmap sets of \<open>src/backend/nodes/bitmapset.c\<close>.  A \<open>Bitmapset *\<close> is \<open>None\<close> (the
  \<open>NULL\<close> pointer, the only representation of the empty set) or \<open>Some\<close> of an array of
  64-bit words; \<open>nwords\<close> is the length of the array.  Results are values: the model does
  not track which call recycles or frees its argument.  C \<open>int\<close> arguments are \<open>int\<close>.
  A member of type \<open>int\<close> lies in one of the first \<open>2 ^ 25\<close> words, so every array the code
  builds has \<open>nwords \<le> 2 ^ 25\<close> (\<open>bms_fits\<close>).  Up to that bound the only \<open>int\<close> expressions
  that can overflow are \<open>prevbit++\<close> in \<open>bms_next_member\<close>, \<open>nwords * BITS_PER_BITMAPWORD\<close> in
  \<open>bms_prev_member\<close>, both written out with \<open>wrap32\<close>, and the count of the full set of all
  \<open>2 ^ 31\<close> members, which \<open>bms_num_members\<close> returns here as a natural number.
\<close>

section \<open>Data\<close>

type_synonym bitmapword = "64 word"

datatype bitmapset = Bitmapset (bms_words: "bitmapword list")

type_synonym bms = "bitmapset option"

abbreviation nwords :: "bitmapset \<Rightarrow> nat" where
  "nwords a \<equiv> length (bms_words a)"

datatype BMS_Comparison = BMS_EQUAL | BMS_SUBSET1 | BMS_SUBSET2 | BMS_DIFFERENT


definition WORDNUM :: "int \<Rightarrow> nat" where
  "WORDNUM x = nat x div 64"

definition BITNUM :: "int \<Rightarrow> nat" where
  "BITNUM x = nat x mod 64"



abbreviation bmw_leftmost_one_pos :: "bitmapword \<Rightarrow> nat" where
  "bmw_leftmost_one_pos w \<equiv> pg_leftmost_one_pos64 w"

abbreviation bmw_rightmost_one_pos :: "bitmapword \<Rightarrow> nat" where
  "bmw_rightmost_one_pos w \<equiv> pg_rightmost_one_pos64 w"

abbreviation bmw_popcount :: "bitmapword \<Rightarrow> nat" where
  "bmw_popcount w \<equiv> pg_popcount64 w"

definition negative_member :: pg_error where
  "negative_member = ERROR ''negative bitmapset member not allowed''"

section \<open>Copies, comparisons and tests\<close>

definition bms_copy :: "bms \<Rightarrow> bms" where
  "bms_copy a = (case a of None \<Rightarrow> None | Some a \<Rightarrow> Some (Bitmapset (bms_words a)))"

definition bms_is_empty_internal :: "bitmapset \<Rightarrow> bool" where
  "bms_is_empty_internal a = list_all (\<lambda>wordnum. bms_words a ! wordnum = 0) [0..<nwords a]"

definition bms_equal :: "bms \<Rightarrow> bms \<Rightarrow> bool" where
  "bms_equal a b =
     (case a of
        None \<Rightarrow> (case b of None \<Rightarrow> True | Some b \<Rightarrow> False)
      | Some a \<Rightarrow>
          (case b of
             None \<Rightarrow> False
           | Some b \<Rightarrow>
               let (shorter, longer) = (if nwords a \<le> nwords b then (a, b) else (b, a));
                   shortlen = nwords shorter; longlen = nwords longer
               in list_all (\<lambda>i. bms_words shorter ! i = bms_words longer ! i) [0..<shortlen] \<and>
                  list_all (\<lambda>i. bms_words longer ! i = 0) [shortlen..<longlen]))"

text \<open>\<open>while (--i >= 0)\<close> over the words in common, from the top.\<close>

fun compare_down :: "bitmapword list \<Rightarrow> bitmapword list \<Rightarrow> nat \<Rightarrow> int" where
  "compare_down aws bws 0 = 0"
| "compare_down aws bws (Suc i) =
     (let aw = aws ! i; bw = bws ! i
      in if aw \<noteq> bw then (if aw > bw then 1 else -1) else compare_down aws bws i)"

definition bms_compare :: "bms \<Rightarrow> bms \<Rightarrow> int" where
  "bms_compare a b =
     (case a of
        None \<Rightarrow> (if b = None then 0 else -1)
      | Some a \<Rightarrow>
          (case b of
             None \<Rightarrow> 1
           | Some b \<Rightarrow>
               let shortlen = min (nwords a) (nwords b)
               in if list_ex (\<lambda>i. bms_words a ! i \<noteq> 0) [shortlen..<nwords a] then 1
                  else if list_ex (\<lambda>i. bms_words b ! i \<noteq> 0) [shortlen..<nwords b] then -1
                  else compare_down (bms_words a) (bms_words b) shortlen))"

definition bms_make_singleton :: "int \<Rightarrow> bms result" where
  "bms_make_singleton x =
     (if x < 0 then Inl negative_member
      else let wordnum = WORDNUM x; bitnum = BITNUM x
           in Inr (Some (Bitmapset ((replicate (wordnum + 1) 0)[wordnum := push_bit bitnum 1]))))"

definition bms_is_subset :: "bms \<Rightarrow> bms \<Rightarrow> bool" where
  "bms_is_subset a b =
     (case a of
        None \<Rightarrow> True
      | Some a \<Rightarrow>
          (case b of
             None \<Rightarrow> False
           | Some b \<Rightarrow>
               let shortlen = min (nwords a) (nwords b)
               in list_all (\<lambda>i. bms_words a ! i AND NOT (bms_words b ! i) = 0) [0..<shortlen] \<and>
                  (nwords a > nwords b \<longrightarrow>
                     list_all (\<lambda>i. bms_words a ! i = 0) [shortlen..<nwords a])))"

text \<open>
  The three loops of \<open>bms_subset_compare\<close>.  \<open>None\<close> stands for the early
  \<open>return BMS_DIFFERENT\<close>, \<open>Some\<close> for the status when the loop ends.
\<close>

fun subset_compare_common ::
  "bitmapword list \<Rightarrow> bitmapword list \<Rightarrow> BMS_Comparison \<Rightarrow> BMS_Comparison option" where
  "subset_compare_common (aword # aws) (bword # bws) result =
     (if aword AND NOT bword \<noteq> 0 \<and> result = BMS_SUBSET1 then None
      else
        let result = (if aword AND NOT bword \<noteq> 0 then BMS_SUBSET2 else result)
        in if bword AND NOT aword \<noteq> 0 \<and> result = BMS_SUBSET2 then None
           else
             let result = (if bword AND NOT aword \<noteq> 0 then BMS_SUBSET1 else result)
             in subset_compare_common aws bws result)"
| "subset_compare_common _ _ result = Some result"

fun subset_compare_extra ::
  "BMS_Comparison \<Rightarrow> BMS_Comparison \<Rightarrow> bitmapword list \<Rightarrow> BMS_Comparison \<Rightarrow> BMS_Comparison option" where
  "subset_compare_extra clash status [] result = Some result"
| "subset_compare_extra clash status (w # ws) result =
     (if w \<noteq> 0 \<and> result = clash then None
      else subset_compare_extra clash status ws (if w \<noteq> 0 then status else result))"

definition bms_subset_compare :: "bms \<Rightarrow> bms \<Rightarrow> BMS_Comparison" where
  "bms_subset_compare a b =
     (case a of
        None \<Rightarrow> (case b of None \<Rightarrow> BMS_EQUAL | Some _ \<Rightarrow> BMS_SUBSET1)
      | Some a \<Rightarrow>
          (case b of
             None \<Rightarrow> BMS_SUBSET2
           | Some b \<Rightarrow>
               let shortlen = min (nwords a) (nwords b) in
               case subset_compare_common (bms_words a) (bms_words b) BMS_EQUAL of
                 None \<Rightarrow> BMS_DIFFERENT
               | Some result \<Rightarrow>
                   if nwords a > nwords b then
                     (case subset_compare_extra BMS_SUBSET1 BMS_SUBSET2 (drop shortlen (bms_words a)) result of
                        None \<Rightarrow> BMS_DIFFERENT | Some result \<Rightarrow> result)
                   else if nwords a < nwords b then
                     (case subset_compare_extra BMS_SUBSET2 BMS_SUBSET1 (drop shortlen (bms_words b)) result of
                        None \<Rightarrow> BMS_DIFFERENT | Some result \<Rightarrow> result)
                   else result))"

definition bms_is_member :: "int \<Rightarrow> bms \<Rightarrow> bool result" where
  "bms_is_member x a =
     (if x < 0 then Inl negative_member
      else case a of
        None \<Rightarrow> Inr False
      | Some a \<Rightarrow>
          let wordnum = WORDNUM x; bitnum = BITNUM x
          in if wordnum \<ge> nwords a then Inr False
             else Inr (bms_words a ! wordnum AND push_bit bitnum 1 \<noteq> 0))"

text \<open>The loop \<open>if (w != 0) result += bmw_popcount(w)\<close> over a run of words.\<close>

fun popcount_sum :: "bitmapword list \<Rightarrow> nat \<Rightarrow> nat" where
  "popcount_sum [] result = result"
| "popcount_sum (w # ws) result = popcount_sum ws (if w \<noteq> 0 then result + bmw_popcount w else result)"


definition bms_overlap :: "bms \<Rightarrow> bms \<Rightarrow> bool" where
  "bms_overlap a b =
     (case a of None \<Rightarrow> False | Some a \<Rightarrow> (case b of None \<Rightarrow> False | Some b \<Rightarrow>
        let shortlen = min (nwords a) (nwords b)
        in list_ex (\<lambda>i. bms_words a ! i AND bms_words b ! i \<noteq> 0) [0..<shortlen]))"

fun overlap_list_loop :: "bitmapset \<Rightarrow> int list \<Rightarrow> bool result" where
  "overlap_list_loop a [] = Inr False"
| "overlap_list_loop a (x # b) =
     (if x < 0 then Inl negative_member
      else let wordnum = WORDNUM x; bitnum = BITNUM x
           in if wordnum < nwords a \<and> bms_words a ! wordnum AND push_bit bitnum 1 \<noteq> 0
              then Inr True else overlap_list_loop a b)"

definition bms_overlap_list :: "bms \<Rightarrow> int list \<Rightarrow> bool result" where
  "bms_overlap_list a b =
     (case a of None \<Rightarrow> Inr False
      | Some a \<Rightarrow> if b = [] then Inr False else overlap_list_loop a b)"

definition bms_nonempty_difference :: "bms \<Rightarrow> bms \<Rightarrow> bool" where
  "bms_nonempty_difference a b =
     (case a of None \<Rightarrow> False | Some a \<Rightarrow> (case b of None \<Rightarrow> True | Some b \<Rightarrow>
        let shortlen = min (nwords a) (nwords b)
        in list_ex (\<lambda>i. bms_words a ! i AND NOT (bms_words b ! i) \<noteq> 0) [0..<shortlen] \<or>
           list_ex (\<lambda>i. bms_words a ! i \<noteq> 0) [shortlen..<nwords a]))"




definition bms_num_members :: "bms \<Rightarrow> nat" where
  "bms_num_members a = (case a of None \<Rightarrow> 0 | Some a \<Rightarrow> popcount_sum (bms_words a) 0)"



section \<open>Set operations\<close>

definition bms_union :: "bms \<Rightarrow> bms \<Rightarrow> bms" where
  "bms_union a b =
     (case a of None \<Rightarrow> bms_copy b | Some a \<Rightarrow> (case b of None \<Rightarrow> bms_copy (Some a) | Some b \<Rightarrow>
        let (result, other) = (if nwords a \<le> nwords b then (b, a) else (a, b))
        in Some (Bitmapset (for_upd 0 (nwords other)
             (\<lambda>i w. w OR bms_words other ! i) (bms_words result)))))"

definition null_if_empty :: "bitmapset \<Rightarrow> bms" where
  "null_if_empty a = (if bms_is_empty_internal a then None else Some a)"

definition bms_intersect :: "bms \<Rightarrow> bms \<Rightarrow> bms" where
  "bms_intersect a b =
     (case a of None \<Rightarrow> None | Some a \<Rightarrow> (case b of None \<Rightarrow> None | Some b \<Rightarrow>
        let (result, other) = (if nwords a \<le> nwords b then (a, b) else (b, a))
        in null_if_empty (Bitmapset (for_upd 0 (nwords result)
             (\<lambda>i w. w AND bms_words other ! i) (bms_words result)))))"

definition bms_difference :: "bms \<Rightarrow> bms \<Rightarrow> bms" where
  "bms_difference a b =
     (case a of None \<Rightarrow> None | Some a' \<Rightarrow> (case b of None \<Rightarrow> bms_copy a | Some b' \<Rightarrow>
        if \<not> bms_nonempty_difference a b then None
        else Some (Bitmapset (for_upd 0 (min (nwords a') (nwords b'))
               (\<lambda>i w. w AND NOT (bms_words b' ! i)) (bms_words a')))))"

text \<open>\<open>repalloc\<close> to at least \<open>n\<close> words, zeroing the enlarged portion.\<close>

definition enlarge_words :: "nat \<Rightarrow> bitmapword list \<Rightarrow> bitmapword list" where
  "enlarge_words n ws = (if n > length ws then ws @ replicate (n - length ws) 0 else ws)"

definition bms_add_member :: "bms \<Rightarrow> int \<Rightarrow> bms result" where
  "bms_add_member a x =
     (if x < 0 then Inl negative_member
      else case a of
        None \<Rightarrow> bms_make_singleton x
      | Some a \<Rightarrow>
          let wordnum = WORDNUM x; bitnum = BITNUM x;
              ws = enlarge_words (wordnum + 1) (bms_words a)
          in Inr (Some (Bitmapset (ws[wordnum := ws ! wordnum OR push_bit bitnum 1]))))"

definition bms_del_member :: "bms \<Rightarrow> int \<Rightarrow> bms result" where
  "bms_del_member a x =
     (if x < 0 then Inl negative_member
      else case a of
        None \<Rightarrow> Inr None
      | Some a \<Rightarrow>
          let wordnum = WORDNUM x; bitnum = BITNUM x; ws = bms_words a;
              ws = (if wordnum < length ws
                    then ws[wordnum := ws ! wordnum AND NOT (push_bit bitnum 1)] else ws)
          in Inr (null_if_empty (Bitmapset ws)))"

definition bms_add_members :: "bms \<Rightarrow> bms \<Rightarrow> bms" where
  "bms_add_members a b =
     (case a of None \<Rightarrow> bms_copy b | Some a \<Rightarrow> (case b of None \<Rightarrow> Some a | Some b \<Rightarrow>
        let (result, other) = (if nwords a < nwords b then (b, a) else (a, b))
        in Some (Bitmapset (for_upd 0 (nwords other)
             (\<lambda>i w. w OR bms_words other ! i) (bms_words result)))))"

definition bms_add_range :: "bms \<Rightarrow> int \<Rightarrow> int \<Rightarrow> bms result" where
  "bms_add_range a lower upper =
     (if upper < lower then Inr a
      else if lower < 0 then Inl negative_member
      else
        let uwordnum = WORDNUM upper;
            ws = (case a of None \<Rightarrow> replicate (uwordnum + 1) 0
                  | Some a \<Rightarrow> enlarge_words (uwordnum + 1) (bms_words a));
            lwordnum = WORDNUM lower;
            lbitnum = BITNUM lower;
            ushiftbits = 64 - (BITNUM upper + 1)
        in if lwordnum = uwordnum then
             Inr (Some (Bitmapset (ws[lwordnum :=
               ws ! lwordnum OR (NOT (push_bit lbitnum 1 - 1) AND drop_bit ushiftbits (NOT 0))])))
           else
             let ws = ws[lwordnum := ws ! lwordnum OR NOT (push_bit lbitnum 1 - 1)];
                 ws = for_upd (lwordnum + 1) uwordnum (\<lambda>i w. NOT 0) ws;
                 ws = ws[uwordnum := ws ! uwordnum OR drop_bit ushiftbits (NOT 0)]
             in Inr (Some (Bitmapset ws)))"

definition bms_int_members :: "bms \<Rightarrow> bms \<Rightarrow> bms" where
  "bms_int_members a b =
     (case a of None \<Rightarrow> None | Some a \<Rightarrow> (case b of None \<Rightarrow> None | Some b \<Rightarrow>
        let shortlen = min (nwords a) (nwords b);
            ws = for_upd 0 shortlen (\<lambda>i w. w AND bms_words b ! i) (bms_words a);
            ws = for_upd shortlen (nwords a) (\<lambda>i w. 0) ws
        in null_if_empty (Bitmapset ws)))"

definition bms_del_members :: "bms \<Rightarrow> bms \<Rightarrow> bms" where
  "bms_del_members a b =
     (case a of None \<Rightarrow> None | Some a \<Rightarrow> (case b of None \<Rightarrow> Some a | Some b \<Rightarrow>
        let shortlen = min (nwords a) (nwords b)
        in null_if_empty (Bitmapset (for_upd 0 shortlen
             (\<lambda>i w. w AND NOT (bms_words b ! i)) (bms_words a)))))"

definition bms_join :: "bms \<Rightarrow> bms \<Rightarrow> bms" where
  "bms_join a b =
     (case a of None \<Rightarrow> b | Some a \<Rightarrow> (case b of None \<Rightarrow> Some a | Some b \<Rightarrow>
        let (result, other) = (if nwords a < nwords b then (b, a) else (a, b))
        in Some (Bitmapset (for_upd 0 (nwords other)
             (\<lambda>i w. w OR bms_words other ! i) (bms_words result)))))"

section \<open>Iteration\<close>

function next_member_loop :: "bitmapword list \<Rightarrow> nat \<Rightarrow> bitmapword \<Rightarrow> int" where
  "next_member_loop ws wordnum msk =
     (if wordnum < length ws then
        let w = ws ! wordnum AND msk
        in if w \<noteq> 0 then int (wordnum * 64 + bmw_rightmost_one_pos w)
           else next_member_loop ws (wordnum + 1) (NOT 0)
      else -2)"
  by pat_completeness auto
termination
  by (relation "measure (\<lambda>(ws, wordnum, msk). length ws - wordnum)") auto

declare next_member_loop.simps [simp del]

text \<open>
  \<open>prevbit\<close> must not be less than \<open>-1\<close>: the code would shift by a negative count and read
  before the array.  The same happens after \<open>prevbit++\<close> wraps around at \<open>INT_MAX\<close>.
\<close>

definition bms_next_member :: "bms \<Rightarrow> int \<Rightarrow> int result" where
  "bms_next_member a prevbit =
     (case a of
        None \<Rightarrow> Inr (-2)
      | Some a \<Rightarrow>
          let prevbit = wrap32 (prevbit + 1)
          in if prevbit < 0 then Inl Undefined_Behaviour
             else let msk = push_bit (BITNUM prevbit) (NOT 0)
                  in Inr (next_member_loop (bms_words a) (WORDNUM prevbit) msk))"

text \<open>\<open>for (wordnum = WORDNUM(prevbit); wordnum >= 0; wordnum--)\<close>; the counter is \<open>wordnum + 1\<close>.\<close>

fun prev_member_loop :: "bitmapword list \<Rightarrow> nat \<Rightarrow> bitmapword \<Rightarrow> int" where
  "prev_member_loop ws 0 msk = -2"
| "prev_member_loop ws (Suc wordnum) msk =
     (let w = ws ! wordnum AND msk
      in if w \<noteq> 0 then int (wordnum * 64 + bmw_leftmost_one_pos w)
         else prev_member_loop ws wordnum (NOT 0))"

text \<open>
  A \<open>prevbit\<close> below \<open>-1\<close>, or more than one above the highest bit of the array, makes the
  code shift by a negative count or read outside the array.
\<close>

definition bms_prev_member :: "bms \<Rightarrow> int \<Rightarrow> int result" where
  "bms_prev_member a prevbit =
     (case a of
        None \<Rightarrow> Inr (-2)
      | Some a \<Rightarrow>
          if prevbit = 0 then Inr (-2)
          else
            let prevbit = (if prevbit = -1 then wrap32 (wrap32 (int (nwords a) * 64) - 1)
                           else wrap32 (prevbit - 1))
            in if prevbit < 0 \<or> WORDNUM prevbit \<ge> nwords a then Inl Undefined_Behaviour
               else let ushiftbits = 64 - (BITNUM prevbit + 1);
                        msk = drop_bit ushiftbits (NOT 0)
                    in Inr (prev_member_loop (bms_words a) (WORDNUM prevbit + 1) msk))"

section \<open>Hashing\<close>

text \<open>The bytes of a word in memory, lowest address first.\<close>

definition word_bytes :: "bool \<Rightarrow> bitmapword \<Rightarrow> uint8 list" where
  "word_bytes be w =
     (let bs = map (\<lambda>i. ucast (drop_bit (8 * i) w)) [0..<8] in if be then rev bs else bs)"

text \<open>\<open>for (lastword = a->nwords; --lastword >= 0;) if (a->words[lastword] != 0) break;\<close>
  the result is \<open>lastword + 1\<close>.\<close>

fun strip_zeros :: "bitmapword list \<Rightarrow> nat \<Rightarrow> nat" where
  "strip_zeros ws 0 = 0"
| "strip_zeros ws (Suc i) = (if ws ! i \<noteq> 0 then Suc i else strip_zeros ws i)"

definition bms_hash_value :: "bool \<Rightarrow> nat \<Rightarrow> bms \<Rightarrow> uint32" where
  "bms_hash_value be addr a =
     (case a of
        None \<Rightarrow> 0
      | Some a \<Rightarrow>
          let n = strip_zeros (bms_words a) (nwords a)
          in if n = 0 then 0
             else hash_bytes be addr (concat (map (word_bytes be) (take n (bms_words a)))))"

definition bitmap_hash :: "bool \<Rightarrow> nat \<Rightarrow> bms \<Rightarrow> uint32" where
  "bitmap_hash be addr key = bms_hash_value be addr key"

definition bitmap_match :: "bms \<Rightarrow> bms \<Rightarrow> int" where
  "bitmap_match key1 key2 = (if bms_equal key1 key2 then 0 else 1)"

section \<open>The abstract sets\<close>

definition bmem :: "bitmapword list \<Rightarrow> nat \<Rightarrow> bool" where
  "bmem ws x \<longleftrightarrow> x div 64 < length ws \<and> bit (ws ! (x div 64)) (x mod 64)"

definition bms_set :: "bms \<Rightarrow> nat set" where
  "bms_set a = (case a of None \<Rightarrow> {} | Some a \<Rightarrow> {x. bmem (bms_words a) x})"

definition bms_ok :: "bms \<Rightarrow> bool" where
  "bms_ok a \<longleftrightarrow> (a = None \<longleftrightarrow> bms_set a = {})"

text \<open>The word at an index, zero past the end; the sets compare word by word.\<close>

definition wat :: "bitmapword list \<Rightarrow> nat \<Rightarrow> bitmapword" where
  "wat ws i = (if i < length ws then ws ! i else 0)"

lemma bmem_wat: "bmem ws x \<longleftrightarrow> bit (wat ws (x div 64)) (x mod 64)"
  by (simp add: bmem_def wat_def)

lemma bmem_at: "n < 64 \<Longrightarrow> bmem ws (i * 64 + n) \<longleftrightarrow> bit (wat ws i) n"
  by (simp add: bmem_wat)

lemma all_members_wordwise:
  "(\<forall>x. \<not> bit (f (x div 64)) (x mod 64)) \<longleftrightarrow> (\<forall>i. f i = (0 :: bitmapword))" (is "?L = ?R")
proof
  assume L: ?L
  show ?R
  proof (intro allI bit_eqI)
    fix i n assume "possible_bit TYPE(64 word) n"
    with L [rule_format, of "i * 64 + n"] show "bit (f i) n = bit (0 :: bitmapword) n" by simp
  qed
qed simp

lemma in_bms_set [simp]: "x \<in> bms_set (Some a) \<longleftrightarrow> bmem (bms_words a) x"
  by (simp add: bms_set_def)

lemma bms_set_None [simp]: "bms_set None = {}"
  by (simp add: bms_set_def)

lemma bms_set_empty_wordwise: "bms_set (Some a) = {} \<longleftrightarrow> (\<forall>i. wat (bms_words a) i = 0)"
  using all_members_wordwise [of "wat (bms_words a)"] by (simp add: bms_set_def bmem_wat)

lemma word_xor_eq_0: "v XOR w = 0 \<longleftrightarrow> v = w" for v w :: "'a::len word"
  by (auto simp: bit_eq_iff bit_xor_iff)

lemma bms_set_eq_wordwise:
  "bms_set (Some a) = bms_set (Some b) \<longleftrightarrow> (\<forall>i. wat (bms_words a) i = wat (bms_words b) i)"
proof -
  have "bms_set (Some a) = bms_set (Some b) \<longleftrightarrow>
      (\<forall>x. \<not> bit (wat (bms_words a) (x div 64) XOR wat (bms_words b) (x div 64)) (x mod 64))"
    by (simp add: bms_set_def bmem_wat set_eq_iff bit_xor_iff)
  also have "\<dots> \<longleftrightarrow> (\<forall>i. wat (bms_words a) i XOR wat (bms_words b) i = 0)"
    by (rule all_members_wordwise)
  also have "\<dots> \<longleftrightarrow> (\<forall>i. wat (bms_words a) i = wat (bms_words b) i)"
    by (simp add: word_xor_eq_0)
  finally show ?thesis .
qed

lemma bms_subset_wordwise:
  "bms_set (Some a) \<subseteq> bms_set (Some b) \<longleftrightarrow>
   (\<forall>i. wat (bms_words a) i AND NOT (wat (bms_words b) i) = 0)"
  using all_members_wordwise [of "\<lambda>i. wat (bms_words a) i AND NOT (wat (bms_words b) i)"]
  by (simp add: bms_set_def bmem_wat subset_iff bit_and_iff bit_not_iff)

lemma bms_disjoint_wordwise:
  "bms_set (Some a) \<inter> bms_set (Some b) = {} \<longleftrightarrow>
   (\<forall>i. wat (bms_words a) i AND wat (bms_words b) i = 0)"
  using all_members_wordwise [of "\<lambda>i. wat (bms_words a) i AND wat (bms_words b) i"]
  by (auto simp: bms_set_def bmem_wat bit_and_iff)

lemma wat_for_upd [simp]:
  "wat (for_upd lo hi f ws) i =
     (if i < length ws then if lo \<le> i \<and> i < hi then f i (ws ! i) else ws ! i else 0)"
  by (simp add: wat_def nth_for_upd)

lemma bms_ok_None [simp]: "bms_ok None"
  by (simp add: bms_ok_def)

lemma bms_ok_Some: "bms_ok (Some a) \<longleftrightarrow> bms_set (Some a) \<noteq> {}"
  by (simp add: bms_ok_def)

lemma bms_is_empty_internal_iff: "bms_is_empty_internal a \<longleftrightarrow> bms_set (Some a) = {}"
  by (auto simp: bms_is_empty_internal_def bms_set_empty_wordwise wat_def)

lemma null_if_empty_set [simp]: "bms_set (null_if_empty a) = bms_set (Some a)"
  by (auto simp: null_if_empty_def bms_is_empty_internal_iff)

lemma null_if_empty_ok [simp]: "bms_ok (null_if_empty a)"
  by (auto simp: null_if_empty_def bms_is_empty_internal_iff bms_ok_def)

lemma bms_copy_id [simp]: "bms_copy a = a"
  by (cases a) (auto simp: bms_copy_def)

section \<open>The set operations\<close>

text \<open>A result whose words are the wordwise combination of the inputs' words is the set combination.\<close>

lemma bms_set_Un_wordwise:
  assumes "\<And>i. wat (bms_words c) i = wat (bms_words a) i OR wat (bms_words b) i"
  shows "bms_set (Some c) = bms_set (Some a) \<union> bms_set (Some b)"
  by (auto simp: bmem_wat assms bit_or_iff)

lemma bms_set_Int_wordwise:
  assumes "\<And>i. wat (bms_words c) i = wat (bms_words a) i AND wat (bms_words b) i"
  shows "bms_set (Some c) = bms_set (Some a) \<inter> bms_set (Some b)"
  by (auto simp: bmem_wat assms bit_and_iff)

lemma bms_set_Diff_wordwise:
  assumes "\<And>i. wat (bms_words c) i = wat (bms_words a) i AND NOT (wat (bms_words b) i)"
  shows "bms_set (Some c) = bms_set (Some a) - bms_set (Some b)"
  by (auto simp: bmem_wat assms bit_and_iff bit_not_iff)

lemma bms_union_set: "bms_set (bms_union a b) = bms_set a \<union> bms_set b"
  by (cases a; cases b)
     (auto simp: bms_union_def wat_def nth_for_upd or.commute intro!: bms_set_Un_wordwise)

lemma bms_add_members_set: "bms_set (bms_add_members a b) = bms_set a \<union> bms_set b"
  by (cases a; cases b)
     (auto simp: bms_add_members_def wat_def nth_for_upd or.commute intro!: bms_set_Un_wordwise)

lemma bms_join_set: "bms_set (bms_join a b) = bms_set a \<union> bms_set b"
  by (cases a; cases b)
     (auto simp: bms_join_def wat_def nth_for_upd or.commute intro!: bms_set_Un_wordwise)

lemma bms_intersect_set: "bms_set (bms_intersect a b) = bms_set a \<inter> bms_set b"
  by (cases a; cases b)
     (auto simp: bms_intersect_def wat_def nth_for_upd and.commute intro!: bms_set_Int_wordwise)

lemma bms_int_members_set: "bms_set (bms_int_members a b) = bms_set a \<inter> bms_set b"
  by (cases a; cases b)
     (auto simp: bms_int_members_def Let_def wat_def nth_for_upd intro!: bms_set_Int_wordwise)

lemma wordwise_diff_split:
  "(\<forall>i. wat as i AND NOT (wat bs i) = 0) \<longleftrightarrow>
   (\<forall>i. i < length as \<and> i < length bs \<longrightarrow> as ! i AND NOT (bs ! i) = 0) \<and>
   (\<forall>i. min (length as) (length bs) \<le> i \<and> i < length as \<longrightarrow> as ! i = 0)" (is "?L = (?R1 \<and> ?R2)")
proof (intro iffI conjI)
  assume L: ?L
  show ?R1
  proof (intro allI impI)
    fix i assume "i < length as \<and> i < length bs"
    with L [rule_format, of i] show "as ! i AND NOT (bs ! i) = 0" by (simp add: wat_def)
  qed
  show ?R2
  proof (intro allI impI)
    fix i assume "min (length as) (length bs) \<le> i \<and> i < length as"
    with L [rule_format, of i] show "as ! i = 0" by (simp add: wat_def min_def split: if_splits)
  qed
next
  assume R: "?R1 \<and> ?R2"
  show ?L
  proof
    fix i
    consider "i < length as" "i < length bs" | "i < length as" "length bs \<le> i" | "length as \<le> i"
      by linarith
    then show "wat as i AND NOT (wat bs i) = 0"
      using R by cases (simp_all add: wat_def)
  qed
qed

lemma bms_nonempty_difference_iff:
  "bms_ok a \<Longrightarrow> bms_nonempty_difference a b \<longleftrightarrow> \<not> bms_set a \<subseteq> bms_set b"
proof (cases a; cases b)
  fix a' b' assume *: "a = Some a'" "b = Some b'"
  show ?thesis
    unfolding * bms_subset_wordwise wordwise_diff_split
    by (simp add: bms_nonempty_difference_def Let_def)
qed (simp_all add: bms_nonempty_difference_def bms_ok_Some)

lemma bms_is_subset_iff: "bms_ok a \<Longrightarrow> bms_is_subset a b \<longleftrightarrow> bms_set a \<subseteq> bms_set b"
proof (cases a; cases b)
  fix a' b' assume *: "a = Some a'" "b = Some b'"
  show ?thesis
    unfolding * bms_subset_wordwise wordwise_diff_split
    by (simp add: bms_is_subset_def Let_def) (auto simp: min_def)
qed (simp_all add: bms_is_subset_def bms_ok_Some)

lemma bms_overlap_iff: "bms_overlap a b \<longleftrightarrow> bms_set a \<inter> bms_set b \<noteq> {}"
proof (cases a; cases b)
  fix a' b' assume *: "a = Some a'" "b = Some b'"
  show ?thesis
    unfolding * bms_disjoint_wordwise
    by (simp add: bms_overlap_def Let_def wat_def) blast
qed (simp_all add: bms_overlap_def)

lemma wordwise_eq_split:
  "length as \<le> length bs \<Longrightarrow>
   (\<forall>i. wat as i = wat bs i) \<longleftrightarrow>
   (\<forall>i < length as. as ! i = bs ! i) \<and> (\<forall>i. length as \<le> i \<and> i < length bs \<longrightarrow> bs ! i = 0)"
  (is "_ \<Longrightarrow> ?L = (?R1 \<and> ?R2)")
proof (intro iffI conjI)
  assume le: "length as \<le> length bs" and L: ?L
  show ?R1
  proof (intro allI impI)
    fix i assume "i < length as"
    with le L [rule_format, of i] show "as ! i = bs ! i" by (simp add: wat_def)
  qed
  show ?R2
  proof (intro allI impI)
    fix i assume "length as \<le> i \<and> i < length bs"
    with L [rule_format, of i] show "bs ! i = 0" by (simp add: wat_def)
  qed
next
  assume "length as \<le> length bs" and R: "?R1 \<and> ?R2"
  then show ?L by (auto simp: wat_def)
qed

lemma bms_equal_iff: "bms_ok a \<Longrightarrow> bms_ok b \<Longrightarrow> bms_equal a b \<longleftrightarrow> bms_set a = bms_set b"
proof (cases a; cases b)
  fix a' b' assume *: "a = Some a'" "b = Some b'"
  show ?thesis
  proof (cases "nwords a' \<le> nwords b'")
    case True
    then show ?thesis
      by (simp add: * bms_set_eq_wordwise wordwise_eq_split bms_equal_def Let_def)
  next
    case False
    then have "bms_set b = bms_set a \<longleftrightarrow> bms_equal a b"
      by (simp add: * bms_set_eq_wordwise wordwise_eq_split bms_equal_def Let_def)
    then show ?thesis by blast
  qed
qed (auto simp: bms_equal_def bms_ok_Some)

lemma bms_difference_set: "bms_ok a \<Longrightarrow> bms_set (bms_difference a b) = bms_set a - bms_set b"
proof (cases a; cases b)
  fix a' b' assume *: "a = Some a'" "b = Some b'" and ok: "bms_ok a"
  show ?thesis
  proof (cases "bms_nonempty_difference a b")
    case True
    then show ?thesis
      by (auto simp: bms_difference_def * wat_def nth_for_upd intro!: bms_set_Diff_wordwise)
  next
    case False
    with ok show ?thesis
      using bms_nonempty_difference_iff [of a b] by (auto simp: bms_difference_def *)
  qed
qed (simp_all add: bms_difference_def)

lemma bms_del_members_set: "bms_set (bms_del_members a b) = bms_set a - bms_set b"
  by (cases a; cases b)
     (auto simp: bms_del_members_def Let_def wat_def nth_for_upd intro!: bms_set_Diff_wordwise)

lemma bms_ok_from_set: "bms_set r = S \<Longrightarrow> (r = None \<longleftrightarrow> S = {}) \<Longrightarrow> bms_ok r"
  by (simp add: bms_ok_def)

lemma bms_union_None: "bms_union a b = None \<longleftrightarrow> a = None \<and> b = None"
  by (auto simp: bms_union_def Let_def split: option.splits)

lemma bms_add_members_None: "bms_add_members a b = None \<longleftrightarrow> a = None \<and> b = None"
  by (auto simp: bms_add_members_def Let_def split: option.splits)

lemma bms_join_None: "bms_join a b = None \<longleftrightarrow> a = None \<and> b = None"
  by (auto simp: bms_join_def Let_def split: option.splits)

lemma bms_union_ok: "bms_ok a \<Longrightarrow> bms_ok b \<Longrightarrow> bms_ok (bms_union a b)"
  by (simp add: bms_ok_def bms_union_set bms_union_None)

lemma bms_add_members_ok: "bms_ok a \<Longrightarrow> bms_ok b \<Longrightarrow> bms_ok (bms_add_members a b)"
  by (simp add: bms_ok_def bms_add_members_set bms_add_members_None)

lemma bms_join_ok: "bms_ok a \<Longrightarrow> bms_ok b \<Longrightarrow> bms_ok (bms_join a b)"
  by (simp add: bms_ok_def bms_join_set bms_join_None)

lemma bms_intersect_ok: "bms_ok (bms_intersect a b)"
  by (auto simp: bms_intersect_def Let_def split: option.splits)

lemma bms_int_members_ok: "bms_ok (bms_int_members a b)"
  by (auto simp: bms_int_members_def Let_def split: option.splits)

lemma bms_del_members_ok: "bms_ok a \<Longrightarrow> bms_ok (bms_del_members a b)"
  by (auto simp: bms_del_members_def Let_def split: option.splits)

lemma bms_difference_ok: "bms_ok a \<Longrightarrow> bms_ok (bms_difference a b)"
proof (rule bms_ok_from_set [OF bms_difference_set])
  assume ok: "bms_ok a"
  show "bms_difference a b = None \<longleftrightarrow> bms_set a - bms_set b = {}"
    using ok bms_nonempty_difference_iff [OF ok, of b]
    by (auto simp: bms_difference_def bms_ok_def split: option.splits if_splits)
qed

section \<open>Single members and ranges\<close>

lemma WORDNUM_BITNUM: "x \<ge> 0 \<Longrightarrow> nat x = WORDNUM x * 64 + BITNUM x"
  by (simp add: WORDNUM_def BITNUM_def)

lemma BITNUM_less [simp]: "BITNUM x < 64"
  by (simp add: BITNUM_def)

lemma div_mod_64: "y = w * 64 + n \<longleftrightarrow> y div 64 = w \<and> y mod 64 = n" if "n < 64" for n :: nat
  using that by (metis div_mult_mod_eq div_mult_self3 div_less mod_mult_self3 mod_less zero_neq_numeral add.commute add_0)

lemma bmem_set_bit:
  assumes "w < length ws" "n < 64"
  shows "bmem (ws[w := ws ! w OR 2 ^ n]) y \<longleftrightarrow> y = w * 64 + n \<or> bmem ws y"
  unfolding div_mod_64 [OF assms(2)]
  using assms by (cases "y div 64 = w") (auto simp: bmem_def bit_or_iff bit_exp_iff)

lemma bmem_clear_bit:
  assumes "w < length ws" "n < 64"
  shows "bmem (ws[w := ws ! w AND NOT (2 ^ n)]) y \<longleftrightarrow> y \<noteq> w * 64 + n \<and> bmem ws y"
  unfolding div_mod_64 [OF assms(2)]
  using assms by (cases "y div 64 = w") (auto simp: bmem_def bit_and_iff bit_not_iff bit_exp_iff)

lemma bmem_replicate_0 [simp]: "\<not> bmem (replicate n 0) y"
  by (simp add: bmem_def)

lemma bmem_enlarge [simp]: "bmem (enlarge_words n ws) y = bmem ws y"
  by (auto simp: bmem_def enlarge_words_def nth_append)

lemma length_enlarge: "length (enlarge_words n ws) = max n (length ws)"
  by (simp add: enlarge_words_def)

lemma bmem_one_bit:
  assumes "w < m" "n < 64"
  shows "bmem ((replicate m 0)[w := push_bit n 1]) y \<longleftrightarrow> y = w * 64 + n"
  unfolding div_mod_64 [OF assms(2)]
  using assms by (cases "y div 64 = w") (auto simp: bmem_def bit_exp_iff)

lemma bms_make_singleton_set:
  assumes "x \<ge> 0"
  shows "\<exists>r. bms_make_singleton x = Inr (Some r) \<and> bms_set (Some r) = {nat x}"
proof (intro exI conjI)
  show "bms_make_singleton x = Inr (Some (Bitmapset
      ((replicate (WORDNUM x + 1) 0)[WORDNUM x := push_bit (BITNUM x) 1])))"
    using assms by (simp add: bms_make_singleton_def Let_def)
  show "bms_set (Some (Bitmapset
      ((replicate (WORDNUM x + 1) 0)[WORDNUM x := push_bit (BITNUM x) 1]))) = {nat x}"
    by (intro set_eqI) (simp only: in_bms_set bitmapset.sel singleton_iff WORDNUM_BITNUM [OF assms]
      bmem_one_bit BITNUM_less less_add_one)
qed

lemma bms_add_member_set:
  assumes "x \<ge> 0"
  shows "\<exists>r. bms_add_member a x = Inr (Some r) \<and> bms_set (Some r) = insert (nat x) (bms_set a)"
proof (cases a)
  case None
  with assms bms_make_singleton_set [OF assms] show ?thesis
    by (simp add: bms_add_member_def)
next
  case (Some a')
  with assms show ?thesis
    by (auto simp: bms_add_member_def Let_def WORDNUM_BITNUM bmem_set_bit length_enlarge)
qed

lemma bms_del_member_set:
  assumes "x \<ge> 0"
  shows "\<exists>r. bms_del_member a x = Inr r \<and> bms_set r = bms_set a - {nat x} \<and> bms_ok r"
proof (cases a)
  case None
  with assms show ?thesis by (simp add: bms_del_member_def)
next
  case (Some a')
  show ?thesis
  proof (cases "WORDNUM x < nwords a'")
    case True
    with assms Some show ?thesis
      by (auto simp: bms_del_member_def Let_def WORDNUM_BITNUM bmem_clear_bit)
  next
    case False
    with assms have "\<not> bmem (bms_words a') (nat x)"
      by (simp add: bmem_def WORDNUM_def)
    with False assms Some show ?thesis
      by (auto simp: bms_del_member_def Let_def)
  qed
qed

lemma and_shift_neq_0: "w AND 2 ^ n \<noteq> 0 \<longleftrightarrow> bit w n" for w :: "'a::len word"
  by (simp add: and_exp_eq_0_iff_not_bit)

lemma bms_is_member_iff: "x \<ge> 0 \<Longrightarrow> bms_is_member x a = Inr (nat x \<in> bms_set a)"
  by (cases a) (auto simp: bms_is_member_def Let_def and_shift_neq_0 bmem_def WORDNUM_def BITNUM_def)

lemma bit_not_low_mask: "bit (NOT (2 ^ l - 1) :: bitmapword) n \<longleftrightarrow> l \<le> n \<and> n < 64"
  by (auto simp: bit_not_iff bit_mask_iff simp flip: mask_eq_exp_minus_1)

lemma bit_high_mask: "u < 64 \<Longrightarrow> bit (mask (64 - (63 - u)) :: bitmapword) n \<longleftrightarrow> n \<le> u"
  by (auto simp: bit_mask_iff)

lemma le_div_mod_64: "x \<le> y \<longleftrightarrow> x div 64 < y div 64 \<or> x div 64 = y div 64 \<and> x mod 64 \<le> y mod 64"
  for x y :: nat
proof -
  have "64 * (x div 64) + x mod 64 = x" "64 * (y div 64) + y mod 64 = y" "x mod 64 < 64" "y mod 64 < 64"
    by simp_all
  then show ?thesis by linarith
qed

lemma bmem_upd: "w < length ws \<Longrightarrow>
    bmem (ws[w := v]) y \<longleftrightarrow> (if y div 64 = w then bit v (y mod 64) else bmem ws y)"
  by (auto simp: bmem_def)

lemma bms_set_UnI:
  assumes "f = Inr (Some (Bitmapset r))" "\<And>y. bmem r y \<longleftrightarrow> y \<in> bms_set a \<or> y \<in> R"
  shows "\<exists>r. f = Inr (Some r) \<and> bms_set (Some r) = bms_set a \<union> R"
  using assms(2) by (intro exI [of _ "Bitmapset r"] conjI assms(1)) (auto simp: bms_set_def)

lemma bms_add_range_set:
  assumes "0 \<le> lower" "lower \<le> upper"
  shows "\<exists>r. bms_add_range a lower upper = Inr (Some r) \<and>
           bms_set (Some r) = bms_set a \<union> {nat lower..nat upper}"
proof -
  define ws where "ws = (case a of None \<Rightarrow> replicate (WORDNUM upper + 1) 0
    | Some a \<Rightarrow> enlarge_words (WORDNUM upper + 1) (bms_words a))"
  have ws: "bmem ws y \<longleftrightarrow> y \<in> bms_set a" for y
    by (cases a) (simp_all add: ws_def del: replicate_Suc)
  have len: "WORDNUM upper < length ws"
    by (cases a) (simp_all add: ws_def length_enlarge)
  have lu: "WORDNUM lower \<le> WORDNUM upper"
    using assms by (simp add: WORDNUM_def div_le_mono)
  have range: "y \<in> {nat lower..nat upper} \<longleftrightarrow>
      (WORDNUM lower < y div 64 \<or> WORDNUM lower = y div 64 \<and> BITNUM lower \<le> y mod 64) \<and>
      (y div 64 < WORDNUM upper \<or> y div 64 = WORDNUM upper \<and> y mod 64 \<le> BITNUM upper)" for y
    by (simp add: le_div_mod_64 [of "nat lower"] le_div_mod_64 [of _ "nat upper"] WORDNUM_def BITNUM_def)
  show ?thesis
  proof (cases "WORDNUM lower = WORDNUM upper")
    case True
    let ?r = "ws[WORDNUM lower := ws ! WORDNUM lower OR
      (NOT (2 ^ BITNUM lower - 1) AND drop_bit (64 - (BITNUM upper + 1)) (NOT 0))]"
    have "bms_add_range a lower upper = Inr (Some (Bitmapset ?r))"
      using assms True by (simp add: bms_add_range_def Let_def ws_def)
    moreover have "bmem ?r y \<longleftrightarrow> y \<in> bms_set a \<or> y \<in> {nat lower..nat upper}" for y
    proof (cases "y div 64 = WORDNUM lower")
      case at: True
      with len True show ?thesis
        unfolding range ws [symmetric]
        by (simp add: bmem_upd bit_or_iff bit_and_iff bit_not_low_mask bit_high_mask bmem_def)
    next
      case False
      with len True show ?thesis
        unfolding range ws [symmetric] by (simp add: bmem_upd) linarith
    qed
    ultimately show ?thesis by (rule bms_set_UnI)
  next
    case False
    define ws1 where "ws1 = ws[WORDNUM lower := ws ! WORDNUM lower OR NOT (2 ^ BITNUM lower - 1)]"
    define ws2 where "ws2 = for_upd (WORDNUM lower + 1) (WORDNUM upper) (\<lambda>i w. NOT 0) ws1"
    let ?r = "ws2[WORDNUM upper := ws2 ! WORDNUM upper OR drop_bit (64 - (BITNUM upper + 1)) (NOT 0)]"
    have "bms_add_range a lower upper = Inr (Some (Bitmapset ?r))"
      using assms False by (simp add: bms_add_range_def Let_def ws_def ws1_def ws2_def)
    moreover have "bmem ?r y \<longleftrightarrow> y \<in> bms_set a \<or> y \<in> {nat lower..nat upper}" for y
    proof -
      consider "y div 64 = WORDNUM lower" | "y div 64 = WORDNUM upper"
        | "WORDNUM lower < y div 64" "y div 64 < WORDNUM upper"
        | "y div 64 < WORDNUM lower" | "WORDNUM upper < y div 64" by linarith
      then show ?thesis
        unfolding range ws [symmetric] using len lu False
        by cases (simp_all add: bmem_upd bit_or_iff bit_not_low_mask bit_high_mask bmem_def ws2_def
          ws1_def nth_for_upd nth_list_update cong: conj_cong)
    qed
    ultimately show ?thesis by (rule bms_set_UnI)
  qed
qed

section \<open>Counting\<close>

lemma bmem_Cons: "bmem (w # ws) x \<longleftrightarrow> (if x < 64 then bit w x else bmem ws (x - 64))"
proof (cases "x < 64")
  case False
  then have "x div 64 = Suc ((x - 64) div 64)" "x mod 64 = (x - 64) mod 64"
    by (simp_all add: div_if mod_if)
  with False show ?thesis by (simp add: bmem_def)
qed (simp add: bmem_def)

lemma bmem_Nil [simp]: "\<not> bmem [] x"
  by (simp add: bmem_def)

lemma members_Cons: "{x. bmem (w # ws) x} = {n. bit w n} \<union> (+) 64 ` {x. bmem ws x}"
proof (rule set_eqI)
  fix x
  show "x \<in> {x. bmem (w # ws) x} \<longleftrightarrow> x \<in> {n. bit w n} \<union> (+) 64 ` {x. bmem ws x}"
    by (cases "x < 64") (auto simp: bmem_Cons image_iff dest: bit_imp_le_length
      intro!: exI [of _ "x - 64"])
qed

lemma finite_members [simp]: "finite {x. bmem ws x}"
  by (induction ws) (simp_all add: members_Cons)

lemma card_members_Cons: "card {x. bmem (w # ws) x} = card {n. bit w n} + card {x. bmem ws x}"
  unfolding members_Cons
  by (subst card_Un_disjoint) (auto simp: card_image dest: bit_imp_le_length)

lemma popcount_sum_card: "popcount_sum ws r = r + card {x. bmem ws x}"
proof (induction ws arbitrary: r)
  case (Cons w ws)
  have "{n. bit w n} = {}" if "w = 0"
    by (rule equals0I) (simp add: that)
  then show ?case by (cases "w = 0") (simp_all only: popcount_sum.simps Cons card_members_Cons pg_popcount64_card if_True if_False simp_thms card.empty add_0 add.assoc)
qed simp

lemma bms_set_finite [simp]: "finite (bms_set a)"
  by (cases a) (simp_all add: bms_set_def)

lemma bms_num_members_card: "bms_num_members a = card (bms_set a)"
  by (cases a) (simp_all add: bms_num_members_def bms_set_def popcount_sum_card)



section \<open>Ordering\<close>

abbreviation words_of :: "bms \<Rightarrow> bitmapword list" where
  "words_of a \<equiv> (case a of None \<Rightarrow> [] | Some a \<Rightarrow> bms_words a)"

lemma in_bms_set_words: "x \<in> bms_set a \<longleftrightarrow> bmem (words_of a) x"
  by (cases a) simp_all

lemma wat_Nil [simp]: "wat [] i = 0"
  by (simp add: wat_def)

lemma word_less_top_bit:
  fixes v w :: "'a::len word"
  assumes "v < w"
  shows "\<exists>k. \<not> bit v k \<and> bit w k \<and> (\<forall>n > k. bit v n = bit w n)"
proof -
  let ?D = "{n. bit v n \<noteq> bit w n}"
  have "?D \<subseteq> {..< LENGTH('a)}" by (auto dest: bit_imp_le_length)
  then have fin: "finite ?D" by (rule finite_subset) simp
  have "v \<noteq> w" using assms by simp
  then have "?D \<noteq> {}" by (auto simp: bit_eq_iff)
  with fin have "Max ?D \<in> ?D" by (rule Max_in)
  moreover have above: "\<forall>n > Max ?D. bit v n = bit w n"
    using Max_ge [OF fin] not_le by blast
  moreover have "\<not> w < v" using assms by simp
  ultimately show ?thesis
    using word_less_at_top_bit [of w "Max ?D" v] by blast
qed

text \<open>\<open>B\<close> has the largest element on which \<open>A\<close> and \<open>B\<close> differ.\<close>

definition top_less :: "nat set \<Rightarrow> nat set \<Rightarrow> bool" where
  "top_less A B \<longleftrightarrow> (\<exists>x. x \<notin> A \<and> x \<in> B \<and> (\<forall>y > x. y \<in> A \<longleftrightarrow> y \<in> B))"

lemma top_less_wordwise:
  assumes lt: "wat (words_of a) i < wat (words_of b) i"
    and eq: "\<And>j. j > i \<Longrightarrow> wat (words_of a) j = wat (words_of b) j"
  shows "top_less (bms_set a) (bms_set b)"
proof -
  obtain k where k: "\<not> bit (wat (words_of a) i) k" "bit (wat (words_of b) i) k"
      "\<And>n. n > k \<Longrightarrow> bit (wat (words_of a) i) n = bit (wat (words_of b) i) n"
    using word_less_top_bit [OF lt] by auto
  have k64: "k < 64" using bit_imp_le_length [OF k(2)] by simp
  have "y \<in> bms_set a \<longleftrightarrow> y \<in> bms_set b" if "y > i * 64 + k" for y
  proof (cases "y div 64 = i")
    case True
    with that have "y mod 64 > k" using div_mult_mod_eq [of y 64] by linarith
    with True k(3) show ?thesis by (simp add: in_bms_set_words bmem_wat)
  next
    case False
    have "i * 64 \<le> y" using that by simp
    then have "i \<le> y div 64" by (simp add: less_eq_div_iff_mult_less_eq)
    with False eq [of "y div 64"] show ?thesis by (simp add: in_bms_set_words bmem_wat)
  qed
  then show ?thesis
    unfolding top_less_def using k k64
    by (intro exI [of _ "i * 64 + k"]) (simp add: in_bms_set_words bmem_at)
qed

lemma compare_down_cases:
  "compare_down as bs n = 0 \<and> (\<forall>j < n. as ! j = bs ! j) \<or>
   (\<exists>i < n. as ! i \<noteq> bs ! i \<and> (\<forall>j. i < j \<and> j < n \<longrightarrow> as ! j = bs ! j) \<and>
      compare_down as bs n = (if as ! i > bs ! i then 1 else -1))"
proof (induction n)
  case (Suc n)
  show ?case
  proof (cases "as ! n = bs ! n")
    case True
    with Suc show ?thesis by (auto simp: less_Suc_eq)
  next
    case False
    then show ?thesis by (intro disjI2 exI [of _ n]) auto
  qed
qed simp

lemma top_nonzero_word:
  assumes "wat ws i \<noteq> 0"
  shows "\<exists>j \<ge> i. wat ws j \<noteq> 0 \<and> (\<forall>k > j. wat ws k = 0)"
proof -
  let ?D = "{k. wat ws k \<noteq> 0}"
  have "?D \<subseteq> {..< length ws}" by (auto simp: wat_def)
  then have fin: "finite ?D" by (rule finite_subset) simp
  have i: "i \<in> ?D" using assms by simp
  then have "Max ?D \<in> ?D" by (intro Max_in [OF fin]) auto
  moreover have "i \<le> Max ?D" by (rule Max_ge [OF fin i])
  moreover have "\<forall>k > Max ?D. wat ws k = 0" using Max_ge [OF fin] not_le by blast
  ultimately show ?thesis by blast
qed

lemma top_less_extra_words:
  assumes "wat (words_of b) i \<noteq> 0" "\<And>j. j \<ge> i \<Longrightarrow> wat (words_of a) j = 0"
  shows "top_less (bms_set a) (bms_set b)"
proof -
  obtain j where "j \<ge> i" "wat (words_of b) j \<noteq> 0" "\<And>k. k > j \<Longrightarrow> wat (words_of b) k = 0"
    using top_nonzero_word [OF assms(1)] by auto
  then show ?thesis
    using assms(2) by (intro top_less_wordwise [of a j b]) (simp_all add: word_neq_0_conv)
qed

lemma bms_ok_Some_word: "bms_ok (Some a) \<Longrightarrow> \<exists>i. wat (bms_words a) i \<noteq> 0"
  using bms_set_empty_wordwise [of a] by (auto simp: bms_ok_Some)

lemma bms_compare_cases:
  assumes "bms_ok a" "bms_ok b"
  shows "bms_compare a b = 0 \<and> bms_set a = bms_set b \<or>
         bms_compare a b = -1 \<and> top_less (bms_set a) (bms_set b) \<or>
         bms_compare a b = 1 \<and> top_less (bms_set b) (bms_set a)"
proof (cases a; cases b)
  fix b' assume ab: "a = None" "b = Some b'"
  with assms(2) obtain i where "wat (words_of b) i \<noteq> 0" using bms_ok_Some_word by auto
  then have "top_less (bms_set a) (bms_set b)" by (rule top_less_extra_words) (simp add: ab)
  then show ?thesis by (simp add: ab bms_compare_def)
next
  fix a' assume ab: "a = Some a'" "b = None"
  with assms(1) obtain i where "wat (words_of a) i \<noteq> 0" using bms_ok_Some_word by auto
  then have "top_less (bms_set b) (bms_set a)" by (rule top_less_extra_words) (simp add: ab)
  then show ?thesis by (simp add: ab bms_compare_def)
next
  fix a' b' assume ab: "a = Some a'" "b = Some b'"
  let ?n = "min (nwords a') (nwords b')"
  let ?as = "bms_words a'" and ?bs = "bms_words b'"
  show ?thesis
  proof (cases "\<exists>i. ?n \<le> i \<and> i < nwords a' \<and> ?as ! i \<noteq> 0")
    case True
    then obtain i where i: "?n \<le> i" "i < nwords a'" "?as ! i \<noteq> 0" by auto
    then have "top_less (bms_set b) (bms_set a)"
      by (intro top_less_extra_words [of a i]) (auto simp: ab wat_def min_le_iff_disj)
    with True show ?thesis by (simp add: ab bms_compare_def Let_def)
  next
    case aZ: False
    show ?thesis
    proof (cases "\<exists>i. ?n \<le> i \<and> i < nwords b' \<and> ?bs ! i \<noteq> 0")
      case True
      then obtain i where i: "?n \<le> i" "i < nwords b'" "?bs ! i \<noteq> 0" by auto
      then have "top_less (bms_set a) (bms_set b)"
        by (intro top_less_extra_words [of b i]) (auto simp: ab wat_def min_le_iff_disj)
      moreover have "bms_compare a b = -1"
        unfolding ab bms_compare_def Let_def option.case ex_upt_iff using aZ True by auto
      ultimately show ?thesis by simp
    next
      case bZ: False
      have z: "wat ?as j = wat ?bs j" if "j \<ge> ?n" for j
        using aZ bZ that by (auto simp: wat_def)
      have s: "wat ?as j = ?as ! j" "wat ?bs j = ?bs ! j" if "j < ?n" for j
        using that by (auto simp: wat_def)
      have c: "bms_compare a b = compare_down ?as ?bs ?n"
        unfolding ab bms_compare_def Let_def option.case ex_upt_iff using aZ bZ by auto
      consider "compare_down ?as ?bs ?n = 0" "\<And>j. j < ?n \<Longrightarrow> ?as ! j = ?bs ! j"
        | i where "i < ?n" "?as ! i \<noteq> ?bs ! i" "\<And>j. i < j \<Longrightarrow> j < ?n \<Longrightarrow> ?as ! j = ?bs ! j"
            "compare_down ?as ?bs ?n = (if ?as ! i > ?bs ! i then 1 else -1)"
        using compare_down_cases [of ?as ?bs ?n] by blast
      then show ?thesis
      proof cases
        case 1
        then have "wat ?as i = wat ?bs i" for i
          using z [of i] s [of i] by (cases "i < ?n") auto
        with 1 c show ?thesis by (simp add: ab bms_set_eq_wordwise)
      next
        case 2
        have up: "wat ?as j = wat ?bs j" if "j > i" for j
          using z [of j] s [of j] 2(3) [of j] that by (cases "j < ?n") auto
        show ?thesis
        proof (cases "?as ! i > ?bs ! i")
          case True
          then have "top_less (bms_set b) (bms_set a)"
            using s [OF 2(1)] up by (intro top_less_wordwise [of b i a]) (simp_all add: ab)
          with True c 2(4) show ?thesis by simp
        next
          case False
          then have "top_less (bms_set a) (bms_set b)"
            using s [OF 2(1)] up 2(2) by (intro top_less_wordwise [of a i b]) (simp_all add: ab)
          with False c 2(4) show ?thesis by simp
        qed
      qed
    qed
  qed
qed (simp_all add: bms_compare_def)

lemma top_less_Max:
  assumes "top_less A B" "finite A" "finite B"
  shows "A \<noteq> B" "Max (A - B \<union> (B - A)) \<in> B - A"
proof -
  obtain x where x: "x \<notin> A" "x \<in> B" "\<And>y. y > x \<Longrightarrow> y \<in> A \<longleftrightarrow> y \<in> B"
    using assms(1) by (auto simp: top_less_def)
  have "Max (A - B \<union> (B - A)) = x"
    using x assms(2,3) by (intro Max_eqI) (auto simp: not_less [symmetric])
  with x show "A \<noteq> B" "Max (A - B \<union> (B - A)) \<in> B - A" by auto
qed

section \<open>Subset comparison\<close>

definition status_of :: "bool \<Rightarrow> bool \<Rightarrow> BMS_Comparison option" where
  "status_of p q = (if p then if q then None else Some BMS_SUBSET2
                    else if q then Some BMS_SUBSET1 else Some BMS_EQUAL)"

lemma subset_compare_common_spec:
  "status_of p q = Some r \<Longrightarrow>
   subset_compare_common as bs r =
     status_of (p \<or> (\<exists>(v, w) \<in> set (zip as bs). v AND NOT w \<noteq> 0))
               (q \<or> (\<exists>(v, w) \<in> set (zip as bs). w AND NOT v \<noteq> 0))"
proof (induction as arbitrary: bs p q r)
  case (Cons v as)
  show ?case
  proof (cases bs)
    case bs: (Cons w bs')
    have ih: "status_of p' q' = Some r' \<Longrightarrow> subset_compare_common as bs' r' =
        status_of (p' \<or> (\<exists>(v, w) \<in> set (zip as bs'). v AND NOT w \<noteq> 0))
                  (q' \<or> (\<exists>(v, w) \<in> set (zip as bs'). w AND NOT v \<noteq> 0))" for p' q' r'
      by (rule Cons.IH)
    note ihs = ih [of False False] ih [of True False] ih [of False True]
    show ?thesis
      using Cons.prems unfolding bs
      by (cases p; cases q; cases "v AND NOT w = 0"; cases "w AND NOT v = 0")
         (simp_all add: status_of_def ihs [unfolded status_of_def])
  qed (use Cons.prems in simp)
qed simp

lemma subset_compare_extra_spec:
  "status_of p q = Some r \<Longrightarrow>
   subset_compare_extra BMS_SUBSET1 BMS_SUBSET2 ws r = status_of (p \<or> (\<exists>w \<in> set ws. w \<noteq> 0)) q"
  "status_of p q = Some r \<Longrightarrow>
   subset_compare_extra BMS_SUBSET2 BMS_SUBSET1 ws r = status_of p (q \<or> (\<exists>w \<in> set ws. w \<noteq> 0))"
proof (induction ws arbitrary: p q r)
  case (Cons w ws)
  {
    case 1
    note ihs = Cons.IH(1) [of False False] Cons.IH(1) [of True False] Cons.IH(1) [of False True]
    show ?case
      using 1 by (cases p; cases q; cases "w = 0")
        (simp_all add: status_of_def ihs [unfolded status_of_def])
  next
    case 2
    note ihs = Cons.IH(2) [of False False] Cons.IH(2) [of True False] Cons.IH(2) [of False True]
    show ?case
      using 2 by (cases p; cases q; cases "w = 0")
        (simp_all add: status_of_def ihs [unfolded status_of_def])
  }
qed simp_all

lemma zip_diff_iff:
  "(\<exists>(v, w) \<in> set (zip as bs). P v w) \<longleftrightarrow> (\<exists>i. i < length as \<and> i < length bs \<and> P (as ! i) (bs ! i))"
  by (fastforce simp: set_zip)

lemma drop_nonzero_iff: "(\<exists>w \<in> set (drop n ws). w \<noteq> 0) \<longleftrightarrow> (\<exists>i \<ge> n. i < length ws \<and> ws ! i \<noteq> 0)"
proof -
  have "(\<exists>w \<in> set (drop n ws). w \<noteq> 0) \<longleftrightarrow> (\<exists>j < length ws - n. ws ! (n + j) \<noteq> 0)"
    by (cases "n \<le> length ws") (force simp: set_conv_nth)+
  also have "\<dots> \<longleftrightarrow> (\<exists>i \<ge> n. i < length ws \<and> ws ! i \<noteq> 0)"
    by (auto simp: le_iff_add less_diff_conv add.commute)
  finally show ?thesis .
qed

lemma subset_split:
  "\<not> bms_set (Some a) \<subseteq> bms_set (Some b) \<longleftrightarrow>
   (\<exists>(v, w) \<in> set (zip (bms_words a) (bms_words b)). v AND NOT w \<noteq> 0) \<or>
   (\<exists>w \<in> set (drop (min (nwords a) (nwords b)) (bms_words a)). w \<noteq> 0)"
  unfolding bms_subset_wordwise wordwise_diff_split zip_diff_iff drop_nonzero_iff by blast

lemma status_of_sets:
  "(case status_of (\<not> A \<subseteq> B) (\<not> B \<subseteq> A) of None \<Rightarrow> BMS_DIFFERENT | Some r \<Rightarrow> r) =
   (if A = B then BMS_EQUAL else if A \<subseteq> B then BMS_SUBSET1 else if B \<subseteq> A then BMS_SUBSET2
    else BMS_DIFFERENT)"
  by (auto simp: status_of_def)

lemma status_ofD: "status_of p q = Some r \<Longrightarrow> status_of p q = Some r \<and> \<not> (p \<and> q)"
  by (auto simp: status_of_def split: if_splits)

lemma zip_swap_ex: "(\<exists>(v, w) \<in> set (zip as bs). P w v) \<longleftrightarrow> (\<exists>(v, w) \<in> set (zip bs as). P v w)"
  unfolding zip_diff_iff by blast

lemma bms_subset_compare_spec:
  assumes "bms_ok a" "bms_ok b"
  shows "bms_subset_compare a b =
    (if bms_set a = bms_set b then BMS_EQUAL else if bms_set a \<subseteq> bms_set b then BMS_SUBSET1
     else if bms_set b \<subseteq> bms_set a then BMS_SUBSET2 else BMS_DIFFERENT)"
proof (cases a; cases b)
  fix a' b' assume ab: "a = Some a'" "b = Some b'"
  let ?P = "\<exists>(v, w) \<in> set (zip (bms_words a') (bms_words b')). v AND NOT w \<noteq> 0"
  let ?Q = "\<exists>(v, w) \<in> set (zip (bms_words a') (bms_words b')). w AND NOT v \<noteq> 0"
  let ?n = "min (nwords a') (nwords b')"
  let ?EA = "\<exists>w \<in> set (drop ?n (bms_words a')). w \<noteq> 0"
  let ?EB = "\<exists>w \<in> set (drop ?n (bms_words b')). w \<noteq> 0"
  have common: "subset_compare_common (bms_words a') (bms_words b') BMS_EQUAL = status_of ?P ?Q"
    using subset_compare_common_spec [of False False BMS_EQUAL "bms_words a'" "bms_words b'"]
    by (simp add: status_of_def)
  have A: "\<not> bms_set a \<subseteq> bms_set b \<longleftrightarrow> ?P \<or> ?EA"
    unfolding ab by (rule subset_split)
  have B: "\<not> bms_set b \<subseteq> bms_set a \<longleftrightarrow> ?Q \<or> ?EB"
    unfolding ab subset_split zip_swap_ex [of "bms_words a'" "bms_words b'"] by (simp add: min.commute)
  have lens: "nwords a' \<le> nwords b' \<Longrightarrow> \<not> ?EA" "nwords b' \<le> nwords a' \<Longrightarrow> \<not> ?EB"
    by simp_all
  have "bms_subset_compare a b =
      (case status_of (?P \<or> ?EA) (?Q \<or> ?EB) of None \<Rightarrow> BMS_DIFFERENT | Some r \<Rightarrow> r)"
  proof (cases "status_of ?P ?Q")
    case None
    then have "?P" "?Q" by (auto simp: status_of_def split: if_splits)
    with None show ?thesis
      by (simp add: ab bms_subset_compare_def Let_def common status_of_def)
  next
    case (Some r)
    note extra = subset_compare_extra_spec [OF Some]
    consider "nwords a' > nwords b'" | "nwords a' < nwords b'" | "nwords a' = nwords b'" by linarith
    then show ?thesis
    proof cases
      case 1
      then have "\<not> ?EB" by (intro lens) simp
      with 1 show ?thesis by (simp only: ab bms_subset_compare_def Let_def common Some option.case extra if_True simp_thms)
    next
      case 2
      then have "\<not> ?EA" "\<not> nwords a' > nwords b'" by simp_all
      with 2 show ?thesis by (simp only: ab bms_subset_compare_def Let_def common Some option.case extra if_True if_False simp_thms)
    next
      case 3
      then have "\<not> ?EA" "\<not> ?EB" "\<not> nwords a' > nwords b'" "\<not> nwords a' < nwords b'" by simp_all
      then show ?thesis by (simp only: ab bms_subset_compare_def Let_def common Some option.case if_False simp_thms)
    qed
  qed
  also note A [symmetric]
  also note B [symmetric]
  finally show ?thesis by (simp only: status_of_sets)
qed (use assms in \<open>auto simp: bms_subset_compare_def bms_ok_def\<close>)

section \<open>Singletons\<close>














lemma overlap_list_loop_spec:
  "list_all (\<lambda>x. x \<ge> 0) xs \<Longrightarrow>
   overlap_list_loop a xs = Inr (\<exists>x \<in> set xs. nat x \<in> bms_set (Some a))"
proof (induction xs)
  case (Cons x xs)
  have "bms_is_member x (Some a) = Inr (nat x \<in> bms_set (Some a))"
    using Cons.prems by (intro bms_is_member_iff) simp
  then have "WORDNUM x < nwords a \<and> bms_words a ! WORDNUM x AND push_bit (BITNUM x) 1 \<noteq> 0
      \<longleftrightarrow> nat x \<in> bms_set (Some a)"
    using Cons.prems by (auto simp: bms_is_member_def Let_def split: if_splits)
  with Cons show ?case by (auto simp: Let_def)
qed simp

section \<open>Iteration\<close>

text \<open>
  What \<open>bms_next_member\<close> returns: the least element of the set of candidates, \<open>-2\<close> when
  there is none; and dually for \<open>bms_prev_member\<close>.
\<close>

definition least_or_none :: "nat set \<Rightarrow> int" where
  "least_or_none S = (if S = {} then -2 else int (Min S))"

definition greatest_or_none :: "nat set \<Rightarrow> int" where
  "greatest_or_none S = (if S = {} then -2 else int (Max S))"

lemma div64_le: "i * 64 + n \<le> y" if "i < y div 64" "n < 64" for i n y :: nat
proof -
  have "(i + 1) * 64 \<le> y" using that(1) by (simp add: less_eq_div_iff_mult_less_eq [symmetric])
  with that(2) show ?thesis by simp
qed

lemma div64_ge: "y \<le> i * 64 + n" if "y div 64 < i" for i n y :: nat
proof -
  have "y < i * 64" using that by (simp add: div_less_iff_less_mult)
  then show ?thesis by simp
qed

lemma and_eq_0_bits:
  fixes v w :: bitmapword
  assumes "v AND w = 0" "bit v n" "bit w n"
  shows False
proof -
  have "\<not> bit (v AND w) n" by (simp add: assms(1))
  with assms(2,3) show False by (simp add: bit_and_iff)
qed

lemma next_member_loop_spec:
  "next_member_loop ws w msk =
     least_or_none {x. bmem ws x \<and> (x div 64 = w \<and> bit msk (x mod 64) \<or> w < x div 64)}"
proof (induction ws w msk rule: next_member_loop.induct)
  case (1 ws w msk)
  let ?S = "\<lambda>w msk. {x. bmem ws x \<and> (x div 64 = w \<and> bit msk (x mod 64) \<or> w < x div 64)}"
  have fin: "finite (?S w msk)" by (rule finite_subset [OF _ finite_members [of ws]]) auto
  show ?case
  proof (cases "w < length ws")
    case False
    then have "?S w msk = {}" by (auto simp: bmem_def)
    with False show ?thesis by (simp add: next_member_loop.simps [of ws w msk] least_or_none_def)
  next
    case len: True
    let ?v = "ws ! w AND msk"
    show ?thesis
    proof (cases "?v = 0")
      case True
      note nb = and_eq_0_bits [OF this]
      have "?S w msk = ?S (w + 1) (NOT 0 :: bitmapword)"
        using nb by (auto simp: bmem_def bit_not_iff)
      with 1 [OF len refl] True len show ?thesis
        by (simp add: next_member_loop.simps [of ws w msk] Let_def)
    next
      case False
      let ?p = "bmw_rightmost_one_pos ?v"
      note p = pg_rightmost_one_pos64_bits [OF False]
      have p64: "?p < 64" using bit_imp_le_length [OF p(1)] by simp
      have "Min (?S w msk) = w * 64 + ?p"
      proof (rule Min_eqI [OF fin])
        show "w * 64 + ?p \<in> ?S w msk"
          using p(1) p64 len by (simp add: bmem_def bit_and_iff)
        fix y assume y: "y \<in> ?S w msk"
        show "w * 64 + ?p \<le> y"
        proof (cases "w < y div 64")
          case True
          then show ?thesis using p64 by (rule div64_le)
        next
          case False
          with y have yd: "y div 64 = w" and "bit ?v (y mod 64)"
            by (auto simp: bmem_def bit_and_iff)
          then have "?p \<le> y mod 64" using p(2) [of "y mod 64"] by (cases "y mod 64 < ?p") auto
          then show ?thesis using div_mult_mod_eq [of y 64] unfolding yd by linarith
        qed
      qed
      moreover have "?S w msk \<noteq> {}"
        using p(1) p64 len by (auto intro!: exI [of _ "w * 64 + ?p"] simp: bmem_def bit_and_iff)
      ultimately show ?thesis
        using False len by (simp add: next_member_loop.simps [of ws w msk] Let_def least_or_none_def)
    qed
  qed
qed

text \<open>The arrays that hold members of type \<open>int\<close>.\<close>

definition bms_fits :: "bms \<Rightarrow> bool" where
  "bms_fits a = (case a of None \<Rightarrow> True | Some a \<Rightarrow> nwords a \<le> 2 ^ 25)"

lemma bms_fits_member:
  assumes "bms_fits a" "x \<in> bms_set a"
  shows "int x \<le> INT_MAX"
proof (cases a)
  case (Some a')
  with assms have "x div 64 < 2 ^ 25" by (auto simp: bms_fits_def bmem_def)
  then have "x < 2147483648" by (simp add: div_less_iff_less_mult)
  then show ?thesis by (simp add: INT_MAX_def)
qed (use assms in simp)

lemma bms_next_member_overflow:
  assumes "a \<noteq> None"
  shows "bms_next_member a INT_MAX = Inl Undefined_Behaviour"
  using assms wrap32_overflow by (auto simp: bms_next_member_def Let_def)

lemma bms_next_member_spec:
  assumes "prevbit \<ge> -1" "prevbit < INT_MAX"
  shows "bms_next_member a prevbit = Inr (least_or_none {x \<in> bms_set a. int x > prevbit})"
proof (cases a)
  case (Some a')
  let ?q = "prevbit + 1"
  have "nat ?q \<le> x \<longleftrightarrow> x div 64 = WORDNUM ?q \<and> BITNUM ?q \<le> x mod 64 \<or> WORDNUM ?q < x div 64" for x
    unfolding WORDNUM_def BITNUM_def by (subst le_div_mod_64) auto
  moreover have "int x > prevbit \<longleftrightarrow> nat ?q \<le> x" for x using assms by linarith
  ultimately have "{x \<in> bms_set a. int x > prevbit} = {x. bmem (bms_words a') x \<and>
      (x div 64 = WORDNUM ?q \<and> bit (push_bit (BITNUM ?q) (NOT 0) :: bitmapword) (x mod 64)
       \<or> WORDNUM ?q < x div 64)}"
    by (auto simp: Some bit_push_bit_iff bit_not_iff bit_mask_iff)
  then show ?thesis
    using assms by (simp add: Some bms_next_member_def Let_def next_member_loop_spec wrap32_id)
qed (simp add: bms_next_member_def least_or_none_def)

lemma prev_member_loop_spec:
  "w \<le> length ws \<Longrightarrow> prev_member_loop ws w msk =
     greatest_or_none {x. bmem ws x \<and> (Suc (x div 64) = w \<and> bit msk (x mod 64) \<or> Suc (x div 64) < w)}"
proof (induction ws w msk rule: prev_member_loop.induct)
  case (2 ws w msk)
  let ?S = "\<lambda>w msk. {x. bmem ws x \<and> (Suc (x div 64) = w \<and> bit msk (x mod 64) \<or> Suc (x div 64) < w)}"
  have fin: "finite (?S (Suc w) msk)" by (rule finite_subset [OF _ finite_members [of ws]]) auto
  have len: "w < length ws" using 2(2) by simp
  let ?v = "ws ! w AND msk"
  show ?case
  proof (cases "?v = 0")
    case True
    note nb = and_eq_0_bits [OF this]
    have "?S (Suc w) msk = ?S w (NOT 0 :: bitmapword)"
      using nb by (auto simp: bmem_def bit_not_iff less_Suc_eq)
    with 2(1) [OF refl] True len show ?thesis by (simp add: Let_def)
  next
    case False
    let ?p = "bmw_leftmost_one_pos ?v"
    note p = pg_leftmost_one_pos64_bits [OF False]
    have p64: "?p < 64" using bit_imp_le_length [OF p(1)] by simp
    have "Max (?S (Suc w) msk) = w * 64 + ?p"
    proof (rule Max_eqI [OF fin])
      show "w * 64 + ?p \<in> ?S (Suc w) msk"
        using p(1) p64 len by (simp add: bmem_def bit_and_iff)
      fix y assume y: "y \<in> ?S (Suc w) msk"
      show "y \<le> w * 64 + ?p"
      proof (cases "y div 64 < w")
        case True
        then show ?thesis by (rule div64_ge)
      next
        case False
        with y have yd: "y div 64 = w" and "bit ?v (y mod 64)"
          by (auto simp: bmem_def bit_and_iff)
        then have "y mod 64 \<le> ?p" using p(2) [of "y mod 64"] by (cases "?p < y mod 64") auto
        then show ?thesis using div_mult_mod_eq [of y 64] unfolding yd by linarith
      qed
    qed
    moreover have "?S (Suc w) msk \<noteq> {}"
      using p(1) p64 len by (auto intro!: exI [of _ "w * 64 + ?p"] simp: bmem_def bit_and_iff)
    ultimately show ?thesis
      using False len by (simp add: Let_def greatest_or_none_def)
  qed
qed (simp add: greatest_or_none_def)

text \<open>The start of a downward iteration, or a bit not above the highest bit of the array.\<close>

definition prev_arg_ok :: "bms \<Rightarrow> int \<Rightarrow> bool" where
  "prev_arg_ok a prevbit \<longleftrightarrow>
     prevbit = -1 \<or> 0 \<le> prevbit \<and> prevbit \<le> INT_MAX \<and>
       (case a of None \<Rightarrow> True | Some a \<Rightarrow> prevbit \<le> int (nwords a) * 64)"

lemma bms_prev_member_spec:
  assumes "prev_arg_ok a prevbit" "bms_ok a" "bms_fits a"
  shows "bms_prev_member a prevbit =
    Inr (greatest_or_none {x \<in> bms_set a. prevbit = -1 \<or> int x < prevbit})"
proof (cases a)
  case (Some a')
  have ne: "nwords a' \<noteq> 0"
    using assms(2) by (auto simp: Some bms_ok_def bmem_def)
  show ?thesis
  proof (cases "prevbit = 0")
    case True
    then show ?thesis by (simp add: Some bms_prev_member_def greatest_or_none_def)
  next
    case False
    define q where "q = (if prevbit = -1 then int (nwords a') * 64 - 1 else prevbit - 1)"
    have wrap: "(if prevbit = -1 then wrap32 (wrap32 (int (nwords a') * 64) - 1)
        else wrap32 (prevbit - 1)) = q"
    proof (cases "prevbit = -1")
      case True
      have "wrap32 (int (nwords a') * 64 - 1) = int (nwords a') * 64 - 1"
        using assms(3) by (intro wrap32_id) (simp_all add: Some bms_fits_def INT_MAX_def)
      with True show ?thesis by (simp add: wrap32_diff q_def)
    next
      case False
      with assms(1) show ?thesis by (simp add: prev_arg_ok_def q_def wrap32_id INT_MAX_def)
    qed
    have q: "q \<ge> 0" "q < int (nwords a') * 64"
      using assms(1) False ne by (auto simp: q_def prev_arg_ok_def Some)
    then have nq: "nat q < nwords a' * 64" by linarith
    then have wq: "WORDNUM q < nwords a'" by (simp add: WORDNUM_def div_less_iff_less_mult)
    have m: "bit (drop_bit (63 - BITNUM q) (NOT 0) :: bitmapword) n \<longleftrightarrow> n \<le> BITNUM q" for n
      using bit_high_mask [OF BITNUM_less, of q n] by simp
    have "x \<le> nat q \<longleftrightarrow> x div 64 = WORDNUM q \<and> x mod 64 \<le> BITNUM q \<or> x div 64 < WORDNUM q" for x
      unfolding WORDNUM_def BITNUM_def by (subst le_div_mod_64) auto
    moreover have "prevbit = -1 \<or> int x < prevbit \<longleftrightarrow> x \<le> nat q" if "bmem (bms_words a') x" for x
    proof -
      have "x < nwords a' * 64" using that by (simp add: bmem_def div_less_iff_less_mult)
      then show ?thesis using q by (auto simp: q_def split: if_splits)
    qed
    ultimately have "{x \<in> bms_set a. prevbit = -1 \<or> int x < prevbit} = {x. bmem (bms_words a') x \<and>
        (Suc (x div 64) = WORDNUM q + 1 \<and> bit (drop_bit (63 - BITNUM q) (NOT 0) :: bitmapword) (x mod 64)
         \<or> Suc (x div 64) < WORDNUM q + 1)}"
      unfolding m by (auto simp: Some)
    then show ?thesis
      using False q wq prev_member_loop_spec [of "WORDNUM q + 1" "bms_words a'"]
      by (simp add: Some bms_prev_member_def Let_def wrap)
  qed
qed (simp add: bms_prev_member_def greatest_or_none_def)

section \<open>Hashing\<close>

lemma strip_zeros_le: "strip_zeros ws n \<le> n"
  by (induction n) auto

lemma strip_zeros_nonzero: "strip_zeros ws n = Suc m \<Longrightarrow> ws ! m \<noteq> 0"
  by (induction n) (auto split: if_splits)

lemma strip_zeros_zero: "strip_zeros ws n \<le> i \<Longrightarrow> i < n \<Longrightarrow> ws ! i = 0"
  by (induction n) (auto split: if_splits simp: less_Suc_eq)

lemma wat_strip_zero: "strip_zeros ws (length ws) \<le> i \<Longrightarrow> wat ws i = 0"
  using strip_zeros_zero [of ws "length ws" i] by (simp add: wat_def)

lemma strip_zeros_mono:
  assumes "\<And>i. wat as i = wat bs i"
  shows "strip_zeros as (length as) \<le> strip_zeros bs (length bs)"
proof (cases "strip_zeros as (length as)")
  case (Suc m)
  have "m < length as" using strip_zeros_le [of as "length as"] Suc by simp
  then have "wat bs m \<noteq> 0"
    using strip_zeros_nonzero [OF Suc] assms [of m] by (simp add: wat_def)
  then have "m < strip_zeros bs (length bs)"
    using wat_strip_zero [of bs m] by (cases "m < strip_zeros bs (length bs)") auto
  with Suc show ?thesis by simp
qed simp

lemma strip_zeros_cong:
  assumes "\<And>i. wat as i = wat bs i"
  shows "strip_zeros as (length as) = strip_zeros bs (length bs)"
    "take (strip_zeros as (length as)) as = take (strip_zeros bs (length bs)) bs"
proof -
  show n: "strip_zeros as (length as) = strip_zeros bs (length bs)"
    by (intro antisym strip_zeros_mono) (simp_all add: assms)
  show "take (strip_zeros as (length as)) as = take (strip_zeros bs (length bs)) bs"
  proof (rule nth_equalityI)
    fix i assume i: "i < length (take (strip_zeros as (length as)) as)"
    then have "i < length as" "i < length bs"
      using strip_zeros_le [of bs "length bs"] by (simp_all add: n)
    then show "take (strip_zeros as (length as)) as ! i = take (strip_zeros bs (length bs)) bs ! i"
      using i assms [of i] by (simp add: wat_def n)
  qed (use strip_zeros_le [of as "length as"] strip_zeros_le [of bs "length bs"] n in simp)
qed

lemma bms_hash_value_cong:
  assumes "bms_ok a" "bms_ok b" "bms_set a = bms_set b"
  shows "bms_hash_value be addr a = bms_hash_value be addr' b"
proof (cases a)
  case None
  then show ?thesis using assms by (auto simp: bms_ok_def bms_hash_value_def)
next
  case (Some a')
  then obtain b' where b: "b = Some b'" using assms by (cases b) (auto simp: bms_ok_def)
  have "wat (bms_words a') i = wat (bms_words b') i" for i
    using assms(3) unfolding Some b bms_set_eq_wordwise by blast
  note c = strip_zeros_cong [OF this]
  show ?thesis
    unfolding Some b bms_hash_value_def option.case Let_def c(2) unfolding c(1) hash_bytes_def absorb_addr [of be addr _ _ addr'] ..
qed

section \<open>Interfaces\<close>

text \<open>
  What a client that only tests and adds members relies on, and what a client that also
  walks over the members relies on.
\<close>

locale member_set =
  fixes elems :: "'s \<Rightarrow> nat set" and valid :: "'s \<Rightarrow> bool" and nil :: 's
    and is_member :: "int \<Rightarrow> 's \<Rightarrow> bool result" and add_member :: "'s \<Rightarrow> int \<Rightarrow> 's result"
  assumes nil_valid: "valid nil" and nil_elems: "elems nil = {}"
    and is_member: "x \<ge> 0 \<Longrightarrow> is_member x s = Inr (nat x \<in> elems s)"
    and add_member: "valid s \<Longrightarrow> x \<ge> 0 \<Longrightarrow>
      \<exists>r. add_member s x = Inr r \<and> valid r \<and> elems r = insert (nat x) (elems s)"
begin

text \<open>One pass that copies members under a renaming.\<close>

lemma copy_members:
  assumes "valid s" "\<And>j. j \<in> set js \<Longrightarrow> dst j \<ge> 0" "\<And>j i. j \<in> set js \<Longrightarrow> src j = Some i \<Longrightarrow> i \<ge> 0"
  shows "\<exists>r. fold_result (\<lambda>j out. case src j of None \<Rightarrow> Inr out | Some i \<Rightarrow>
                 (case is_member i s0 of Inl e \<Rightarrow> Inl e
                  | Inr m \<Rightarrow> if m then add_member out (dst j) else Inr out)) js s = Inr r \<and>
             valid r \<and> elems r = elems s \<union>
               {nat (dst j) | j. j \<in> set js \<and> (\<exists>i. src j = Some i \<and> nat i \<in> elems s0)}"
  using assms
proof (induction js arbitrary: s)
  case Nil
  then show ?case by auto
next
  case (Cons j js)
  show ?case
  proof (cases "\<exists>i. src j = Some i \<and> nat i \<in> elems s0")
    case True
    then obtain i where i: "src j = Some i" "nat i \<in> elems s0" by blast
    obtain s' where s': "add_member s (dst j) = Inr s'" "valid s'" "elems s' = insert (nat (dst j)) (elems s)"
      using add_member [OF Cons.prems(1), of "dst j"] Cons.prems(2) by auto
    have "is_member i s0 = Inr True" using is_member [of i s0] i Cons.prems(3) [of j i] by simp
    with i s' Cons.IH [OF s'(2)] Cons.prems(2,3) show ?thesis by fastforce
  next
    case False
    then have "(case src j of None \<Rightarrow> Inr s | Some i \<Rightarrow> (case is_member i s0 of Inl e \<Rightarrow> Inl e
        | Inr m \<Rightarrow> if m then add_member s (dst j) else Inr s)) = Inr s"
      using Cons.prems(3) [of j] by (cases "src j") (simp_all add: is_member)
    with False Cons.IH [OF Cons.prems(1)] Cons.prems(2,3) show ?thesis by fastforce
  qed
qed

end

text \<open>
  \<open>x = -1; while ((x = next(s, x)) >= 0) process(x);\<close>, at most \<open>fuel\<close> rounds: the values
  processed, in order, and the error the loop ends with, if any; \<open>None\<close> when the rounds
  are not enough.
\<close>

fun visit :: "('s \<Rightarrow> int \<Rightarrow> int result) \<Rightarrow> nat \<Rightarrow> 's \<Rightarrow> int \<Rightarrow> (int list \<times> pg_error option) option" where
  "visit nxt 0 s x = None"
| "visit nxt (Suc fuel) s x =
     (case nxt s x of
        Inl e \<Rightarrow> Some ([], Some e)
      | Inr y \<Rightarrow> if y \<ge> 0 then map_option (apfst ((#) y)) (visit nxt fuel s y) else Some ([], None))"

definition overflow_end :: "int \<Rightarrow> nat set \<Rightarrow> pg_error option" where
  "overflow_end last_member S = (if nat last_member \<in> S then Some Undefined_Behaviour else None)"

locale iterable_set = member_set +
  fixes fits :: "'s \<Rightarrow> bool" and last_member :: int and next_member :: "'s \<Rightarrow> int \<Rightarrow> int result"
  assumes elems_finite: "finite (elems s)"
    and last_member: "last_member \<ge> 0"
    and fits_le: "fits s \<Longrightarrow> y \<in> elems s \<Longrightarrow> int y \<le> last_member"
    and next_member: "x \<ge> -1 \<Longrightarrow> x < last_member \<Longrightarrow>
      next_member s x = Inr (least_or_none {y \<in> elems s. int y > x})"
    and next_overflow: "elems s \<noteq> {} \<Longrightarrow> next_member s last_member = Inl Undefined_Behaviour"
begin

lemma visit_above:
  assumes "fits s"
  shows "x \<ge> -1 \<Longrightarrow> x < last_member \<or> x = last_member \<and> nat x \<in> elems s \<Longrightarrow>
   fuel > card {y \<in> elems s. int y > x} \<Longrightarrow>
   visit next_member fuel s x =
     Some (map int (sorted_list_of_set {y \<in> elems s. int y > x}), overflow_end last_member (elems s))"
proof (induction fuel arbitrary: x)
  case (Suc fuel)
  define S where "S = {y \<in> elems s. int y > x}"
  have fin: "finite S" using elems_finite by (simp add: S_def)
  show ?case
  proof (cases "x = last_member")
    case True
    then have "S = {}" "nat last_member \<in> elems s"
      using fits_le [OF assms] Suc.prems(2) by (fastforce simp: S_def)+
    moreover have "next_member s last_member = Inl Undefined_Behaviour"
      using calculation(2) by (intro next_overflow) auto
    ultimately show ?thesis unfolding S_def [symmetric] using True by (simp add: overflow_end_def)
  next
    case False
    with Suc.prems(2) have less: "x < last_member" by simp
    have step: "next_member s x = Inr (least_or_none S)"
      unfolding S_def by (rule next_member [OF Suc.prems(1) less])
    show ?thesis
    proof (cases "S = {}")
      case True
      then have "nat last_member \<notin> S" by simp
      then have "nat last_member \<notin> elems s" using less last_member by (simp add: S_def)
      with True show ?thesis by (simp add: step least_or_none_def S_def [symmetric] overflow_end_def)
    next
      case False
      define m where "m = Min S"
      have m: "m \<in> S" "\<And>y. y \<in> S \<Longrightarrow> m \<le> y" using fin False by (simp_all add: m_def)
      have ms: "m \<in> elems s" using m(1) by (simp add: S_def)
      have rest: "{y \<in> elems s. int y > int m} = S - {m}"
      proof (rule set_eqI)
        fix y
        show "y \<in> {y \<in> elems s. int y > int m} \<longleftrightarrow> y \<in> S - {m}"
          using m(1) m(2) [of y] by (auto simp: S_def)
      qed
      have "card (S - {m}) < card S" using fin m(1) by (rule card_Diff1_less)
      moreover have "int m < last_member \<or> int m = last_member \<and> nat (int m) \<in> elems s"
        using fits_le [OF assms ms] ms by auto
      ultimately have "visit next_member fuel s (int m) =
          Some (map int (sorted_list_of_set (S - {m})), overflow_end last_member (elems s))"
        using Suc.IH [of "int m", unfolded rest] Suc.prems(3) by (simp add: S_def [symmetric])
      moreover have "sorted_list_of_set S = m # sorted_list_of_set (S - {m})"
        unfolding m_def using fin False by (rule sorted_list_of_set_nonempty)
      ultimately show ?thesis
        using False by (simp add: step least_or_none_def S_def [symmetric] m_def [symmetric])
    qed
  qed
qed simp

lemma visit_all:
  assumes "fits s"
  shows "visit next_member (Suc (card (elems s))) s (-1) =
    Some (map int (sorted_list_of_set (elems s)), overflow_end last_member (elems s))"
proof -
  have "{y \<in> elems s. int y > -1} = elems s" by auto
  with visit_above [OF assms, of "-1" "Suc (card (elems s))"] last_member show ?thesis by simp
qed

end

interpretation bms: iterable_set bms_set bms_ok None bms_is_member bms_add_member bms_fits INT_MAX
  bms_next_member
proof unfold_locales
  fix s :: bms and x :: int
  assume "0 \<le> x"
  then obtain r where "bms_add_member s x = Inr (Some r)" "bms_set (Some r) = insert (nat x) (bms_set s)"
    using bms_add_member_set by blast
  then show "\<exists>r. bms_add_member s x = Inr r \<and> bms_ok r \<and> bms_set r = insert (nat x) (bms_set s)"
    by (auto simp: bms_ok_def)
next
  fix s :: bms
  assume "bms_set s \<noteq> {}"
  then show "bms_next_member s INT_MAX = Inl Undefined_Behaviour"
    by (intro bms_next_member_overflow) auto
qed (simp_all add: bms_is_member_iff bms_next_member_spec bms_fits_member, simp add: INT_MAX_def)

section \<open>Properties\<close>

lemma bmem_less: "bmem ws x \<Longrightarrow> x < length ws * 64"
  by (simp add: bmem_def div_less_iff_less_mult)

lemma bms_okI: "bmem ws x \<Longrightarrow> bms_ok (Some (Bitmapset ws))"
  by (auto simp: bms_ok_def)

text \<open>
  C1: the set operations compute union, intersection and difference of the sets their
  arguments stand for, whether they build a new array or recycle one, for arrays of any
  two lengths; and each returns \<open>NULL\<close> exactly when its result is empty.
\<close>

theorem bms_set_operations:
  assumes "bms_ok a" "bms_ok b"
  shows "bms_set (bms_union a b) = bms_set a \<union> bms_set b \<and> bms_ok (bms_union a b) \<and>
    bms_set (bms_add_members a b) = bms_set a \<union> bms_set b \<and> bms_ok (bms_add_members a b) \<and>
    bms_set (bms_join a b) = bms_set a \<union> bms_set b \<and> bms_ok (bms_join a b) \<and>
    bms_set (bms_intersect a b) = bms_set a \<inter> bms_set b \<and> bms_ok (bms_intersect a b) \<and>
    bms_set (bms_int_members a b) = bms_set a \<inter> bms_set b \<and> bms_ok (bms_int_members a b) \<and>
    bms_set (bms_difference a b) = bms_set a - bms_set b \<and> bms_ok (bms_difference a b) \<and>
    bms_set (bms_del_members a b) = bms_set a - bms_set b \<and> bms_ok (bms_del_members a b)"
  using assms
  by (simp add: bms_union_set bms_union_ok bms_add_members_set bms_add_members_ok bms_join_set
    bms_join_ok bms_intersect_set bms_intersect_ok bms_int_members_set bms_int_members_ok
    bms_difference_set bms_difference_ok bms_del_members_set bms_del_members_ok)

theorem bms_set_operations_witness:
  "bms_ok (Some (Bitmapset [6, 1])) \<and> bms_ok (Some (Bitmapset [2])) \<and>
   bms_set (bms_difference (Some (Bitmapset [6, 1])) (Some (Bitmapset [2]))) =
     bms_set (Some (Bitmapset [6, 1])) - bms_set (Some (Bitmapset [2]))"
proof -
  have "bms_ok (Some (Bitmapset [6, 1]))" "bms_ok (Some (Bitmapset [2]))"
    by (rule bms_okI [of _ 1], simp add: bmem_def bit_numeral_rec bit_1_iff)+
  then show ?thesis using bms_set_operations by blast
qed

text \<open>
  C4: the operations on one member.  For a member that is not negative the singleton, the
  insertion and the deletion succeed with the expected set, the array growing as needed,
  and the membership test answers; inserting a range inserts exactly the members between
  its bounds.  A negative member is refused with an error by all of them.
\<close>

theorem bms_member_operations:
  assumes "bms_ok a" "0 \<le> x" "x \<le> y" "z < 0"
  shows "(\<exists>r. bms_make_singleton x = Inr r \<and> bms_set r = {nat x}) \<and>
    (\<exists>r. bms_add_member a x = Inr r \<and> bms_set r = insert (nat x) (bms_set a) \<and> bms_ok r) \<and>
    (\<exists>r. bms_del_member a x = Inr r \<and> bms_set r = bms_set a - {nat x} \<and> bms_ok r) \<and>
    (\<exists>r. bms_add_range a x y = Inr r \<and> bms_set r = bms_set a \<union> {nat x..nat y} \<and> bms_ok r) \<and>
    bms_is_member x a = Inr (nat x \<in> bms_set a) \<and>
    bms_make_singleton z = Inl negative_member \<and> bms_add_member a z = Inl negative_member \<and>
    bms_del_member a z = Inl negative_member \<and> bms_is_member z a = Inl negative_member \<and>
    bms_add_range a z y = Inl negative_member"
proof -
  have "\<exists>r. bms_add_range a x y = Inr r \<and> bms_set r = bms_set a \<union> {nat x..nat y} \<and> bms_ok r"
    using bms_add_range_set [OF assms(2,3), of a] assms(2,3) by (auto simp: bms_ok_def)
  moreover have "\<exists>r. bms_make_singleton x = Inr r \<and> bms_set r = {nat x}"
    using bms_make_singleton_set [OF assms(2)] by blast
  moreover have "bms_make_singleton z = Inl negative_member" "bms_add_member a z = Inl negative_member"
      "bms_del_member a z = Inl negative_member" "bms_is_member z a = Inl negative_member"
      "bms_add_range a z y = Inl negative_member"
    using assms(2-4) by (simp_all add: bms_make_singleton_def bms_add_member_def bms_del_member_def
      bms_is_member_def bms_add_range_def)
  ultimately show ?thesis
    using bms.add_member [OF assms(1,2)] bms_del_member_set [OF assms(2), of a]
      bms_is_member_iff [OF assms(2), of a] by blast
qed

theorem bms_member_operations_witness:
  "bms_ok None \<and> (0::int) \<le> 3 \<and> (3::int) \<le> 70 \<and> (-1::int) < 0 \<and>
   (\<exists>r. bms_add_range None 3 70 = Inr r \<and> bms_set r = {3..70})"
  using bms_member_operations [of None 3 70 "-1"] by auto

text \<open>
  C2: \<open>bms_compare\<close> orders the sets as binary numbers.  It returns 0 exactly for equal
  sets, and otherwise 1 or -1 according to which set has the largest element on which the
  two differ.  The lengths of the arrays do not matter.
\<close>

theorem bms_compare_order:
  assumes "bms_ok a" "bms_ok b"
  shows "bms_compare a b =
    (if bms_set a = bms_set b then 0
     else if Max (bms_set a - bms_set b \<union> (bms_set b - bms_set a)) \<in> bms_set a then 1 else -1)"
  using bms_compare_cases [OF assms]
proof (elim disjE conjE)
  assume c: "bms_compare a b = -1" and "top_less (bms_set a) (bms_set b)"
  from top_less_Max [OF this(2)] c show ?thesis by simp
next
  assume c: "bms_compare a b = 1" and "top_less (bms_set b) (bms_set a)"
  from top_less_Max [OF this(2)] c show ?thesis by (auto simp: Un_commute)
qed simp

theorem bms_compare_order_witness:
  "bms_ok (Some (Bitmapset [6, 0])) \<and> bms_ok (Some (Bitmapset [2])) \<and>
   (if bms_set (Some (Bitmapset [6, 0])) = bms_set (Some (Bitmapset [2])) then 0
     else if Max (bms_set (Some (Bitmapset [6, 0])) - bms_set (Some (Bitmapset [2])) \<union>
         (bms_set (Some (Bitmapset [2])) - bms_set (Some (Bitmapset [6, 0]))))
       \<in> bms_set (Some (Bitmapset [6, 0])) then 1 else -1) = (1::int)"
proof -
  have "bms_ok (Some (Bitmapset [6, 0]))" "bms_ok (Some (Bitmapset [2]))"
    by (rule bms_okI [of _ 1], simp add: bmem_def bit_numeral_rec bit_1_iff)+
  moreover have "bms_compare (Some (Bitmapset [6, 0])) (Some (Bitmapset [2])) = 1"
    by (simp add: bms_compare_def upt_rec)
  ultimately show ?thesis using bms_compare_order by metis
qed

text \<open>
  C5: the tests on two sets decide what they say: equality, inclusion, overlap and
  non-empty difference; and \<open>bms_subset_compare\<close> tells in one pass which of the four
  cases of inclusion holds.
\<close>

theorem bms_tests:
  assumes "bms_ok a" "bms_ok b"
  shows "(bms_equal a b \<longleftrightarrow> bms_set a = bms_set b) \<and>
    (bms_is_subset a b \<longleftrightarrow> bms_set a \<subseteq> bms_set b) \<and>
    (bms_overlap a b \<longleftrightarrow> bms_set a \<inter> bms_set b \<noteq> {}) \<and>
    (bms_nonempty_difference a b \<longleftrightarrow> bms_set a - bms_set b \<noteq> {}) \<and>
    bms_subset_compare a b =
      (if bms_set a = bms_set b then BMS_EQUAL else if bms_set a \<subseteq> bms_set b then BMS_SUBSET1
       else if bms_set b \<subseteq> bms_set a then BMS_SUBSET2 else BMS_DIFFERENT)"
  unfolding bms_subset_compare_spec [OF assms] bms_equal_iff [OF assms] bms_is_subset_iff [OF assms(1)]
    bms_overlap_iff bms_nonempty_difference_iff [OF assms(1)]
  by blast

theorem bms_tests_witness:
  "bms_ok (Some (Bitmapset [6, 0])) \<and> bms_ok (Some (Bitmapset [6])) \<and>
   bms_set (Some (Bitmapset [6, 0])) = bms_set (Some (Bitmapset [6]))"
proof -
  have "bms_ok (Some (Bitmapset [6, 0]))" "bms_ok (Some (Bitmapset [6]))"
    by (rule bms_okI [of _ 1], simp add: bmem_def bit_numeral_rec bit_1_iff)+
  moreover have "bms_equal (Some (Bitmapset [6, 0])) (Some (Bitmapset [6]))"
    by (auto simp: bms_equal_def less_Suc_eq)
  ultimately show ?thesis using bms_tests by blast
qed

text \<open>
  C3: the documented loop over a set, \<open>x = -1; while ((x = bms_next_member(set, x)) >= 0)\<close>,
  visits each member once, in increasing order, and ends after one round more than the set
  has members, for every set of \<open>int\<close> members except those that contain \<open>INT_MAX\<close>: there
  it visits all members too, but the call after \<open>INT_MAX\<close> overflows and reads outside the
  array.  \<open>bms_prev_member\<close>, called with \<open>-1\<close> or a bit at most one above the array, returns the greatest
  member below its argument (the greatest of all for \<open>-1\<close>), or \<open>-2\<close> when there is none,
  also for a set that contains \<open>INT_MAX\<close>.
\<close>

theorem bms_iteration:
  assumes "bms_ok a" "bms_fits a" "prev_arg_ok a prevbit"
  shows "visit bms_next_member (Suc (bms_num_members a)) a (-1) =
      Some (map int (sorted_list_of_set (bms_set a)),
        if nat INT_MAX \<in> bms_set a then Some Undefined_Behaviour else None) \<and>
    bms_prev_member a prevbit =
      Inr (if {x \<in> bms_set a. prevbit = -1 \<or> int x < prevbit} = {} then -2
           else int (Max {x \<in> bms_set a. prevbit = -1 \<or> int x < prevbit}))"
  unfolding bms_prev_member_spec [OF assms(3,1,2)] greatest_or_none_def bms_num_members_card
    bms.visit_all [OF assms(2)] overflow_end_def
  by (rule conjI refl)+

theorem bms_iteration_witness:
  "bms_ok (Some (Bitmapset [6, 1])) \<and> bms_fits (Some (Bitmapset [6, 1])) \<and>
   prev_arg_ok (Some (Bitmapset [6, 1])) 64 \<and>
   visit bms_next_member (Suc (bms_num_members (Some (Bitmapset [6, 1])))) (Some (Bitmapset [6, 1])) (-1) =
     Some (map int (sorted_list_of_set (bms_set (Some (Bitmapset [6, 1])))), None)"
proof -
  have "bms_ok (Some (Bitmapset [6, 1]))" "bms_fits (Some (Bitmapset [6, 1]))"
      "prev_arg_ok (Some (Bitmapset [6, 1])) 64"
    by (rule bms_okI [of _ 1], simp add: bmem_def bit_numeral_rec bit_1_iff)
      (simp_all add: prev_arg_ok_def bms_fits_def INT_MAX_def)
  moreover have "nat INT_MAX \<notin> bms_set (Some (Bitmapset [6, 1]))"
  proof
    assume "nat INT_MAX \<in> bms_set (Some (Bitmapset [6, 1]))"
    then have "bmem [6, 1] (nat INT_MAX)" by simp
    from bmem_less [OF this] show False by (simp add: INT_MAX_def)
  qed
  ultimately show ?thesis
    using bms_iteration [of "Some (Bitmapset [6, 1])" 64] by (simp only: simp_thms if_False)
qed



text \<open>
  C7: hashing respects equality.  Sets that \<open>bms_equal\<close> (the \<open>bitmap_match\<close> of a hash
  table) identifies have the same hash value, whatever trailing zero words they carry and
  wherever the arrays are in memory.
\<close>

theorem bms_hash_respects_equal:
  assumes "bms_ok a" "bms_ok b" "bitmap_match a b = 0"
  shows "bitmap_hash be addr a = bitmap_hash be addr' b"
proof -
  have "bms_set a = bms_set b"
    using assms(3) bms_equal_iff [OF assms(1,2)] by (auto simp: bitmap_match_def split: if_splits)
  then show ?thesis
    unfolding bitmap_hash_def by (rule bms_hash_value_cong [OF assms(1,2)])
qed

theorem bms_hash_respects_equal_witness:
  "bms_ok (Some (Bitmapset [6, 0])) \<and> bms_ok (Some (Bitmapset [6])) \<and>
   bitmap_match (Some (Bitmapset [6, 0])) (Some (Bitmapset [6])) = 0 \<and>
   bitmap_hash False 0 (Some (Bitmapset [6, 0])) = bitmap_hash False 3 (Some (Bitmapset [6]))"
proof -
  have "bms_ok (Some (Bitmapset [6, 0]))" "bms_ok (Some (Bitmapset [6]))"
    by (rule bms_okI [of _ 1], simp add: bmem_def bit_numeral_rec bit_1_iff)+
  moreover have "bitmap_match (Some (Bitmapset [6, 0])) (Some (Bitmapset [6])) = 0"
    by (auto simp: bitmap_match_def bms_equal_def less_Suc_eq)
  ultimately show ?thesis using bms_hash_respects_equal by blast
qed

end
