(* ===== verification/Attmap.thy ===== *)
theory Attmap
  imports Bitmapset
begin

text \<open>
  Column maps between row types (\<open>src/backend/access/common/attmap.c\<close>) and their use
  (\<open>tupconvert.c\<close>).  A tuple descriptor is the list of its columns, an attribute map the
  list \<open>attnums\<close>; both routines that build maps, the test that no conversion is needed, and
  the conversion of slots, tuples and column sets are modelled.  The conversion of column
  sets is a client of the bitmap sets: its lemma is the one of the interface
  \<open>member_set\<close>.  Error details that only format a message are left out.
\<close>

section \<open>Data\<close>

text \<open>The fields of \<open>FormData_pg_attribute\<close> the code looks at.\<close>

record attribute =
  attname :: string
  atttypid :: nat
  atttypmod :: int
  attlen :: int
  attnum :: int
  attalign :: char
  atthasmissing :: bool
  attisdropped :: bool

type_synonym tuple_desc = "attribute list"

abbreviation natts :: "tuple_desc \<Rightarrow> nat" where
  "natts d \<equiv> length d"

text \<open>\<open>attnums\<close>; \<open>maplen\<close> is its length.\<close>

datatype attr_map = AttrMap (attnums: "int list")

abbreviation maplen :: "attr_map \<Rightarrow> nat" where
  "maplen m \<equiv> length (attnums m)"

definition make_attrmap :: "nat \<Rightarrow> attr_map" where
  "make_attrmap n = AttrMap (replicate n 0)"

section \<open>Matching by position\<close>

text \<open>
  The inner loop \<open>for (; j < indesc->natts; j++)\<close>: the next input column that is not
  dropped, and the two counters when the loop is left.
\<close>

function next_input :: "tuple_desc \<Rightarrow> nat \<Rightarrow> nat \<Rightarrow> attribute option \<times> nat \<times> nat" where
  "next_input indesc j nincols =
     (if j < natts indesc then
        if attisdropped (indesc ! j) then next_input indesc (j + 1) nincols
        else (Some (indesc ! j), j, nincols + 1)
      else (None, j, nincols))"
  by pat_completeness auto
termination
  by (relation "measure (\<lambda>(indesc, j, n). natts indesc - j)") auto

declare next_input.simps [simp del]

record position_state =
  ps_map :: attr_map
  ps_j :: nat
  ps_nincols :: nat
  ps_noutcols :: nat
  ps_same :: bool

text \<open>One round of the loop over the output columns.\<close>

definition position_step ::
  "string \<Rightarrow> tuple_desc \<Rightarrow> tuple_desc \<Rightarrow> nat \<Rightarrow> position_state \<Rightarrow> position_state result" where
  "position_step msg indesc outdesc i s =
     (let att = outdesc ! i in
      if attisdropped att then Inr s
      else
        let noutcols = ps_noutcols s + 1 in
        case next_input indesc (ps_j s) (ps_nincols s) of
          (Some inatt, j, nincols) \<Rightarrow>
            if atttypid att \<noteq> atttypid inatt \<or>
               (atttypmod att \<noteq> atttypmod inatt \<and> atttypmod att \<ge> 0)
            then Inl (ERROR msg)
            else Inr (s\<lparr>ps_map := AttrMap ((attnums (ps_map s))[i := int j + 1]),
                        ps_j := j + 1, ps_nincols := nincols, ps_noutcols := noutcols\<rparr>)
        | (None, j, nincols) \<Rightarrow>
            Inr (s\<lparr>ps_j := j, ps_nincols := nincols, ps_noutcols := noutcols, ps_same := False\<rparr>))"

text \<open>The loop that counts the unused input columns: the count, and whether there is one.\<close>

fun unused_input :: "tuple_desc \<Rightarrow> nat \<Rightarrow> bool \<Rightarrow> nat \<times> bool" where
  "unused_input [] nincols same = (nincols, same)"
| "unused_input (att # rest) nincols same =
     (if attisdropped att then unused_input rest nincols same
      else unused_input rest (nincols + 1) False)"

definition check_attrmap_match :: "tuple_desc \<Rightarrow> tuple_desc \<Rightarrow> attr_map \<Rightarrow> bool" where
  "check_attrmap_match indesc outdesc attrMap =
     (natts indesc = natts outdesc \<and>
      list_all (\<lambda>i.
        let inatt = indesc ! i; outatt = outdesc ! i in
        \<not> atthasmissing inatt \<and>
        (attnums attrMap ! i = int i + 1 \<or>
         attnums attrMap ! i = 0 \<and> attisdropped inatt \<and>
         attlen inatt = attlen outatt \<and> attalign inatt = attalign outatt))
        [0..<maplen attrMap])"

definition build_attrmap_by_position ::
  "tuple_desc \<Rightarrow> tuple_desc \<Rightarrow> string \<Rightarrow> attr_map option result" where
  "build_attrmap_by_position indesc outdesc msg =
     (let n = natts outdesc in
      case fold_result (position_step msg indesc outdesc) [0..<n]
             \<lparr>ps_map = make_attrmap n, ps_j = 0, ps_nincols = 0, ps_noutcols = 0, ps_same = True\<rparr> of
        Inl e \<Rightarrow> Inl e
      | Inr s \<Rightarrow>
          let (nincols, same) = unused_input (drop (ps_j s) indesc) (ps_nincols s) (ps_same s) in
          if \<not> same then Inl (ERROR msg)
          else if check_attrmap_match indesc outdesc (ps_map s) then Inr None
          else Inr (Some (ps_map s)))"

section \<open>Matching by name\<close>

text \<open>
  The inner loop over at most \<open>fuel\<close> input columns, starting after \<open>nextindesc\<close> and wrapping
  around: the matching column, if any, and the last position looked at.
\<close>

fun name_search ::
  "attribute \<Rightarrow> tuple_desc \<Rightarrow> nat \<Rightarrow> int \<Rightarrow> (attribute option \<times> int) result" where
  "name_search outatt indesc 0 nextindesc = Inr (None, nextindesc)"
| "name_search outatt indesc (Suc fuel) nextindesc =
     (let nextindesc = nextindesc + 1;
          nextindesc = (if nextindesc \<ge> int (natts indesc) then 0 else nextindesc);
          inatt = indesc ! nat nextindesc in
      if attisdropped inatt then name_search outatt indesc fuel nextindesc
      else if attname outatt = attname inatt then
        if atttypid outatt \<noteq> atttypid inatt \<or> atttypmod outatt \<noteq> atttypmod inatt
        then Inl (ERROR ''could not convert row type'')
        else Inr (Some inatt, nextindesc)
      else name_search outatt indesc fuel nextindesc)"

definition name_step ::
  "tuple_desc \<Rightarrow> tuple_desc \<Rightarrow> bool \<Rightarrow> nat \<Rightarrow> attr_map \<times> int \<Rightarrow> (attr_map \<times> int) result" where
  "name_step indesc outdesc missing_ok i s =
     (let (attrMap, nextindesc) = s; outatt = outdesc ! i in
      if attisdropped outatt then Inr s
      else
        case name_search outatt indesc (natts indesc) nextindesc of
          Inl e \<Rightarrow> Inl e
        | Inr (found, nextindesc) \<Rightarrow>
            let attrMap = (case found of None \<Rightarrow> attrMap
                           | Some inatt \<Rightarrow> AttrMap ((attnums attrMap)[i := attnum inatt])) in
            if attnums attrMap ! i = 0 \<and> \<not> missing_ok
            then Inl (ERROR ''could not convert row type'')
            else Inr (attrMap, nextindesc))"

definition build_attrmap_by_name :: "tuple_desc \<Rightarrow> tuple_desc \<Rightarrow> bool \<Rightarrow> attr_map result" where
  "build_attrmap_by_name indesc outdesc missing_ok =
     map_sum id fst (fold_result (name_step indesc outdesc missing_ok) [0..<natts outdesc]
       (make_attrmap (natts outdesc), -1))"

definition build_attrmap_by_name_if_req ::
  "tuple_desc \<Rightarrow> tuple_desc \<Rightarrow> bool \<Rightarrow> attr_map option result" where
  "build_attrmap_by_name_if_req indesc outdesc missing_ok =
     (case build_attrmap_by_name indesc outdesc missing_ok of
        Inl e \<Rightarrow> Inl e
      | Inr attrMap \<Rightarrow>
          if check_attrmap_match indesc outdesc attrMap then Inr None else Inr (Some attrMap))"

section \<open>Conversion\<close>

text \<open>
  A slot's \<open>tts_values\<close> and \<open>tts_isnull\<close> arrays, side by side; \<open>zero\<close> is \<open>(Datum) 0\<close>.
\<close>

definition execute_attr_map_slot ::
  "'d \<Rightarrow> attr_map \<Rightarrow> ('d \<times> bool) list \<Rightarrow> nat \<Rightarrow> ('d \<times> bool) list" where
  "execute_attr_map_slot zero attrMap invalues outnatts =
     map (\<lambda>i. let j = attnums attrMap ! i - 1
              in if j = -1 then (zero, True) else invalues ! nat j) [0..<outnatts]"

text \<open>
  \<open>deform\<close> and \<open>form\<close> are \<open>heap_deform_tuple\<close> and \<open>heap_form_tuple\<close> for the descriptors of
  the map; the workspace array has the \<open>NULL\<close> entry in front.
\<close>

definition execute_attr_map_tuple ::
  "'d \<Rightarrow> ('t \<Rightarrow> ('d \<times> bool) list) \<Rightarrow> (('d \<times> bool) list \<Rightarrow> 't) \<Rightarrow> 't \<Rightarrow> attr_map \<Rightarrow> 't" where
  "execute_attr_map_tuple zero deform form tuple attrMap =
     (let invalues = (zero, True) # deform tuple
      in form (map (\<lambda>j. invalues ! nat j) (attnums attrMap)))"

definition FirstLowInvalidHeapAttributeNumber :: int where
  "FirstLowInvalidHeapAttributeNumber = -7"

text \<open>The input column for an output column number, \<open>None\<close> where the loop continues.\<close>

definition source_column :: "attr_map \<Rightarrow> int \<Rightarrow> int option" where
  "source_column attrMap out_attnum =
     (if out_attnum < 0 then Some out_attnum
      else if out_attnum = 0 then None
      else let in_attnum = attnums attrMap ! nat (out_attnum - 1)
           in if in_attnum = 0 then None else Some in_attnum)"

definition execute_attr_map_cols :: "attr_map \<Rightarrow> bms \<Rightarrow> bms result" where
  "execute_attr_map_cols attrMap in_cols =
     (if in_cols = None then Inr None
      else fold_result (\<lambda>out_attnum out_cols.
             case source_column attrMap out_attnum of
               None \<Rightarrow> Inr out_cols
             | Some in_attnum \<Rightarrow>
                 (case bms_is_member (in_attnum - FirstLowInvalidHeapAttributeNumber) in_cols of
                    Inl e \<Rightarrow> Inl e
                  | Inr m \<Rightarrow>
                      if m then bms_add_member out_cols (out_attnum - FirstLowInvalidHeapAttributeNumber)
                      else Inr out_cols))
             [FirstLowInvalidHeapAttributeNumber..int (maplen attrMap)] None)"

section \<open>Matching by position\<close>

definition live_from :: "tuple_desc \<Rightarrow> nat \<Rightarrow> nat list" where
  "live_from d j = filter (\<lambda>i. \<not> attisdropped (d ! i)) [j..<natts d]"

definition type_compatible :: "attribute \<Rightarrow> attribute \<Rightarrow> bool" where
  "type_compatible out inn \<longleftrightarrow>
     atttypid out = atttypid inn \<and> (atttypmod out = atttypmod inn \<or> atttypmod out < 0)"

lemma live_from_step:
  "live_from d j = (if j < natts d then if attisdropped (d ! j) then live_from d (Suc j)
     else j # live_from d (Suc j) else [])"
  by (simp add: live_from_def upt_conv_Cons)

lemma next_input_spec:
  "case live_from d j of
     [] \<Rightarrow> \<exists>j'. next_input d j n = (None, j', n) \<and> live_from d j' = []
   | i # is \<Rightarrow> next_input d j n = (Some (d ! i), i, n + 1) \<and> live_from d (Suc i) = is"
proof (induction d j n rule: next_input.induct)
  case (1 d j n)
  show ?case
  proof (cases "j < natts d")
    case True
    then have "next_input d j n =
        (if attisdropped (d ! j) then next_input d (j + 1) n else (Some (d ! j), j, n + 1))"
      by (simp add: next_input.simps [of d j n])
    with 1 [OF True] True show ?thesis
      by (cases "attisdropped (d ! j)"; cases "live_from d (Suc j)") (simp_all add: live_from_step [of d j])
  qed (simp add: live_from_step [of d j] next_input.simps [of d j n])
qed

lemma unused_input_same:
  "snd (unused_input ds n same) \<longleftrightarrow> same \<and> filter (\<lambda>a. \<not> attisdropped a) ds = []"
  by (induction ds n same rule: unused_input.induct) simp_all

lemma live_from_drop: "live_from d j = [] \<longleftrightarrow> filter (\<lambda>a. \<not> attisdropped a) (drop j d) = []"
proof -
  have "drop j d = map ((!) d) [j..<natts d]"
    by (metis map_nth drop_map drop_upt add_0)
  then show ?thesis by (simp add: live_from_def filter_map comp_def)
qed

text \<open>The assignments the loop makes, as pairs of an output and an input column.\<close>

abbreviation assign :: "(nat \<times> nat) list \<Rightarrow> int list \<Rightarrow> int list" where
  "assign \<equiv> fold (\<lambda>(i, j) m. m[i := int j + 1])"

lemma position_loop:
  assumes "lo = filter (\<lambda>i. \<not> attisdropped (outdesc ! i)) os" "js = live_from indesc (ps_j s)"
  shows "if \<exists>(i, j) \<in> set (zip lo js). \<not> type_compatible (outdesc ! i) (indesc ! j)
    then fold_result (position_step msg indesc outdesc) os s = Inl (ERROR msg)
    else \<exists>s'. fold_result (position_step msg indesc outdesc) os s = Inr s' \<and>
      attnums (ps_map s') = assign (zip lo js) (attnums (ps_map s)) \<and>
      live_from indesc (ps_j s') = drop (length lo) js \<and>
      (ps_same s' \<longleftrightarrow> ps_same s \<and> length lo \<le> length js)"
  using assms
proof (induction os arbitrary: lo js s)
  case Nil
  then show ?case by simp
next
  case (Cons i os)
  show ?case
  proof (cases "attisdropped (outdesc ! i)")
    case True
    then have "position_step msg indesc outdesc i s = Inr s" by (simp add: position_step_def)
    then have loop: "fold_result (position_step msg indesc outdesc) (i # os) s =
        fold_result (position_step msg indesc outdesc) os s" by simp
    show ?thesis unfolding loop by (rule Cons.IH) (use Cons.prems True in simp_all)
  next
    case live: False
    obtain lo' where lo: "lo = i # lo'" "lo' = filter (\<lambda>i. \<not> attisdropped (outdesc ! i)) os"
      using Cons.prems(1) live by simp
    show ?thesis
    proof (cases js)
      case Nil
      then obtain j' where j': "next_input indesc (ps_j s) (ps_nincols s) = (None, j', ps_nincols s)"
          "live_from indesc j' = []"
        using next_input_spec [of indesc "ps_j s" "ps_nincols s"] Cons.prems(2) by auto
      let ?s = "s\<lparr>ps_j := j', ps_nincols := ps_nincols s, ps_noutcols := ps_noutcols s + 1, ps_same := False\<rparr>"
      have "position_step msg indesc outdesc i s = Inr ?s"
        using live j' by (simp add: position_step_def Let_def)
      then show ?thesis
        using Cons.IH [OF lo(2), of "[]" ?s] j'(2) lo(1) Nil by auto
    next
      case js: (Cons j js')
      have l: "live_from indesc (ps_j s) = j # js'" using Cons.prems(2) js by simp
      have nx: "next_input indesc (ps_j s) (ps_nincols s) = (Some (indesc ! j), j, ps_nincols s + 1)"
          "live_from indesc (Suc j) = js'"
        using next_input_spec [of indesc "ps_j s" "ps_nincols s"] unfolding l by simp_all
      let ?s = "s\<lparr>ps_map := AttrMap ((attnums (ps_map s))[i := int j + 1]), ps_j := j + 1,
          ps_nincols := ps_nincols s + 1, ps_noutcols := ps_noutcols s + 1\<rparr>"
      show ?thesis
      proof (cases "type_compatible (outdesc ! i) (indesc ! j)")
        case True
        then have "position_step msg indesc outdesc i s = Inr ?s"
          using live nx(1) by (auto simp: position_step_def Let_def type_compatible_def)
        then show ?thesis
          using Cons.IH [OF lo(2), of js' ?s] nx(2) lo(1) js True by (simp cong: if_cong)
      next
        case False
        then have "position_step msg indesc outdesc i s = Inl (ERROR msg)"
          using live nx(1) by (auto simp: position_step_def Let_def type_compatible_def)
        then show ?thesis using False lo(1) js by simp
      qed
    qed
  qed
qed

lemma assign_other: "i \<notin> fst ` set ps \<Longrightarrow> assign ps m ! i = m ! i"
  by (induction ps arbitrary: m) auto

lemma length_assign [simp]: "length (assign ps m) = length m"
  by (induction ps arbitrary: m) auto

lemma assign_at:
  "distinct (map fst ps) \<Longrightarrow> k < length ps \<Longrightarrow> fst (ps ! k) < length m \<Longrightarrow>
   assign ps m ! fst (ps ! k) = int (snd (ps ! k)) + 1"
proof (induction ps arbitrary: m k)
  case (Cons p ps)
  show ?case
  proof (cases k)
    case 0
    then show ?thesis using Cons.prems by (cases p) (simp add: assign_other)
  next
    case (Suc k')
    then show ?thesis using Cons by (cases p) simp
  qed
qed simp

text \<open>The map that the columns in order determine.\<close>

definition position_map :: "tuple_desc \<Rightarrow> tuple_desc \<Rightarrow> attr_map" where
  "position_map indesc outdesc =
     AttrMap (assign (zip (live_from outdesc 0) (live_from indesc 0)) (replicate (natts outdesc) 0))"

definition position_ok :: "tuple_desc \<Rightarrow> tuple_desc \<Rightarrow> bool" where
  "position_ok indesc outdesc \<longleftrightarrow> list_all2 (\<lambda>i j. type_compatible (outdesc ! i) (indesc ! j))
     (live_from outdesc 0) (live_from indesc 0)"

lemma position_map_live:
  assumes "length (live_from outdesc 0) = length (live_from indesc 0)" "k < length (live_from outdesc 0)"
  shows "attnums (position_map indesc outdesc) ! (live_from outdesc 0 ! k) = int (live_from indesc 0 ! k) + 1"
proof -
  let ?ps = "zip (live_from outdesc 0) (live_from indesc 0)"
  have "live_from outdesc 0 ! k \<in> set (live_from outdesc 0)" using assms(2) by simp
  then have "live_from outdesc 0 ! k < natts outdesc" by (simp add: live_from_def)
  then show ?thesis
    using assms assign_at [of ?ps k "replicate (natts outdesc) 0"]
    by (simp add: position_map_def distinct_map_filter) (simp add: live_from_def)
qed

lemma position_map_dropped:
  assumes "i < natts outdesc" "attisdropped (outdesc ! i)"
  shows "attnums (position_map indesc outdesc) ! i = 0"
proof -
  have "i \<notin> set (live_from outdesc 0)" using assms(2) by (simp add: live_from_def)
  then have "i \<notin> fst ` set (zip (live_from outdesc 0) (live_from indesc 0))"
    by (auto dest: set_zip_leftD)
  then show ?thesis using assms(1) by (simp add: position_map_def assign_other)
qed

lemma build_attrmap_by_position_spec:
  "build_attrmap_by_position indesc outdesc msg =
     (if \<not> position_ok indesc outdesc then Inl (ERROR msg)
      else if check_attrmap_match indesc outdesc (position_map indesc outdesc) then Inr None
      else Inr (Some (position_map indesc outdesc)))"
proof -
  let ?lo = "live_from outdesc 0" and ?js = "live_from indesc 0"
  let ?s = "\<lparr>ps_map = make_attrmap (natts outdesc), ps_j = 0, ps_nincols = 0, ps_noutcols = 0,
    ps_same = True\<rparr>"
  let ?bad = "\<exists>(i, j) \<in> set (zip ?lo ?js). \<not> type_compatible (outdesc ! i) (indesc ! j)"
  have lo: "?lo = filter (\<lambda>i. \<not> attisdropped (outdesc ! i)) [0..<natts outdesc]"
    by (simp add: live_from_def)
  have ok: "position_ok indesc outdesc \<longleftrightarrow> length ?lo = length ?js \<and> \<not> ?bad"
    by (auto simp: position_ok_def list_all2_iff)
  note loop = position_loop [OF lo, of ?js indesc ?s msg]
  show ?thesis
  proof (cases ?bad)
    case True
    then have "fold_result (position_step msg indesc outdesc) [0..<natts outdesc] ?s = Inl (ERROR msg)"
      using loop by simp
    with True ok show ?thesis by (simp add: build_attrmap_by_position_def)
  next
    case False
    then obtain s' where s': "fold_result (position_step msg indesc outdesc) [0..<natts outdesc] ?s = Inr s'"
        "attnums (ps_map s') = assign (zip ?lo ?js) (replicate (natts outdesc) 0)"
        "live_from indesc (ps_j s') = drop (length ?lo) ?js" "ps_same s' \<longleftrightarrow> length ?lo \<le> length ?js"
      using loop by (auto simp: make_attrmap_def)
    have m: "ps_map s' = position_map indesc outdesc"
      using s'(2) by (cases "ps_map s'") (simp add: position_map_def)
    have "snd (unused_input (drop (ps_j s') indesc) (ps_nincols s') (ps_same s')) \<longleftrightarrow>
        length ?lo = length ?js"
      unfolding unused_input_same live_from_drop [symmetric] s'(3,4) by auto
    with s'(1) m ok False show ?thesis
      by (cases "unused_input (drop (ps_j s') indesc) (ps_nincols s') (ps_same s')")
         (simp add: build_attrmap_by_position_def Let_def)
  qed
qed

section \<open>Matching by name\<close>

definition same_name :: "tuple_desc \<Rightarrow> attribute \<Rightarrow> nat \<Rightarrow> bool" where
  "same_name indesc outatt j \<longleftrightarrow>
     j < natts indesc \<and> \<not> attisdropped (indesc ! j) \<and> attname (indesc ! j) = attname outatt"

text \<open>
  A descriptor as the catalogs give it: columns are numbered from one, and no two columns
  that are not dropped have the same name.
\<close>

definition desc_ok :: "tuple_desc \<Rightarrow> bool" where
  "desc_ok d \<longleftrightarrow> (\<forall>j < natts d. attnum (d ! j) = int j + 1) \<and>
     (\<forall>j < natts d. \<forall>k < natts d. \<not> attisdropped (d ! j) \<and> \<not> attisdropped (d ! k) \<and>
        attname (d ! j) = attname (d ! k) \<longrightarrow> j = k)"

lemma desc_ok_unique: "desc_ok d \<Longrightarrow> same_name d a j \<Longrightarrow> same_name d a k \<Longrightarrow> j = k"
  by (auto simp: desc_ok_def same_name_def)

text \<open>The positions looked at in \<open>fuel\<close> rounds after \<open>q\<close>.\<close>

definition visited :: "int \<Rightarrow> int \<Rightarrow> nat \<Rightarrow> int set" where
  "visited n q fuel = {(q + 1 + int t) mod n | t. t < fuel}"

lemma visited_0 [simp]: "visited n q 0 = {}"
  by (simp add: visited_def)

lemma Collect_less_Suc: "{f t | t. t < Suc m} = insert (f 0) {f (Suc t) | t. t < m}"
  by (auto simp: less_Suc_eq_0_disj)

lemma visited_Suc:
  assumes "-1 \<le> q" "q < n"
  defines "q' \<equiv> (if q + 1 \<ge> n then 0 else q + 1)"
  shows "visited n q (Suc fuel) = insert q' (visited n q' fuel)"
proof -
  have q': "q' = (q + 1) mod n"
  proof (cases "q + 1 \<ge> n")
    case True
    with assms(2) have "q + 1 = n" by simp
    then show ?thesis by (simp add: q'_def)
  next
    case False
    with assms(1) show ?thesis by (simp add: q'_def)
  qed
  have "(q' + 1 + int t) mod n = (q + 1 + int (Suc t)) mod n" for t
  proof -
    have "(q' + 1 + int t) mod n = (q' + (1 + int t)) mod n" by (simp add: add.assoc)
    also have "\<dots> = (q + 1 + (1 + int t)) mod n" unfolding q' by (rule mod_add_left_eq)
    finally show ?thesis by (simp add: algebra_simps)
  qed
  then have "visited n q' fuel = {(q + 1 + int (Suc t)) mod n | t. t < fuel}"
    by (simp add: visited_def)
  moreover have "visited n q (Suc fuel) = insert ((q + 1 + int 0) mod n) {(q + 1 + int (Suc t)) mod n | t. t < fuel}"
    unfolding visited_def by (rule Collect_less_Suc [where f = "\<lambda>t. (q + 1 + int t) mod n"])
  ultimately show ?thesis by (simp add: q')
qed

lemma visited_all:
  assumes "0 \<le> j" "j < n"
  shows "j \<in> visited n q (nat n)"
proof -
  let ?t = "(j - q - 1) mod n"
  have "(q + 1 + ?t) mod n = (q + 1 + (j - q - 1)) mod n" by (simp add: mod_add_right_eq)
  also have "\<dots> = j" using assms by simp
  finally have "(q + 1 + int (nat ?t)) mod n = j" using assms by simp
  moreover have "nat ?t < nat n" using assms by simp
  ultimately show ?thesis unfolding visited_def mem_Collect_eq by (intro exI [of _ "nat ?t"]) simp
qed

definition type_checked :: "tuple_desc \<Rightarrow> attribute \<Rightarrow> nat \<Rightarrow> (attribute option \<times> int) result" where
  "type_checked indesc outatt j =
     (if atttypid outatt \<noteq> atttypid (indesc ! j) \<or> atttypmod outatt \<noteq> atttypmod (indesc ! j)
      then Inl (ERROR ''could not convert row type'') else Inr (Some (indesc ! j), int j))"

lemma name_search_visits:
  assumes "natts indesc > 0" "-1 \<le> q" "q < int (natts indesc)"
  shows "((\<forall>j. same_name indesc outatt j \<longrightarrow> int j \<notin> visited (int (natts indesc)) q fuel) \<longrightarrow>
            (\<exists>q'. name_search outatt indesc fuel q = Inr (None, q') \<and> -1 \<le> q' \<and> q' < int (natts indesc))) \<and>
         (\<forall>j. same_name indesc outatt j \<and> (\<forall>k. same_name indesc outatt k \<longrightarrow> k = j) \<and>
            int j \<in> visited (int (natts indesc)) q fuel \<longrightarrow>
            name_search outatt indesc fuel q = type_checked indesc outatt j)"
  using assms(2,3)
proof (induction fuel arbitrary: q)
  case 0
  then show ?case by auto
next
  case (Suc fuel)
  let ?n = "int (natts indesc)"
  define q' where "q' = (if q + 1 \<ge> ?n then 0 else q + 1)"
  have q': "0 \<le> q'" "q' < ?n" using Suc.prems assms(1) by (auto simp: q'_def)
  then have r: "-1 \<le> q'" by simp
  have v: "visited ?n q (Suc fuel) = insert q' (visited ?n q' fuel)"
    unfolding q'_def by (rule visited_Suc [OF Suc.prems])
  have m: "same_name indesc outatt (nat q') \<longleftrightarrow>
      \<not> attisdropped (indesc ! nat q') \<and> attname outatt = attname (indesc ! nat q')"
    using q' by (auto simp: same_name_def)
  have step: "name_search outatt indesc (Suc fuel) q =
      (if same_name indesc outatt (nat q') then type_checked indesc outatt (nat q')
       else name_search outatt indesc fuel q')"
    using q' by (simp add: m type_checked_def Let_def q'_def [symmetric])
  show ?case
  proof (cases "same_name indesc outatt (nat q')")
    case True
    then show ?thesis using q'(1) unfolding step v by force
  next
    case False
    have ne: "int j \<noteq> q'" if "same_name indesc outatt j" for j
      using False that by force
    with False Suc.IH [OF r q'(2)] show ?thesis unfolding step v by auto
  qed
qed

lemma name_search_none:
  assumes "-1 \<le> q" "q < int (natts indesc) \<or> natts indesc = 0 \<and> q = -1"
    "\<And>j. \<not> same_name indesc outatt j"
  shows "\<exists>q'. name_search outatt indesc (natts indesc) q = Inr (None, q') \<and>
    -1 \<le> q' \<and> (q' < int (natts indesc) \<or> natts indesc = 0 \<and> q' = -1)"
proof (cases "natts indesc = 0")
  case True
  with assms show ?thesis by simp
next
  case False
  with assms name_search_visits [of indesc q outatt "natts indesc"] show ?thesis by auto
qed

lemma name_search_found:
  assumes "-1 \<le> q" "q < int (natts indesc) \<or> natts indesc = 0 \<and> q = -1"
    "desc_ok indesc" "same_name indesc outatt j"
  shows "name_search outatt indesc (natts indesc) q = type_checked indesc outatt j"
proof -
  have n: "natts indesc > 0" "q < int (natts indesc)"
    using assms by (auto simp: same_name_def)
  have "int j \<in> visited (int (natts indesc)) q (natts indesc)"
    using visited_all [of "int j" "int (natts indesc)" q] assms(4) by (simp add: same_name_def)
  with name_search_visits [OF n(1) assms(1) n(2), of outatt "natts indesc"]
    desc_ok_unique [OF assms(3)] assms(4) show ?thesis by blast
qed

text \<open>What the map holds for an output column, and when the column can be converted.\<close>

definition name_entry :: "tuple_desc \<Rightarrow> attribute \<Rightarrow> int \<Rightarrow> bool" where
  "name_entry indesc outatt v \<longleftrightarrow>
     (if attisdropped outatt \<or> (\<forall>j. \<not> same_name indesc outatt j) then v = 0
      else \<exists>j. same_name indesc outatt j \<and> v = int j + 1)"

definition name_convertible :: "tuple_desc \<Rightarrow> bool \<Rightarrow> attribute \<Rightarrow> bool" where
  "name_convertible indesc missing_ok outatt \<longleftrightarrow> attisdropped outatt \<or>
     (if \<forall>j. \<not> same_name indesc outatt j then missing_ok
      else \<exists>j. same_name indesc outatt j \<and> atttypid outatt = atttypid (indesc ! j) \<and>
             atttypmod outatt = atttypmod (indesc ! j))"

definition search_state_ok :: "tuple_desc \<Rightarrow> int \<Rightarrow> bool" where
  "search_state_ok indesc q \<longleftrightarrow> -1 \<le> q \<and> (q < int (natts indesc) \<or> natts indesc = 0 \<and> q = -1)"

lemma name_step_spec:
  assumes ok: "desc_ok indesc" and q: "search_state_ok indesc q" and i: "i < maplen m" "attnums m ! i = 0"
  shows "if name_convertible indesc missing_ok (outdesc ! i)
    then \<exists>v q'. name_step indesc outdesc missing_ok i (m, q) = Inr (AttrMap ((attnums m)[i := v]), q') \<and>
           name_entry indesc (outdesc ! i) v \<and> search_state_ok indesc q'
    else name_step indesc outdesc missing_ok i (m, q) = Inl (ERROR ''could not convert row type'')"
proof -
  let ?a = "outdesc ! i"
  have same: "AttrMap ((attnums m)[i := 0]) = m"
    using i by (cases m) (simp add: list_update_same_conv)
  consider "attisdropped ?a" | "\<not> attisdropped ?a" "\<And>j. \<not> same_name indesc ?a j"
    | j where "\<not> attisdropped ?a" "same_name indesc ?a j" by blast
  then show ?thesis
  proof cases
    case 1
    then have "name_step indesc outdesc missing_ok i (m, q) = Inr (AttrMap ((attnums m)[i := 0]), q)"
      by (simp add: name_step_def same)
    with 1 q show ?thesis by (auto simp: name_convertible_def name_entry_def)
  next
    case 2
    obtain q' where q': "name_search ?a indesc (natts indesc) q = Inr (None, q')" "search_state_ok indesc q'"
      using name_search_none [of q indesc ?a] q 2 unfolding search_state_ok_def by blast
    then have "name_step indesc outdesc missing_ok i (m, q) =
        (if missing_ok then Inr (AttrMap ((attnums m)[i := 0]), q') else Inl (ERROR ''could not convert row type''))"
      using 2(1) i by (simp add: name_step_def same)
    with 2 q' show ?thesis by (auto simp: name_convertible_def name_entry_def)
  next
    case 3
    have s: "name_search ?a indesc (natts indesc) q = type_checked indesc ?a j"
      using name_search_found [OF _ _ ok 3(2)] q unfolding search_state_ok_def by blast
    have u: "same_name indesc ?a k \<longleftrightarrow> k = j" for k
      using desc_ok_unique [OF ok 3(2)] 3(2) by blast
    have a: "attnum (indesc ! j) = int j + 1" and qj: "search_state_ok indesc (int j)"
      using ok 3(2) by (simp_all add: desc_ok_def same_name_def search_state_ok_def)
    show ?thesis
      using 3(1) i s a qj
      by (simp add: name_step_def type_checked_def name_convertible_def name_entry_def u)
  qed
qed

lemma build_by_name_loop:
  assumes "desc_ok indesc" "search_state_ok indesc q" "maplen m = n" "k \<le> n" "\<And>i. k \<le> i \<Longrightarrow> i < n \<Longrightarrow> attnums m ! i = 0"
  shows "if \<forall>i. k \<le> i \<and> i < n \<longrightarrow> name_convertible indesc missing_ok (outdesc ! i)
    then \<exists>m' q'. fold_result (name_step indesc outdesc missing_ok) [k..<n] (m, q) = Inr (m', q') \<and>
      maplen m' = n \<and> (\<forall>i < k. attnums m' ! i = attnums m ! i) \<and>
      (\<forall>i. k \<le> i \<and> i < n \<longrightarrow> name_entry indesc (outdesc ! i) (attnums m' ! i))
    else fold_result (name_step indesc outdesc missing_ok) [k..<n] (m, q) =
      Inl (ERROR ''could not convert row type'')"
  using assms(2-)
proof (induction "n - k" arbitrary: k m q)
  case 0
  then show ?case by auto
next
  case (Suc d)
  then have k: "k < n" and up: "[k..<n] = k # [Suc k..<n]" by (simp_all add: upt_conv_Cons)
  note st = name_step_spec [OF assms(1) Suc.prems(1), of k m missing_ok outdesc]
  show ?case
  proof (cases "name_convertible indesc missing_ok (outdesc ! k)")
    case False
    then have "name_step indesc outdesc missing_ok k (m, q) = Inl (ERROR ''could not convert row type'')"
      using st k Suc.prems by simp
    with False k show ?thesis by (auto simp: up)
  next
    case True
    then obtain v q' where v: "name_step indesc outdesc missing_ok k (m, q) = Inr (AttrMap ((attnums m)[k := v]), q')"
        "name_entry indesc (outdesc ! k) v" "search_state_ok indesc q'"
      using st k Suc.prems by auto
    have all: "(\<forall>i. k \<le> i \<and> i < n \<longrightarrow> P i) \<longleftrightarrow> P k \<and> (\<forall>i. Suc k \<le> i \<and> i < n \<longrightarrow> P i)" for P
      using k by (metis Suc_le_eq le_neq_implies_less order_refl order.strict_implies_order)
    let ?m = "AttrMap ((attnums m)[k := v])"
    have ih: "if \<forall>i. Suc k \<le> i \<and> i < n \<longrightarrow> name_convertible indesc missing_ok (outdesc ! i)
      then \<exists>m' q''. fold_result (name_step indesc outdesc missing_ok) [Suc k..<n] (?m, q') = Inr (m', q'') \<and>
        maplen m' = n \<and> (\<forall>i < Suc k. attnums m' ! i = attnums ?m ! i) \<and>
        (\<forall>i. Suc k \<le> i \<and> i < n \<longrightarrow> name_entry indesc (outdesc ! i) (attnums m' ! i))
      else fold_result (name_step indesc outdesc missing_ok) [Suc k..<n] (?m, q') =
        Inl (ERROR ''could not convert row type'')"
      by (rule Suc.hyps(1)) (use Suc k v(3) in auto)
    show ?thesis
    proof (cases "\<forall>i. Suc k \<le> i \<and> i < n \<longrightarrow> name_convertible indesc missing_ok (outdesc ! i)")
      case False
      with ih v(1) True show ?thesis unfolding all by (simp add: up)
    next
      case rest: True
      with ih obtain m' q'' where m': "fold_result (name_step indesc outdesc missing_ok) [Suc k..<n] (?m, q') = Inr (m', q'')"
        "maplen m' = n" "\<And>i. i < Suc k \<Longrightarrow> attnums m' ! i = attnums ?m ! i"
        "\<forall>i. Suc k \<le> i \<and> i < n \<longrightarrow> name_entry indesc (outdesc ! i) (attnums m' ! i)" by auto
      have "name_entry indesc (outdesc ! k) (attnums m' ! k)"
        using m'(3) [of k] v(2) k Suc.prems(2) by simp
      with rest True m' v(1) show ?thesis unfolding all by (simp add: up)
    qed
  qed
qed

lemma build_attrmap_by_name_spec:
  assumes "desc_ok indesc"
  shows "if \<forall>i < natts outdesc. name_convertible indesc missing_ok (outdesc ! i)
    then \<exists>m. build_attrmap_by_name indesc outdesc missing_ok = Inr m \<and> maplen m = natts outdesc \<and>
      (\<forall>i < natts outdesc. name_entry indesc (outdesc ! i) (attnums m ! i))
    else build_attrmap_by_name indesc outdesc missing_ok = Inl (ERROR ''could not convert row type'')"
proof -
  have "search_state_ok indesc (-1)" by (auto simp: search_state_ok_def)
  from build_by_name_loop [OF assms this, of "make_attrmap (natts outdesc)" "natts outdesc" 0 missing_ok outdesc]
  show ?thesis
    by (auto simp: make_attrmap_def build_attrmap_by_name_def split: if_splits)
qed

section \<open>Conversion\<close>

lemma match_identity:
  assumes match: "check_attrmap_match indesc outdesc m" and len: "maplen m = natts outdesc"
    and i: "i < natts outdesc" and nz: "attnums m ! i \<noteq> 0"
  shows "execute_attr_map_slot zero m row (natts outdesc) ! i = row ! i"
proof -
  have "attnums m ! i = int i + 1"
    using match len i nz by (auto simp: check_attrmap_match_def Let_def)
  with i show ?thesis by (simp add: execute_attr_map_slot_def Let_def)
qed

lemma match_null:
  assumes match: "check_attrmap_match indesc outdesc m" and len: "maplen m = natts outdesc"
    and i: "i < natts outdesc" and z: "attnums m ! i = 0"
  shows "execute_attr_map_slot zero m row (natts outdesc) ! i = (zero, True) \<and> i < natts indesc \<and>
    attisdropped (indesc ! i) \<and> attlen (indesc ! i) = attlen (outdesc ! i) \<and>
    attalign (indesc ! i) = attalign (outdesc ! i)"
proof -
  have "i \<in> set [0..<maplen m]" using i len by simp
  with match z have "natts indesc = natts outdesc" "attisdropped (indesc ! i)"
      "attlen (indesc ! i) = attlen (outdesc ! i)" "attalign (indesc ! i) = attalign (outdesc ! i)"
    unfolding check_attrmap_match_def list_all_iff Let_def by fastforce+
  with i z show ?thesis by (simp add: execute_attr_map_slot_def)
qed

text \<open>A slot that holds the deformed input tuple converts as the tuple does.\<close>

lemma tuple_slot_agree:
  assumes "\<And>v. v \<in> set (attnums m) \<Longrightarrow> 0 \<le> v"
  shows "execute_attr_map_tuple zero deform form tuple m =
    form (execute_attr_map_slot zero m (deform tuple) (maplen m))"
proof -
  have "(((zero, True) # deform tuple) ! nat (attnums m ! i)) =
      (let j = attnums m ! i - 1 in if j = -1 then (zero, True) else deform tuple ! nat j)"
    if "i < maplen m" for i
  proof -
    have "0 \<le> attnums m ! i" using assms that by simp
    then show ?thesis
      by (cases "attnums m ! i = 0") (auto simp: Let_def nth_Cons' nat_diff_distrib)
  qed
  then have "map (\<lambda>j. ((zero, True) # deform tuple) ! nat j) (attnums m) =
      execute_attr_map_slot zero m (deform tuple) (maplen m)"
    by (intro nth_equalityI) (simp_all add: execute_attr_map_slot_def)
  then show ?thesis by (simp add: execute_attr_map_tuple_def Let_def)
qed

text \<open>The columns of the result of \<open>execute_attr_map_cols\<close>, in the offset numbering.\<close>

lemma execute_attr_map_cols_spec:
  assumes "bms_ok in_cols" "\<And>v. v \<in> set (attnums m) \<Longrightarrow> 0 \<le> v"
  shows "\<exists>r. execute_attr_map_cols m in_cols = Inr r \<and> bms_ok r \<and>
    bms_set r = {nat (i + 7) | i. -7 \<le> i \<and> i \<le> int (maplen m) \<and>
      (\<exists>j. source_column m i = Some j \<and> nat (j + 7) \<in> bms_set in_cols)}"
proof (cases in_cols)
  case None
  then show ?thesis by (simp add: execute_attr_map_cols_def)
next
  case (Some c)
  let ?js = "[-7..int (maplen m)]"
  let ?src = "\<lambda>i. map_option (\<lambda>j. j + 7) (source_column m i)"
  have "\<And>i j. i \<in> set ?js \<Longrightarrow> ?src i = Some j \<Longrightarrow> 0 \<le> j"
  proof -
    fix i j assume i: "i \<in> set ?js" and "?src i = Some j"
    then obtain k where k: "source_column m i = Some k" "j = k + 7" by auto
    show "0 \<le> j"
    proof (cases "i < 0")
      case True
      with i k show ?thesis by (simp add: source_column_def)
    next
      case False
      with i k have "k \<in> set (attnums m)"
        by (auto simp: source_column_def Let_def split: if_splits)
      with assms(2) k(2) show ?thesis by fastforce
    qed
  qed
  moreover have "\<And>i. i \<in> set ?js \<Longrightarrow> 0 \<le> i + 7" by simp
  ultimately have copied: "\<exists>r. fold_result (\<lambda>i out. case ?src i of None \<Rightarrow> Inr out | Some j \<Rightarrow>
        (case bms_is_member j in_cols of Inl e \<Rightarrow> Inl e
         | Inr b \<Rightarrow> if b then bms_add_member out (i + 7) else Inr out)) ?js None = Inr r \<and> bms_ok r \<and>
      bms_set r = bms_set None \<union> {nat (i + 7) | i. i \<in> set ?js \<and> (\<exists>j. ?src i = Some j \<and> nat j \<in> bms_set in_cols)}"
    by (intro bms.copy_members) simp_all
  have loop: "(\<lambda>i out. case ?src i of None \<Rightarrow> Inr out | Some j \<Rightarrow>
        (case bms_is_member j in_cols of Inl e \<Rightarrow> Inl e
         | Inr b \<Rightarrow> if b then bms_add_member out (i + 7) else Inr out)) =
      (\<lambda>i out. case source_column m i of None \<Rightarrow> Inr out | Some j \<Rightarrow>
        (case bms_is_member (j - FirstLowInvalidHeapAttributeNumber) in_cols of Inl e \<Rightarrow> Inl e
         | Inr b \<Rightarrow> if b then bms_add_member out (i - FirstLowInvalidHeapAttributeNumber) else Inr out))"
    unfolding FirstLowInvalidHeapAttributeNumber_def diff_minus_eq_add
    by (intro ext) (simp split: option.split)
  have cols: "{nat (i + 7) | i. i \<in> set ?js \<and> (\<exists>j. ?src i = Some j \<and> nat j \<in> bms_set in_cols)} =
      {nat (i + 7) | i. -7 \<le> i \<and> i \<le> int (maplen m) \<and>
        (\<exists>j. source_column m i = Some j \<and> nat (j + 7) \<in> bms_set in_cols)}"
    by auto
  have "execute_attr_map_cols m in_cols = fold_result (\<lambda>i out. case source_column m i of None \<Rightarrow> Inr out | Some j \<Rightarrow>
        (case bms_is_member (j - FirstLowInvalidHeapAttributeNumber) in_cols of Inl e \<Rightarrow> Inl e
         | Inr b \<Rightarrow> if b then bms_add_member out (i - FirstLowInvalidHeapAttributeNumber) else Inr out)) ?js None"
    unfolding execute_attr_map_cols_def using Some
    by (simp add: FirstLowInvalidHeapAttributeNumber_def [symmetric])
  with copied show ?thesis unfolding loop cols by simp
qed

text \<open>The same columns, case by case: system columns, the whole row, user columns.\<close>

lemma source_column_image:
  assumes "\<forall>v \<in> set (attnums m). 0 \<le> v"
  shows "{nat (i + 7) | i. -7 \<le> i \<and> i \<le> int (maplen m) \<and>
      (\<exists>j. source_column m i = Some j \<and> nat (j + 7) \<in> bms_set c)} =
    bms_set c \<inter> {0..<7} \<union>
      {i + 8 | i. i < maplen m \<and> attnums m ! i \<noteq> 0 \<and> nat (attnums m ! i) + 7 \<in> bms_set c}"
    (is "?A = ?B \<union> ?C")
proof (intro equalityI subsetI)
  fix x assume "x \<in> ?A"
  then obtain i j where i: "x = nat (i + 7)" "-7 \<le> i" "i \<le> int (maplen m)"
      "source_column m i = Some j" "nat (j + 7) \<in> bms_set c" by blast
  show "x \<in> ?B \<union> ?C"
  proof (cases "i < 0")
    case True
    then have "j = i" "x < 7" using i(1,2,4) by (simp_all add: source_column_def nat_less_iff)
    with i(1,5) show ?thesis by simp
  next
    case False
    with i(4) have j: "0 < i" "j = attnums m ! nat (i - 1)" "j \<noteq> 0"
      by (auto simp: source_column_def Let_def split: if_splits)
    then have k: "nat (i - 1) < maplen m" "x = nat (i - 1) + 8" using i(1,3) by linarith+
    then have "0 \<le> j" using assms j(2) by simp
    then have "nat j + 7 \<in> bms_set c" using i(5) by (simp add: nat_add_distrib)
    with j k show ?thesis by blast
  qed
next
  fix x assume "x \<in> ?B \<union> ?C"
  then show "x \<in> ?A"
  proof
    assume "x \<in> ?B"
    then show ?thesis
      by (intro CollectI exI [of _ "int x - 7"]) (auto simp: source_column_def)
  next
    assume "x \<in> ?C"
    then obtain i where i: "x = i + 8" "i < maplen m" "attnums m ! i \<noteq> 0"
      "nat (attnums m ! i) + 7 \<in> bms_set c" by blast
    then have "0 \<le> attnums m ! i" using assms by simp
    with i show ?thesis
      by (intro CollectI exI [of _ "int i + 1"]) (auto simp: source_column_def nat_add_distrib)
  qed
qed

section \<open>Properties\<close>

text \<open>
  C20: matching by position pairs the columns that are not dropped in order.  It succeeds
  exactly when the two descriptors have equally many such columns with compatible types;
  the map then sends the \<open>k\<close>-th live output column to the \<open>k\<close>-th live input column and
  dropped output columns to \<open>NULL\<close>; no map is built when the conversion would do nothing.
\<close>

theorem by_position_pairs_live_columns:
  "build_attrmap_by_position indesc outdesc msg =
     (if \<not> position_ok indesc outdesc then Inl (ERROR msg)
      else if check_attrmap_match indesc outdesc (position_map indesc outdesc) then Inr None
      else Inr (Some (position_map indesc outdesc))) \<and>
   (position_ok indesc outdesc \<longrightarrow> (\<forall>k < length (live_from outdesc 0).
      attnums (position_map indesc outdesc) ! (live_from outdesc 0 ! k) = int (live_from indesc 0 ! k) + 1)) \<and>
   (\<forall>i < natts outdesc. attisdropped (outdesc ! i) \<longrightarrow> attnums (position_map indesc outdesc) ! i = 0)"
  using build_attrmap_by_position_spec position_map_live [of outdesc indesc] position_map_dropped
  by (auto simp: position_ok_def dest: list_all2_lengthD)

definition sample_column :: "string \<Rightarrow> int \<Rightarrow> bool \<Rightarrow> attribute" where
  "sample_column name num dropped = \<lparr>attname = name, atttypid = 23, atttypmod = -1, attlen = 4,
     attnum = num, attalign = CHR ''i'', atthasmissing = False, attisdropped = dropped\<rparr>"

definition sample_in :: tuple_desc where
  "sample_in = [sample_column ''x'' 1 True, sample_column ''b'' 2 False, sample_column ''a'' 3 False]"

definition sample_out :: tuple_desc where
  "sample_out = [sample_column ''a'' 1 False, sample_column ''b'' 2 False]"

lemmas sample_defs = sample_in_def sample_out_def sample_column_def

lemma sample_desc_ok: "desc_ok sample_in" "desc_ok sample_out"
  by (auto simp: desc_ok_def sample_defs less_Suc_eq)

theorem by_position_pairs_live_columns_witness:
  "position_ok sample_in sample_out \<and> attnums (position_map sample_in sample_out) ! 0 = 2"
proof -
  have l: "live_from sample_out 0 = [0, 1]" "live_from sample_in 0 = [1, 2]"
    by (simp_all add: live_from_def sample_defs upt_rec)
  have "position_ok sample_in sample_out"
    by (simp add: position_ok_def l type_compatible_def) (simp add: sample_defs)
  with by_position_pairs_live_columns [of sample_in sample_out "[]"] show ?thesis
    unfolding l by (auto simp: less_Suc_eq)
qed

text \<open>
  C19: matching by name.  The search for an input column starts after the column found
  last and wraps around, yet it finds the column with the same name wherever it is.  The
  map is built exactly when every live output column has an input column of the same name
  with the same type, or has none and missing columns are allowed; otherwise the error is
  raised.
\<close>

theorem by_name_finds_columns:
  assumes "desc_ok indesc"
  shows "if \<forall>i < natts outdesc. name_convertible indesc missing_ok (outdesc ! i)
    then \<exists>m. build_attrmap_by_name indesc outdesc missing_ok = Inr m \<and> maplen m = natts outdesc \<and>
      (\<forall>i < natts outdesc. name_entry indesc (outdesc ! i) (attnums m ! i))
    else build_attrmap_by_name indesc outdesc missing_ok = Inl (ERROR ''could not convert row type'')"
  by (rule build_attrmap_by_name_spec [OF assms])

theorem by_name_finds_columns_witness:
  "desc_ok sample_in \<and> (\<exists>m. build_attrmap_by_name sample_in sample_out False = Inr m)"
proof -
  have "same_name sample_in (sample_out ! 0) 2" "same_name sample_in (sample_out ! 1) 1"
    by (simp_all add: same_name_def sample_defs)
  moreover have "atttypid (sample_in ! j) = 23" "atttypmod (sample_in ! j) = -1" if "j < 3" for j
    using that by (auto simp: sample_defs less_Suc_eq numeral_3_eq_3)
  ultimately have "name_convertible sample_in False (sample_out ! i)" if "i < natts sample_out" for i
  proof -
    have "i = 0 \<or> i = 1" using that by (auto simp: sample_defs)
    then obtain j where "same_name sample_in (sample_out ! i) j" "j < 3"
      using \<open>same_name sample_in (sample_out ! 0) 2\<close> \<open>same_name sample_in (sample_out ! 1) 1\<close> by fastforce
    moreover have "atttypid (sample_out ! i) = 23" "atttypmod (sample_out ! i) = -1"
      using \<open>i = 0 \<or> i = 1\<close> by (auto simp: sample_defs)
    ultimately show ?thesis
      using \<open>\<And>j. j < 3 \<Longrightarrow> atttypid (sample_in ! j) = 23\<close> \<open>\<And>j. j < 3 \<Longrightarrow> atttypmod (sample_in ! j) = -1\<close>
      unfolding name_convertible_def by metis
  qed
  with by_name_finds_columns [OF sample_desc_ok(1), of sample_out False] sample_desc_ok
  show ?thesis by auto
qed

text \<open>
  C21: when \<open>build_attrmap_by_name_if_req\<close> decides that no conversion is needed, the
  conversion it skips would have left every live output column that has an input column of
  its name unchanged, for every row.  Without \<open>missing_ok\<close> that is every live output column.
  With \<open>missing_ok\<close> there can also be output columns without an input column: the conversion
  would make them \<open>NULL\<close>, and it is skipped only where the input column at the same position
  is a dropped column of the same length and alignment, whose stored value then shows
  through.
\<close>

theorem no_map_means_identity:
  assumes "desc_ok indesc" "build_attrmap_by_name_if_req indesc outdesc missing_ok = Inr None"
    "i < natts outdesc" "\<not> attisdropped (outdesc ! i)"
  shows "\<exists>m. build_attrmap_by_name indesc outdesc missing_ok = Inr m \<and>
    (if \<exists>j. same_name indesc (outdesc ! i) j
     then execute_attr_map_slot zero m row (natts outdesc) ! i = row ! i
     else missing_ok \<and> execute_attr_map_slot zero m row (natts outdesc) ! i = (zero, True) \<and>
       i < natts indesc \<and> attisdropped (indesc ! i) \<and>
       attlen (indesc ! i) = attlen (outdesc ! i) \<and> attalign (indesc ! i) = attalign (outdesc ! i))"
proof -
  obtain m where m: "build_attrmap_by_name indesc outdesc missing_ok = Inr m"
      "check_attrmap_match indesc outdesc m"
    using assms(2) by (auto simp: build_attrmap_by_name_if_req_def split: sum.splits if_splits)
  then have "\<forall>i < natts outdesc. name_convertible indesc missing_ok (outdesc ! i)"
    using build_attrmap_by_name_spec [OF assms(1), of outdesc missing_ok] by (auto split: if_splits)
  with build_attrmap_by_name_spec [OF assms(1), of outdesc missing_ok] m(1) assms(3) have
    len: "maplen m = natts outdesc" and e: "name_entry indesc (outdesc ! i) (attnums m ! i)"
    and c: "name_convertible indesc missing_ok (outdesc ! i)"
    by simp_all
  show ?thesis
  proof (cases "\<exists>j. same_name indesc (outdesc ! i) j")
    case True
    then have "attnums m ! i \<noteq> 0" using e assms(4) by (auto simp: name_entry_def split: if_splits)
    from match_identity [OF m(2) len assms(3) this] True m(1) show ?thesis by auto
  next
    case False
    then have z: "attnums m ! i = 0" and ok: missing_ok
      using e c assms(4) by (simp_all add: name_entry_def name_convertible_def)
    from match_null [OF m(2) len assms(3) z, of zero row] False m(1) ok show ?thesis by simp
  qed
qed

definition sample_extra :: tuple_desc where
  "sample_extra = [sample_column ''c'' 1 False, sample_column ''b'' 2 False]"

definition sample_dropped :: tuple_desc where
  "sample_dropped = [sample_column ''x'' 1 True, sample_column ''b'' 2 False]"

lemma sample_dropped_ok: "desc_ok sample_dropped"
  by (auto simp: desc_ok_def sample_dropped_def sample_column_def less_Suc_eq)

theorem no_map_means_identity_witness:
  "desc_ok sample_out \<and> build_attrmap_by_name_if_req sample_out sample_out False = Inr None \<and>
   (0::nat) < natts sample_out \<and> \<not> attisdropped (sample_out ! 0) \<and>
   (\<exists>m. build_attrmap_by_name sample_out sample_out False = Inr m \<and>
     execute_attr_map_slot (0::nat) m [(7, False), (8, True)] (natts sample_out) ! 0 = (7, False)) \<and>
   build_attrmap_by_name_if_req sample_dropped sample_extra True = Inr None \<and>
   (\<exists>m. build_attrmap_by_name sample_dropped sample_extra True = Inr m \<and>
     execute_attr_map_slot (0::nat) m [(7, False), (8, True)] (natts sample_extra) ! 0 = (0, True))"
proof -
  have "build_attrmap_by_name_if_req sample_out sample_out False = Inr None"
      "build_attrmap_by_name_if_req sample_dropped sample_extra True = Inr None"
    by code_simp+
  moreover have "0 < natts sample_out" "\<not> attisdropped (sample_out ! 0)"
      "0 < natts sample_extra" "\<not> attisdropped (sample_extra ! 0)"
    by (simp_all add: sample_defs sample_extra_def)
  moreover have "\<exists>j. same_name sample_out (sample_out ! 0) j"
    by (intro exI [of _ 0]) (simp add: same_name_def sample_defs)
  moreover have "\<not> same_name sample_dropped (sample_extra ! 0) j" for j
    by (cases "j = 0"; cases "j = 1")
      (simp_all add: same_name_def sample_dropped_def sample_extra_def sample_column_def)
  ultimately show ?thesis
    using no_map_means_identity [of sample_out sample_out False 0 "0::nat" "[(7, False), (8, True)]"]
      no_map_means_identity [of sample_dropped sample_extra True 0 "0::nat" "[(7, False), (8, True)]"]
      sample_desc_ok(2) sample_dropped_ok by auto
qed

text \<open>
  C22: converting a set of columns, in the numbering of column sets where system columns
  take the numbers 0 to 6, the whole row 7 and user column \<open>i + 1\<close> the number \<open>i + 8\<close>.  The
  system columns of the input set are kept as they are; the whole-row number never occurs
  in the result; a user column is in the result exactly when the map gives it a source
  column, and that source column is in the input set.  A user column without a source
  (entry 0) is never in the result, even if the input set has the whole row.
\<close>

theorem attr_map_cols_image:
  assumes "bms_ok in_cols" "\<And>v. v \<in> set (attnums m) \<Longrightarrow> 0 \<le> v"
  shows "\<exists>r. execute_attr_map_cols m in_cols = Inr r \<and> bms_ok r \<and>
    bms_set r = bms_set in_cols \<inter> {0..<7} \<union>
      {i + 8 | i. i < maplen m \<and> attnums m ! i \<noteq> 0 \<and> nat (attnums m ! i) + 7 \<in> bms_set in_cols}"
proof -
  have nonneg: "\<forall>v \<in> set (attnums m). 0 \<le> v" using assms(2) by blast
  show ?thesis unfolding source_column_image [OF nonneg, symmetric]
    by (rule execute_attr_map_cols_spec [OF assms])
qed

theorem attr_map_cols_image_witness:
  "bms_ok (Some (Bitmapset [1154])) \<and> list_all (\<lambda>v. 0 \<le> v) (attnums (AttrMap [3, 2, 0])) \<and>
   (\<exists>r. execute_attr_map_cols (AttrMap [3, 2, 0]) (Some (Bitmapset [1154])) = Inr r \<and> bms_ok r \<and>
     7 \<notin> bms_set r \<and> 10 \<notin> bms_set r \<and> {1, 8} \<subseteq> bms_set r)"
proof -
  have m: "1 \<in> bms_set (Some (Bitmapset [1154]))" "10 \<in> bms_set (Some (Bitmapset [1154]))"
    by (simp_all add: bmem_def bit_numeral_rec)
  then have "bms_ok (Some (Bitmapset [1154]))" by (intro bms_okI [of _ 1]) simp
  moreover have "0 \<le> v" if "v \<in> set (attnums (AttrMap [3, 2, 0]))" for v using that by auto
  ultimately obtain r where r: "execute_attr_map_cols (AttrMap [3, 2, 0]) (Some (Bitmapset [1154])) = Inr r"
      "bms_ok r" "bms_set r = bms_set (Some (Bitmapset [1154])) \<inter> {0..<7} \<union>
        {i + 8 | i. i < maplen (AttrMap [3, 2, 0]) \<and> attnums (AttrMap [3, 2, 0]) ! i \<noteq> 0 \<and>
           nat (attnums (AttrMap [3, 2, 0]) ! i) + 7 \<in> bms_set (Some (Bitmapset [1154]))}"
    using attr_map_cols_image by meson
  have "7 \<notin> bms_set r" "10 \<notin> bms_set r" unfolding r(3) by auto
  moreover have "1 \<in> bms_set r" using m(1) unfolding r(3) by simp
  moreover have "8 \<in> bms_set r" using m(2) unfolding r(3) by auto
  ultimately show ?thesis using r(1,2) \<open>bms_ok (Some (Bitmapset [1154]))\<close> by simp
qed

end
