(* ===== verification/PgList.thy ===== *)
theory PgList
  imports Bitutils
begin

text \<open>
  The expansible-array lists of \<open>src/backend/nodes/list.c\<close>.  A \<open>List *\<close> is \<open>None\<close> (\<open>NIL\<close>) or
  \<open>Some\<close> of a header with its array of cells; the array has \<open>max_length\<close> cells, of which the
  first \<open>llength\<close> are in use.  Each function is modelled on the array: the growth policy of
  \<open>new_list\<close> and \<open>enlarge_list\<close>, the block moves, the loops.  \<open>represents t l cs\<close> says that \<open>l\<close>
  satisfies the invariant of \<open>check_list_invariants\<close> for type \<open>t\<close> and holds the cells \<open>cs\<close>; the
  lemmas show each function on \<open>cs\<close>.  The functions that come in one version per element
  type share their proofs through the locale \<open>cell_kind\<close>.  Sizes stay below \<open>max_cells\<close>, the
  limit \<open>palloc\<close> enforces, where the code relies on it to exclude overflow.
  Freeing memory has no counterpart.
\<close>

section \<open>Data\<close>

text \<open>\<open>union ListCell\<close>, and the contents of a cell that nothing has been stored in.\<close>

datatype 'p list_cell =
    ptr_value (lfirst: 'p)
  | int_value (lfirst_int: int)
  | oid_value (lfirst_oid: nat)
  | xid_value (lfirst_xid: nat)
  | undef_cell

datatype node_tag = T_List | T_IntList | T_OidList | T_XidList

text \<open>
  \<open>struct List\<close>.  The array \<open>elements\<close> has \<open>max_length\<close> cells, whether it is the one in the
  header or a separate block; the first \<open>llength\<close> cells are in use.
\<close>

record 'p pg_list =
  list_type :: node_tag
  llength :: nat
  max_length :: nat
  elements :: "'p list_cell list"

type_synonym 'p lst = "'p pg_list option"

definition list_length :: "'p lst \<Rightarrow> nat" where
  "list_length l = (case l of None \<Rightarrow> 0 | Some r \<Rightarrow> llength r)"

text \<open>The cells that \<open>foreach\<close> visits.\<close>

definition foreach :: "'p lst \<Rightarrow> 'p list_cell list" where
  "foreach l = (case l of None \<Rightarrow> [] | Some r \<Rightarrow> take (llength r) (elements r))"

definition LIST_HEADER_OVERHEAD :: nat where
  "LIST_HEADER_OVERHEAD = 3"

definition new_list :: "node_tag \<Rightarrow> nat \<Rightarrow> 'p pg_list" where
  "new_list type min_size =
     (let max_size = unat (pg_nextpower2_32 (of_nat (max 8 (min_size + LIST_HEADER_OVERHEAD))));
          max_size = max_size - LIST_HEADER_OVERHEAD
      in \<lparr>list_type = type, llength = min_size, max_length = max_size,
          elements = replicate max_size undef_cell\<rparr>)"

definition enlarge_list :: "'p pg_list \<Rightarrow> nat \<Rightarrow> 'p pg_list" where
  "enlarge_list list min_size =
     (let new_max_len = unat (pg_nextpower2_32 (of_nat (max 16 min_size)))
      in list\<lparr>elements := take (llength list) (elements list) @
                           replicate (new_max_len - llength list) undef_cell,
              max_length := new_max_len\<rparr>)"

section \<open>Construction\<close>

definition list_make1_impl :: "node_tag \<Rightarrow> 'p list_cell \<Rightarrow> 'p lst" where
  "list_make1_impl t datum1 = (let list = new_list t 1 in Some (list\<lparr>elements := (elements list)[0 := datum1]\<rparr>))"

definition list_make2_impl :: "node_tag \<Rightarrow> 'p list_cell \<Rightarrow> 'p list_cell \<Rightarrow> 'p lst" where
  "list_make2_impl t datum1 datum2 =
     (let list = new_list t 2 in Some (list\<lparr>elements := (elements list)[0 := datum1, 1 := datum2]\<rparr>))"

definition list_make3_impl :: "node_tag \<Rightarrow> 'p list_cell \<Rightarrow> 'p list_cell \<Rightarrow> 'p list_cell \<Rightarrow> 'p lst" where
  "list_make3_impl t datum1 datum2 datum3 =
     (let list = new_list t 3
      in Some (list\<lparr>elements := (elements list)[0 := datum1, 1 := datum2, 2 := datum3]\<rparr>))"

definition list_make4_impl ::
  "node_tag \<Rightarrow> 'p list_cell \<Rightarrow> 'p list_cell \<Rightarrow> 'p list_cell \<Rightarrow> 'p list_cell \<Rightarrow> 'p lst" where
  "list_make4_impl t datum1 datum2 datum3 datum4 =
     (let list = new_list t 4
      in Some (list\<lparr>elements := (elements list)[0 := datum1, 1 := datum2, 2 := datum3, 3 := datum4]\<rparr>))"

definition list_make5_impl ::
  "node_tag \<Rightarrow> 'p list_cell \<Rightarrow> 'p list_cell \<Rightarrow> 'p list_cell \<Rightarrow> 'p list_cell \<Rightarrow> 'p list_cell \<Rightarrow> 'p lst" where
  "list_make5_impl t datum1 datum2 datum3 datum4 datum5 =
     (let list = new_list t 5
      in Some (list\<lparr>elements :=
           (elements list)[0 := datum1, 1 := datum2, 2 := datum3, 3 := datum4, 4 := datum5]\<rparr>))"

section \<open>Insertion\<close>

definition make_room :: "'p pg_list \<Rightarrow> 'p pg_list" where
  "make_room list =
     (if llength list \<ge> max_length list then enlarge_list list (llength list + 1) else list)"

definition new_head_cell :: "'p pg_list \<Rightarrow> 'p pg_list" where
  "new_head_cell list =
     (let list = make_room list
      in list\<lparr>elements := memmove 1 0 (llength list) (elements list), llength := llength list + 1\<rparr>)"

definition new_tail_cell :: "'p pg_list \<Rightarrow> 'p pg_list" where
  "new_tail_cell list = (let list = make_room list in list\<lparr>llength := llength list + 1\<rparr>)"

definition set_last :: "'p pg_list \<Rightarrow> 'p list_cell \<Rightarrow> 'p lst" where
  "set_last list datum = Some (list\<lparr>elements := (elements list)[llength list - 1 := datum]\<rparr>)"

definition set_initial :: "'p pg_list \<Rightarrow> 'p list_cell \<Rightarrow> 'p lst" where
  "set_initial list datum = Some (list\<lparr>elements := (elements list)[0 := datum]\<rparr>)"

definition lappend :: "'p lst \<Rightarrow> 'p \<Rightarrow> 'p lst" where
  "lappend list datum = set_last
     (case list of None \<Rightarrow> new_list T_List 1 | Some l \<Rightarrow> new_tail_cell l) (ptr_value datum)"

definition lappend_int :: "'p lst \<Rightarrow> int \<Rightarrow> 'p lst" where
  "lappend_int list datum = set_last
     (case list of None \<Rightarrow> new_list T_IntList 1 | Some l \<Rightarrow> new_tail_cell l) (int_value datum)"

definition lappend_oid :: "'p lst \<Rightarrow> nat \<Rightarrow> 'p lst" where
  "lappend_oid list datum = set_last
     (case list of None \<Rightarrow> new_list T_OidList 1 | Some l \<Rightarrow> new_tail_cell l) (oid_value datum)"

definition lappend_xid :: "'p lst \<Rightarrow> nat \<Rightarrow> 'p lst" where
  "lappend_xid list datum = set_last
     (case list of None \<Rightarrow> new_list T_XidList 1 | Some l \<Rightarrow> new_tail_cell l) (xid_value datum)"

definition insert_new_cell :: "'p pg_list \<Rightarrow> nat \<Rightarrow> 'p pg_list" where
  "insert_new_cell list pos =
     (let list = make_room list;
          els = (if pos < llength list
                 then memmove (pos + 1) pos (llength list - pos) (elements list) else elements list)
      in list\<lparr>elements := els, llength := llength list + 1\<rparr>)"

definition set_nth :: "'p pg_list \<Rightarrow> nat \<Rightarrow> 'p list_cell \<Rightarrow> 'p lst" where
  "set_nth list pos datum = Some (list\<lparr>elements := (elements list)[pos := datum]\<rparr>)"

definition list_insert_nth :: "'p lst \<Rightarrow> nat \<Rightarrow> 'p \<Rightarrow> 'p lst" where
  "list_insert_nth list pos datum =
     (case list of None \<Rightarrow> list_make1_impl T_List (ptr_value datum)
      | Some l \<Rightarrow> set_nth (insert_new_cell l pos) pos (ptr_value datum))"

definition list_insert_nth_int :: "'p lst \<Rightarrow> nat \<Rightarrow> int \<Rightarrow> 'p lst" where
  "list_insert_nth_int list pos datum =
     (case list of None \<Rightarrow> list_make1_impl T_IntList (int_value datum)
      | Some l \<Rightarrow> set_nth (insert_new_cell l pos) pos (int_value datum))"

definition list_insert_nth_oid :: "'p lst \<Rightarrow> nat \<Rightarrow> nat \<Rightarrow> 'p lst" where
  "list_insert_nth_oid list pos datum =
     (case list of None \<Rightarrow> list_make1_impl T_OidList (oid_value datum)
      | Some l \<Rightarrow> set_nth (insert_new_cell l pos) pos (oid_value datum))"

definition lcons :: "'p \<Rightarrow> 'p lst \<Rightarrow> 'p lst" where
  "lcons datum list = set_initial
     (case list of None \<Rightarrow> new_list T_List 1 | Some l \<Rightarrow> new_head_cell l) (ptr_value datum)"

definition lcons_int :: "int \<Rightarrow> 'p lst \<Rightarrow> 'p lst" where
  "lcons_int datum list = set_initial
     (case list of None \<Rightarrow> new_list T_IntList 1 | Some l \<Rightarrow> new_head_cell l) (int_value datum)"

definition lcons_oid :: "nat \<Rightarrow> 'p lst \<Rightarrow> 'p lst" where
  "lcons_oid datum list = set_initial
     (case list of None \<Rightarrow> new_list T_OidList 1 | Some l \<Rightarrow> new_head_cell l) (oid_value datum)"

section \<open>Copies and concatenation\<close>

text \<open>\<open>memcpy(dst + at, src, n)\<close> of cells from another array.\<close>

definition copy_cells :: "nat \<Rightarrow> 'c list \<Rightarrow> nat \<Rightarrow> 'c list \<Rightarrow> 'c list" where
  "copy_cells pos src n dst = take pos dst @ take n src @ drop (pos + n) dst"

definition list_copy :: "'p lst \<Rightarrow> 'p lst" where
  "list_copy oldlist =
     (case oldlist of None \<Rightarrow> None | Some old \<Rightarrow>
        let newlist = new_list (list_type old) (llength old)
        in Some (newlist\<lparr>elements := copy_cells 0 (elements old) (llength newlist) (elements newlist)\<rparr>))"

definition list_concat :: "'p lst \<Rightarrow> 'p lst \<Rightarrow> 'p lst" where
  "list_concat list1 list2 =
     (case list1 of None \<Rightarrow> list_copy list2 | Some l1 \<Rightarrow> (case list2 of None \<Rightarrow> list1 | Some l2 \<Rightarrow>
        let new_len = llength l1 + llength l2;
            l1 = (if new_len > max_length l1 then enlarge_list l1 new_len else l1)
        in Some (l1\<lparr>elements := copy_cells (llength l1) (elements l2) (llength l2) (elements l1),
                    llength := new_len\<rparr>)))"

definition list_concat_copy :: "'p lst \<Rightarrow> 'p lst \<Rightarrow> 'p lst" where
  "list_concat_copy list1 list2 =
     (case list1 of None \<Rightarrow> list_copy list2 | Some l1 \<Rightarrow> (case list2 of None \<Rightarrow> list_copy list1 | Some l2 \<Rightarrow>
        let new_len = llength l1 + llength l2;
            result = new_list (list_type l1) new_len;
            els = copy_cells 0 (elements l1) (llength l1) (elements result);
            els = copy_cells (llength l1) (elements l2) (llength l2) els
        in Some (result\<lparr>elements := els\<rparr>)))"

definition list_copy_head :: "'p lst \<Rightarrow> int \<Rightarrow> 'p lst" where
  "list_copy_head oldlist len =
     (case oldlist of None \<Rightarrow> None | Some old \<Rightarrow>
        if len \<le> 0 then None
        else let n = min (llength old) (nat len); newlist = new_list (list_type old) n
             in Some (newlist\<lparr>elements := copy_cells 0 (elements old) n (elements newlist)\<rparr>))"

definition list_copy_tail :: "'p lst \<Rightarrow> int \<Rightarrow> 'p lst" where
  "list_copy_tail oldlist nskip =
     (let nskip = (if nskip < 0 then 0 else nat nskip) in
      case oldlist of None \<Rightarrow> None | Some old \<Rightarrow>
        if nskip \<ge> llength old then None
        else let newlist = new_list (list_type old) (llength old - nskip)
             in Some (newlist\<lparr>elements :=
                  copy_cells 0 (drop nskip (elements old)) (llength newlist) (elements newlist)\<rparr>))"

text \<open>\<open>copy_object\<close> is \<open>copyObjectImpl\<close>.\<close>

definition list_copy_deep :: "('p \<Rightarrow> 'p) \<Rightarrow> 'p lst \<Rightarrow> 'p lst" where
  "list_copy_deep copy_object oldlist =
     (case oldlist of None \<Rightarrow> None | Some old \<Rightarrow>
        let newlist = new_list (list_type old) (llength old)
        in Some (newlist\<lparr>elements := for_upd 0 (llength newlist)
             (\<lambda>i c. ptr_value (copy_object (lfirst (elements old ! i)))) (elements newlist)\<rparr>))"

definition list_truncate :: "'p lst \<Rightarrow> int \<Rightarrow> 'p lst" where
  "list_truncate list new_size =
     (if new_size \<le> 0 then None
      else if nat new_size < list_length list then map_option (\<lambda>l. l\<lparr>llength := nat new_size\<rparr>) list
      else list)"

section \<open>Deletion\<close>

definition list_delete_nth_cell :: "'p lst \<Rightarrow> nat \<Rightarrow> 'p lst" where
  "list_delete_nth_cell list n =
     (case list of None \<Rightarrow> None | Some l \<Rightarrow>
        if llength l = 1 then None
        else Some (l\<lparr>elements := memmove n (n + 1) (llength l - 1 - n) (elements l),
                     llength := llength l - 1\<rparr>))"

text \<open>The \<open>foreach\<close> that deletes the first cell with a property.\<close>

fun first_index :: "('c \<Rightarrow> bool) \<Rightarrow> 'c list \<Rightarrow> nat option" where
  "first_index P [] = None"
| "first_index P (c # cs) = (if P c then Some 0 else map_option Suc (first_index P cs))"

definition delete_first_match :: "('p list_cell \<Rightarrow> bool) \<Rightarrow> 'p lst \<Rightarrow> 'p lst" where
  "delete_first_match P list =
     (case first_index P (foreach list) of None \<Rightarrow> list | Some n \<Rightarrow> list_delete_nth_cell list n)"

text \<open>\<open>eq\<close> is \<open>equal()\<close>.\<close>

definition list_delete :: "('p \<Rightarrow> 'p \<Rightarrow> bool) \<Rightarrow> 'p lst \<Rightarrow> 'p \<Rightarrow> 'p lst" where
  "list_delete eq list datum = delete_first_match (\<lambda>c. eq (lfirst c) datum) list"

definition list_delete_ptr :: "'p lst \<Rightarrow> 'p \<Rightarrow> 'p lst" where
  "list_delete_ptr list datum = delete_first_match (\<lambda>c. lfirst c = datum) list"

definition list_delete_int :: "'p lst \<Rightarrow> int \<Rightarrow> 'p lst" where
  "list_delete_int list datum = delete_first_match (\<lambda>c. lfirst_int c = datum) list"

definition list_delete_oid :: "'p lst \<Rightarrow> nat \<Rightarrow> 'p lst" where
  "list_delete_oid list datum = delete_first_match (\<lambda>c. lfirst_oid c = datum) list"

definition list_delete_first :: "'p lst \<Rightarrow> 'p lst" where
  "list_delete_first list = (if list = None then None else list_delete_nth_cell list 0)"

definition list_delete_last :: "'p lst \<Rightarrow> 'p lst" where
  "list_delete_last list =
     (if list = None then None
      else if list_length list \<le> 1 then None
      else list_truncate list (int (list_length list) - 1))"

definition list_delete_first_n :: "'p lst \<Rightarrow> int \<Rightarrow> 'p lst" where
  "list_delete_first_n list n =
     (if n \<le> 0 then list
      else if nat n \<ge> list_length list then None
      else map_option (\<lambda>l. l\<lparr>elements := memmove 0 (nat n) (llength l - nat n) (elements l),
                             llength := llength l - nat n\<rparr>) list)"

section \<open>Lists as sets\<close>

definition list_member :: "('p \<Rightarrow> 'p \<Rightarrow> bool) \<Rightarrow> 'p lst \<Rightarrow> 'p \<Rightarrow> bool" where
  "list_member eq list datum = list_ex (\<lambda>cell. eq (lfirst cell) datum) (foreach list)"

definition list_member_ptr :: "'p lst \<Rightarrow> 'p \<Rightarrow> bool" where
  "list_member_ptr list datum = list_ex (\<lambda>cell. lfirst cell = datum) (foreach list)"

definition list_member_int :: "'p lst \<Rightarrow> int \<Rightarrow> bool" where
  "list_member_int list datum = list_ex (\<lambda>cell. lfirst_int cell = datum) (foreach list)"

definition list_member_oid :: "'p lst \<Rightarrow> nat \<Rightarrow> bool" where
  "list_member_oid list datum = list_ex (\<lambda>cell. lfirst_oid cell = datum) (foreach list)"

definition list_member_xid :: "'p lst \<Rightarrow> nat \<Rightarrow> bool" where
  "list_member_xid list datum = list_ex (\<lambda>cell. lfirst_xid cell = datum) (foreach list)"

definition list_append_unique :: "('p \<Rightarrow> 'p \<Rightarrow> bool) \<Rightarrow> 'p lst \<Rightarrow> 'p \<Rightarrow> 'p lst" where
  "list_append_unique eq list datum = (if list_member eq list datum then list else lappend list datum)"

definition list_append_unique_ptr :: "'p lst \<Rightarrow> 'p \<Rightarrow> 'p lst" where
  "list_append_unique_ptr list datum = (if list_member_ptr list datum then list else lappend list datum)"

definition list_append_unique_int :: "'p lst \<Rightarrow> int \<Rightarrow> 'p lst" where
  "list_append_unique_int list datum = (if list_member_int list datum then list else lappend_int list datum)"

definition list_append_unique_oid :: "'p lst \<Rightarrow> nat \<Rightarrow> 'p lst" where
  "list_append_unique_oid list datum = (if list_member_oid list datum then list else lappend_oid list datum)"

text \<open>
  \<open>foreach(cell, from) if (test(result, datum(cell))) result = add(result, datum(cell));\<close>
\<close>

definition foreach_add ::
  "('p list_cell \<Rightarrow> 'd) \<Rightarrow> ('p lst \<Rightarrow> 'd \<Rightarrow> bool) \<Rightarrow> ('p lst \<Rightarrow> 'd \<Rightarrow> 'p lst) \<Rightarrow> 'p lst \<Rightarrow> 'p lst \<Rightarrow> 'p lst" where
  "foreach_add datum test add from result =
     fold (\<lambda>cell result. if test result (datum cell) then add result (datum cell) else result)
       (foreach from) result"

definition list_union :: "('p \<Rightarrow> 'p \<Rightarrow> bool) \<Rightarrow> 'p lst \<Rightarrow> 'p lst \<Rightarrow> 'p lst" where
  "list_union eq list1 list2 =
     foreach_add lfirst (\<lambda>result d. \<not> list_member eq result d) lappend list2 (list_copy list1)"

definition list_union_ptr :: "'p lst \<Rightarrow> 'p lst \<Rightarrow> 'p lst" where
  "list_union_ptr list1 list2 =
     foreach_add lfirst (\<lambda>result d. \<not> list_member_ptr result d) lappend list2 (list_copy list1)"

definition list_union_int :: "'p lst \<Rightarrow> 'p lst \<Rightarrow> 'p lst" where
  "list_union_int list1 list2 =
     foreach_add lfirst_int (\<lambda>result d. \<not> list_member_int result d) lappend_int list2 (list_copy list1)"

definition list_union_oid :: "'p lst \<Rightarrow> 'p lst \<Rightarrow> 'p lst" where
  "list_union_oid list1 list2 =
     foreach_add lfirst_oid (\<lambda>result d. \<not> list_member_oid result d) lappend_oid list2 (list_copy list1)"

definition list_intersection :: "('p \<Rightarrow> 'p \<Rightarrow> bool) \<Rightarrow> 'p lst \<Rightarrow> 'p lst \<Rightarrow> 'p lst" where
  "list_intersection eq list1 list2 =
     (if list1 = None \<or> list2 = None then None
      else foreach_add lfirst (\<lambda>result d. list_member eq list2 d) lappend list1 None)"

definition list_intersection_int :: "'p lst \<Rightarrow> 'p lst \<Rightarrow> 'p lst" where
  "list_intersection_int list1 list2 =
     (if list1 = None \<or> list2 = None then None
      else foreach_add lfirst_int (\<lambda>result d. list_member_int list2 d) lappend_int list1 None)"

definition list_difference :: "('p \<Rightarrow> 'p \<Rightarrow> bool) \<Rightarrow> 'p lst \<Rightarrow> 'p lst \<Rightarrow> 'p lst" where
  "list_difference eq list1 list2 =
     (if list2 = None then list_copy list1
      else foreach_add lfirst (\<lambda>result d. \<not> list_member eq list2 d) lappend list1 None)"

definition list_difference_ptr :: "'p lst \<Rightarrow> 'p lst \<Rightarrow> 'p lst" where
  "list_difference_ptr list1 list2 =
     (if list2 = None then list_copy list1
      else foreach_add lfirst (\<lambda>result d. \<not> list_member_ptr list2 d) lappend list1 None)"

definition list_difference_int :: "'p lst \<Rightarrow> 'p lst \<Rightarrow> 'p lst" where
  "list_difference_int list1 list2 =
     (if list2 = None then list_copy list1
      else foreach_add lfirst_int (\<lambda>result d. \<not> list_member_int list2 d) lappend_int list1 None)"

definition list_difference_oid :: "'p lst \<Rightarrow> 'p lst \<Rightarrow> 'p lst" where
  "list_difference_oid list1 list2 =
     (if list2 = None then list_copy list1
      else foreach_add lfirst_oid (\<lambda>result d. \<not> list_member_oid list2 d) lappend_oid list1 None)"

definition list_concat_unique :: "('p \<Rightarrow> 'p \<Rightarrow> bool) \<Rightarrow> 'p lst \<Rightarrow> 'p lst \<Rightarrow> 'p lst" where
  "list_concat_unique eq list1 list2 =
     foreach_add lfirst (\<lambda>result d. \<not> list_member eq result d) lappend list2 list1"

definition list_concat_unique_ptr :: "'p lst \<Rightarrow> 'p lst \<Rightarrow> 'p lst" where
  "list_concat_unique_ptr list1 list2 =
     foreach_add lfirst (\<lambda>result d. \<not> list_member_ptr result d) lappend list2 list1"

definition list_concat_unique_int :: "'p lst \<Rightarrow> 'p lst \<Rightarrow> 'p lst" where
  "list_concat_unique_int list1 list2 =
     foreach_add lfirst_int (\<lambda>result d. \<not> list_member_int result d) lappend_int list2 list1"

definition list_concat_unique_oid :: "'p lst \<Rightarrow> 'p lst \<Rightarrow> 'p lst" where
  "list_concat_unique_oid list1 list2 =
     foreach_add lfirst_oid (\<lambda>result d. \<not> list_member_oid result d) lappend_oid list2 list1"

section \<open>Duplicates and comparators\<close>

function dedup_loop :: "nat \<Rightarrow> 'p list_cell list \<Rightarrow> nat \<Rightarrow> nat \<Rightarrow> 'p list_cell list \<times> nat" where
  "dedup_loop len els i j =
     (if j < len then
        if lfirst_oid (els ! i) \<noteq> lfirst_oid (els ! j)
        then dedup_loop len (els[i + 1 := oid_value (lfirst_oid (els ! j))]) (i + 1) (j + 1)
        else dedup_loop len els i (j + 1)
      else (els, i))"
  by pat_completeness auto
termination
  by (relation "measure (\<lambda>(len, els, i, j). len - j)") auto

declare dedup_loop.simps [simp del]

definition list_deduplicate_oid :: "'p lst \<Rightarrow> 'p lst" where
  "list_deduplicate_oid list =
     (let len = list_length list in
      if len > 1 then
        map_option (\<lambda>l. let (els, i) = dedup_loop len (elements l) 0 1
                        in l\<lparr>elements := els, llength := i + 1\<rparr>) list
      else list)"

definition list_int_cmp :: "'p list_cell \<Rightarrow> 'p list_cell \<Rightarrow> int" where
  "list_int_cmp p1 p2 =
     (let v1 = lfirst_int p1; v2 = lfirst_int p2 in if v1 < v2 then -1 else if v1 > v2 then 1 else 0)"

definition list_oid_cmp :: "'p list_cell \<Rightarrow> 'p list_cell \<Rightarrow> int" where
  "list_oid_cmp p1 p2 =
     (let v1 = lfirst_oid p1; v2 = lfirst_oid p2 in if v1 < v2 then -1 else if v1 > v2 then 1 else 0)"

section \<open>Invariant\<close>

text \<open>The type a cell belongs to.\<close>

fun cell_tag :: "'p list_cell \<Rightarrow> node_tag option" where
  "cell_tag (ptr_value p) = Some T_List"
| "cell_tag (int_value i) = Some T_IntList"
| "cell_tag (oid_value x) = Some T_OidList"
| "cell_tag (xid_value x) = Some T_XidList"
| "cell_tag undef_cell = None"

text \<open>
  \<open>check_list_invariants\<close>: no empty array stands for a list; and, for a list of type \<open>t\<close>,
  every cell in use holds a value of that type.
\<close>

definition list_ok :: "node_tag \<Rightarrow> 'p lst \<Rightarrow> bool" where
  "list_ok t l \<longleftrightarrow> (case l of None \<Rightarrow> True | Some r \<Rightarrow>
     0 < llength r \<and> llength r \<le> max_length r \<and> length (elements r) = max_length r \<and>
     list_type r = t \<and> (\<forall>c \<in> set (take (llength r) (elements r)). cell_tag c = Some t))"

text \<open>
  The largest number of cells that \<open>new_list\<close> can ask \<open>palloc\<close> for: rounded up to a power of
  two with the header, \<open>2 ^ 26\<close> cells of 8 bytes stay below \<open>MaxAllocSize\<close>, which is
  \<open>2 ^ 30 - 1\<close>, and \<open>2 ^ 27\<close> cells do not.  Above it \<open>palloc\<close> raises an error.
\<close>

definition max_cells :: nat where
  "max_cells = 2 ^ 26 - LIST_HEADER_OVERHEAD"

lemma list_length_foreach: "list_ok t l \<Longrightarrow> length (foreach l) = list_length l"
  by (auto simp: foreach_def list_length_def list_ok_def split: option.splits)

lemma foreach_empty: "list_ok t l \<Longrightarrow> foreach l = [] \<longleftrightarrow> l = None"
  by (auto simp: foreach_def list_ok_def split: option.splits)

lemma list_ok_tags: "list_ok t l \<Longrightarrow> c \<in> set (foreach l) \<Longrightarrow> cell_tag c = Some t"
  by (auto simp: foreach_def list_ok_def split: option.splits)

lemma list_okI:
  assumes "0 < n" "n \<le> m" "length els = m" "\<And>c. c \<in> set (take n els) \<Longrightarrow> cell_tag c = Some t"
  shows "list_ok t (Some \<lparr>list_type = t, llength = n, max_length = m, elements = els\<rparr>)"
  using assms by (simp add: list_ok_def)

lemma list_ok_Some:
  "list_ok t (Some r) \<longleftrightarrow> 0 < llength r \<and> llength r \<le> max_length r \<and>
     length (elements r) = max_length r \<and> list_type r = t \<and> (\<forall>c \<in> set (foreach (Some r)). cell_tag c = Some t)"
  by (simp add: list_ok_def foreach_def)

section \<open>Allocation\<close>

lemma unat_nextpower2:
  assumes "0 < n" "n \<le> 2 ^ 31"
  shows "n \<le> unat (pg_nextpower2_32 (of_nat n))" "unat (pg_nextpower2_32 (of_nat n)) < 2 * n"
proof -
  let ?w = "of_nat n :: uint32"
  have u: "unat ?w = n" using assms(2) by (simp add: unat_of_nat take_bit_nat_eq_self)
  have "0 < ?w" "?w \<le> 2 ^ 31"
    using assms u by (simp_all add: word_less_nat_alt word_le_nat_alt)
  note s = pg_nextpower2_32_spec [OF this]
  show "n \<le> unat (pg_nextpower2_32 (of_nat n))" "unat (pg_nextpower2_32 (of_nat n)) < 2 * n"
    using s(2,3) u by (simp_all add: word_le_nat_alt)
qed

lemma new_list_fields [simp]: "llength (new_list t n) = n" "list_type (new_list t n) = t"
  by (simp_all add: new_list_def Let_def)

lemma new_list_spec:
  assumes "0 < n" "n \<le> max_cells"
  shows "llength (new_list t n :: 'p pg_list) = n" "list_type (new_list t n :: 'p pg_list) = t" "n \<le> max_length (new_list t n :: 'p pg_list)"
    "length (elements (new_list t n :: 'p pg_list)) = max_length (new_list t n :: 'p pg_list)"
    "max_length (new_list t n :: 'p pg_list) \<le> 2 * (n + 8)"
proof -
  define k where "k = max 8 (n + LIST_HEADER_OVERHEAD)"
  define m where "m = unat (pg_nextpower2_32 (of_nat k))"
  have k: "0 < k" "k \<le> 2 ^ 31" "n + 3 \<le> k" "k \<le> n + 8"
    using assms by (auto simp: k_def max_cells_def LIST_HEADER_OVERHEAD_def)
  have "k \<le> m" "m < 2 * k" unfolding m_def by (rule unat_nextpower2 [OF k(1,2)])+
  then have m: "n \<le> m - 3 \<and> m - 3 \<le> 2 * (n + 8)" using k(3,4) by auto
  have "(new_list t n :: 'p pg_list) = \<lparr>list_type = t, llength = n, max_length = m - 3, elements = replicate (m - 3) undef_cell\<rparr>"
    by (simp add: new_list_def Let_def m_def k_def LIST_HEADER_OVERHEAD_def)
  then show "llength (new_list t n :: 'p pg_list) = n" "list_type (new_list t n :: 'p pg_list) = t" "n \<le> max_length (new_list t n :: 'p pg_list)"
    "length (elements (new_list t n :: 'p pg_list)) = max_length (new_list t n :: 'p pg_list)"
    "max_length (new_list t n :: 'p pg_list) \<le> 2 * (n + 8)"
    using m by simp_all
qed

lemma enlarge_list_spec:
  assumes "llength r \<le> n" "n \<le> max_cells" "llength r \<le> length (elements r)"
  shows "n \<le> max_length (enlarge_list r n)" "llength (enlarge_list r n) = llength r"
    "list_type (enlarge_list r n) = list_type r"
    "length (elements (enlarge_list r n)) = max_length (enlarge_list r n)"
    "take (llength r) (elements (enlarge_list r n)) = take (llength r) (elements r)"
proof -
  let ?k = "max 16 n"
  have "?k \<le> unat (pg_nextpower2_32 (of_nat ?k))"
    by (rule unat_nextpower2; use assms in \<open>simp add: max_cells_def LIST_HEADER_OVERHEAD_def\<close>)
  then show "n \<le> max_length (enlarge_list r n)" "llength (enlarge_list r n) = llength r"
    "list_type (enlarge_list r n) = list_type r"
    "length (elements (enlarge_list r n)) = max_length (enlarge_list r n)"
    "take (llength r) (elements (enlarge_list r n)) = take (llength r) (elements r)"
    using assms by (simp_all add: enlarge_list_def Let_def)
qed

lemma make_room_spec:
  assumes "list_ok t (Some r)" "llength r < max_cells"
  shows "llength r < max_length (make_room r)" "llength (make_room r) = llength r"
    "list_type (make_room r) = t"
    "length (elements (make_room r)) = max_length (make_room r)"
    "take (llength r) (elements (make_room r)) = foreach (Some r)"
  using assms enlarge_list_spec [of r "llength r + 1"]
  by (auto simp: make_room_def list_ok_Some foreach_def)

section \<open>Each operation on the cells\<close>

text \<open>A list of type \<open>t\<close> whose cells are \<open>cs\<close>.\<close>

definition represents :: "node_tag \<Rightarrow> 'p lst \<Rightarrow> 'p list_cell list \<Rightarrow> bool" where
  "represents t l cs \<longleftrightarrow> list_ok t l \<and> foreach l = cs"

lemma representsI:
  assumes "list_type r = t" "llength r = length cs" "cs \<noteq> []" "length (elements r) = max_length r"
    "length cs \<le> max_length r" "take (length cs) (elements r) = cs" "\<And>c. c \<in> set cs \<Longrightarrow> cell_tag c = Some t"
  shows "represents t (Some r) cs"
  using assms by (auto simp: represents_def list_ok_Some foreach_def)

lemma represents_None [simp]: "represents t None cs \<longleftrightarrow> cs = []"
  by (auto simp: represents_def list_ok_def foreach_def)

lemma represents_SomeD:
  assumes "represents t (Some r) cs"
  shows "list_type r = t" "llength r = length cs" "cs \<noteq> []" "length (elements r) = max_length r"
    "length cs \<le> max_length r" "take (length cs) (elements r) = cs" "\<And>c. c \<in> set cs \<Longrightarrow> cell_tag c = Some t"
  using assms by (auto simp: represents_def list_ok_Some foreach_def)

lemma represents_tags: "represents t l cs \<Longrightarrow> c \<in> set cs \<Longrightarrow> cell_tag c = Some t"
  by (auto simp: represents_def dest: list_ok_tags)

lemma represents_length: "represents t l cs \<Longrightarrow> list_length l = length cs"
  by (auto simp: represents_def list_length_foreach)

lemma represents_Nil: "represents t l [] \<longleftrightarrow> l = None"
  by (auto simp: represents_def foreach_empty) (simp_all add: list_ok_def foreach_def)

lemma room:
  assumes "represents t (Some r) cs" "length cs < max_cells"
  shows "length cs < max_length (make_room r)" "llength (make_room r) = length cs"
    "list_type (make_room r) = t" "length (elements (make_room r)) = max_length (make_room r)"
    "take (length cs) (elements (make_room r)) = cs"
proof -
  have ok: "list_ok t (Some r)" and f: "foreach (Some r) = cs" and n: "llength r = length cs"
    using assms(1) represents_SomeD(2) [OF assms(1)] by (auto simp: represents_def)
  note m = make_room_spec [OF ok] assms(2)
  show "length cs < max_length (make_room r)" "llength (make_room r) = length cs"
    "list_type (make_room r) = t" "length (elements (make_room r)) = max_length (make_room r)"
    "take (length cs) (elements (make_room r)) = cs"
    using m f n by simp_all
qed

lemma new_list_fill:
  fixes cs :: "'p list_cell list"
  assumes "length cs \<le> max_cells" "cs \<noteq> []" "\<And>c. c \<in> set cs \<Longrightarrow> cell_tag c = Some t"
    "length els = max_length (new_list t (length cs) :: 'p pg_list)" "take (length cs) els = cs"
  shows "represents t (Some ((new_list t (length cs))\<lparr>elements := els\<rparr>)) cs"
proof -
  have "0 < length cs" using assms(2) by simp
  note n = new_list_spec [OF this assms(1), where t = t and 'p = 'p]
  show ?thesis by (rule representsI) (use n assms in simp_all)
qed

lemma copy_cells_new:
  fixes cs :: "'p list_cell list"
  assumes "length cs \<le> max_cells" "cs \<noteq> []" "\<And>c. c \<in> set cs \<Longrightarrow> cell_tag c = Some t" "take n src = cs" "n = length cs"
  shows "represents t (Some ((new_list t n)\<lparr>elements := copy_cells 0 src n (elements (new_list t n))\<rparr>)) cs"
proof -
  have "0 < length cs" using assms(2) by simp
  note n = new_list_spec [OF this assms(1), where t = t and 'p = 'p]
  show ?thesis unfolding assms(5)
    by (rule new_list_fill) (use n assms in \<open>simp_all add: copy_cells_def\<close>)
qed

lemma take_butlast_update:
  "length xs > n \<Longrightarrow> take (Suc n) (xs[n := c]) = take n xs @ [c]"
  by (simp add: take_Suc_conv_app_nth)

lemma lappend_cell:
  fixes cs :: "'p list_cell list"
  assumes "represents t l cs" "length cs < max_cells" "cell_tag c = Some t"
  shows "represents t (set_last (case l of None \<Rightarrow> new_list t 1 | Some r \<Rightarrow> new_tail_cell r) c) (cs @ [c])"
proof (cases l)
  case None
  then have "cs = []" using assms(1) by simp
  have n: "0 < length [c]" "length [c] \<le> max_cells" by (simp_all add: max_cells_def LIST_HEADER_OVERHEAD_def)
  note n = new_list_spec [OF n, where t = t and 'p = 'p]
  have "represents t (Some ((new_list t (length [c]))\<lparr>elements := (elements (new_list t 1))[0 := c]\<rparr>)) [c]"
    by (rule new_list_fill) (use n assms(3) in \<open>auto simp: max_cells_def LIST_HEADER_OVERHEAD_def take_Suc_conv_app_nth\<close>)
  with None \<open>cs = []\<close> n show ?thesis by (simp add: set_last_def)
next
  case (Some r)
  note m = room [OF assms(1) [unfolded Some] assms(2)]
  show ?thesis
    unfolding Some set_last_def new_tail_cell_def Let_def
    using m assms(3) represents_tags [OF assms(1)]
    by (auto intro!: representsI simp: take_butlast_update)
qed

lemma lcons_cell:
  fixes cs :: "'p list_cell list"
  assumes "represents t l cs" "length cs < max_cells" "cell_tag c = Some t"
  shows "represents t (set_initial (case l of None \<Rightarrow> new_list t 1 | Some r \<Rightarrow> new_head_cell r) c) (c # cs)"
proof (cases l)
  case None
  then have "cs = []" using assms(1) by simp
  have n: "0 < length [c]" "length [c] \<le> max_cells" by (simp_all add: max_cells_def LIST_HEADER_OVERHEAD_def)
  note n = new_list_spec [OF n, where t = t and 'p = 'p]
  have "represents t (Some ((new_list t (length [c]))\<lparr>elements := (elements (new_list t 1))[0 := c]\<rparr>)) [c]"
    by (rule new_list_fill) (use n assms(3) in \<open>auto simp: max_cells_def LIST_HEADER_OVERHEAD_def take_Suc_conv_app_nth\<close>)
  with None \<open>cs = []\<close> show ?thesis by (simp add: set_initial_def)
next
  case (Some r)
  note m = room [OF assms(1) [unfolded Some] assms(2)]
  have "take (Suc (length cs)) ((memmove 1 0 (length cs) (elements (make_room r)))[0 := c]) = c # cs"
    using m by (cases "elements (make_room r)") (auto simp: memmove_def)
  then show ?thesis
    unfolding Some set_initial_def new_head_cell_def Let_def
    using m assms(3) represents_tags [OF assms(1)]
    by (auto intro!: representsI)
qed

lemma insert_cell:
  assumes "represents t (Some r) cs" "length cs < max_cells" "cell_tag c = Some t" "pos \<le> length cs"
  shows "represents t (set_nth (insert_new_cell r pos) pos c) (take pos cs @ c # drop pos cs)"
proof -
  note m = room [OF assms(1,2)]
  let ?e = "elements (make_room r)"
  have "take (Suc (length cs)) ((if pos < length cs then memmove (pos + 1) pos (length cs - pos) ?e
      else ?e)[pos := c]) = take pos cs @ c # drop pos cs" (is "?L = ?R")
  proof (rule nth_equalityI)
    show "length ?L = length ?R" using m assms(4) by auto
    fix i assume "i < length ?L"
    then have i: "i \<le> length cs" "i < length ?e" using m by auto
    have e: "?e ! j = cs ! j" if "j < length cs" for j
      using m(5) that by (metis nth_take)
    show "?L ! i = ?R ! i"
      using i e m assms(4) by (auto simp: nth_append nth_memmove nth_list_update nth_Cons')
  qed
  moreover have tags: "cell_tag x = Some t" if "x \<in> set (take pos cs @ c # drop pos cs)" for x
  proof -
    have "x = c \<or> x \<in> set cs" using that by (auto dest: in_set_takeD in_set_dropD)
    then show ?thesis using assms(3) represents_tags [OF assms(1)] by blast
  qed
  ultimately show ?thesis
    unfolding set_nth_def insert_new_cell_def Let_def
    using m assms(4) tags by (intro representsI) (auto simp: min_def)
qed

section \<open>The operations\<close>

lemma lappend_represents:
  "represents T_List l cs \<Longrightarrow> length cs < max_cells \<Longrightarrow> represents T_List (lappend l d) (cs @ [ptr_value d])"
  "represents T_IntList l cs \<Longrightarrow> length cs < max_cells \<Longrightarrow> represents T_IntList (lappend_int l i) (cs @ [int_value i])"
  "represents T_OidList l cs \<Longrightarrow> length cs < max_cells \<Longrightarrow> represents T_OidList (lappend_oid l n) (cs @ [oid_value n])"
  "represents T_XidList l cs \<Longrightarrow> length cs < max_cells \<Longrightarrow> represents T_XidList (lappend_xid l n) (cs @ [xid_value n])"
  unfolding lappend_def lappend_int_def lappend_oid_def lappend_xid_def
  by (rule lappend_cell; simp)+

lemma lcons_represents:
  "represents T_List l cs \<Longrightarrow> length cs < max_cells \<Longrightarrow> represents T_List (lcons d l) (ptr_value d # cs)"
  "represents T_IntList l cs \<Longrightarrow> length cs < max_cells \<Longrightarrow> represents T_IntList (lcons_int i l) (int_value i # cs)"
  "represents T_OidList l cs \<Longrightarrow> length cs < max_cells \<Longrightarrow> represents T_OidList (lcons_oid n l) (oid_value n # cs)"
  unfolding lcons_def lcons_int_def lcons_oid_def
  by (rule lcons_cell; simp)+

lemma list_make1_represents: "cell_tag c = Some t \<Longrightarrow> represents t (list_make1_impl t c) [c]"
  using lcons_cell [of t None "[]" c]
  by (simp add: list_make1_impl_def set_initial_def Let_def max_cells_def LIST_HEADER_OVERHEAD_def)

lemma insert_nth_cell:
  assumes "represents t l cs" "length cs < max_cells" "pos \<le> length cs" "cell_tag c = Some t"
  shows "represents t (case l of None \<Rightarrow> list_make1_impl t c | Some r \<Rightarrow> set_nth (insert_new_cell r pos) pos c)
    (take pos cs @ c # drop pos cs)"
proof (cases l)
  case None
  with assms list_make1_represents [of c t] show ?thesis by simp
next
  case (Some r)
  with assms insert_cell [of t r cs c pos] show ?thesis by simp
qed

lemma list_insert_nth_represents:
  assumes "length cs < max_cells" "pos \<le> length cs"
  shows "represents T_List l cs \<Longrightarrow>
      represents T_List (list_insert_nth l pos d) (take pos cs @ ptr_value d # drop pos cs)"
    "represents T_IntList l cs \<Longrightarrow>
      represents T_IntList (list_insert_nth_int l pos i) (take pos cs @ int_value i # drop pos cs)"
    "represents T_OidList l cs \<Longrightarrow>
      represents T_OidList (list_insert_nth_oid l pos n) (take pos cs @ oid_value n # drop pos cs)"
  unfolding list_insert_nth_def list_insert_nth_int_def list_insert_nth_oid_def
  by (rule insert_nth_cell; use assms in simp)+

lemma make_represents:
  fixes cs :: "'p list_cell list"
  assumes "n = length cs" "cs \<noteq> []" "length cs \<le> 5" "list_all (\<lambda>c. cell_tag c = Some t) cs"
    "take n els = cs" "length els = max_length (new_list t n :: 'p pg_list)"
  shows "represents t (Some ((new_list t n)\<lparr>elements := els\<rparr>)) cs"
  unfolding assms(1) using assms by (intro new_list_fill) (auto simp: max_cells_def LIST_HEADER_OVERHEAD_def list_all_iff)

lemma take_updates:
  shows "2 \<le> length xs \<Longrightarrow> take 2 (xs[0 := a, 1 := b]) = [a, b]"
    and "3 \<le> length xs \<Longrightarrow> take 3 (xs[0 := a, 1 := b, 2 := c]) = [a, b, c]"
    and "4 \<le> length xs \<Longrightarrow> take 4 (xs[0 := a, 1 := b, 2 := c, 3 := d]) = [a, b, c, d]"
    and "5 \<le> length xs \<Longrightarrow> take 5 (xs[0 := a, 1 := b, 2 := c, 3 := d, 4 := e]) = [a, b, c, d, e]"
  by (auto simp: take_butlast_update eval_nat_numeral Suc_le_length_iff)

lemma new_list_cells:
  "0 < n \<Longrightarrow> n \<le> 5 \<Longrightarrow> n \<le> length (elements (new_list t n :: 'p pg_list)) \<and>
   length (elements (new_list t n :: 'p pg_list)) = max_length (new_list t n :: 'p pg_list)"
  using new_list_spec [of n t, where 'p = 'p] by (auto simp: max_cells_def LIST_HEADER_OVERHEAD_def)

lemma list_make_represents:
  assumes "cell_tag a = Some t" "cell_tag b = Some t" "cell_tag c = Some t" "cell_tag d = Some t"
    "cell_tag e = Some t"
  shows "represents t (list_make2_impl t a b) [a, b]" "represents t (list_make3_impl t a b c) [a, b, c]"
    "represents t (list_make4_impl t a b c d) [a, b, c, d]"
    "represents t (list_make5_impl t a b c d e) [a, b, c, d, e]"
proof -
  note n = new_list_cells [where t = t and 'p = 'a]
  show "represents t (list_make2_impl t a b) [a, b]"
    unfolding list_make2_impl_def Let_def
    by (rule make_represents) (use assms n [of 2] in \<open>simp_all add: take_updates [simplified]\<close>)
  show "represents t (list_make3_impl t a b c) [a, b, c]"
    unfolding list_make3_impl_def Let_def
    by (rule make_represents) (use assms n [of 3] in \<open>simp_all add: take_updates [simplified]\<close>)
  show "represents t (list_make4_impl t a b c d) [a, b, c, d]"
    unfolding list_make4_impl_def Let_def
    by (rule make_represents) (use assms n [of 4] in \<open>simp_all add: take_updates [simplified]\<close>)
  show "represents t (list_make5_impl t a b c d e) [a, b, c, d, e]"
    unfolding list_make5_impl_def Let_def
    by (rule make_represents) (use assms n [of 5] in \<open>simp_all add: take_updates [simplified]\<close>)
qed

lemma list_copy_represents:
  assumes "represents t l cs" "length cs \<le> max_cells"
  shows "represents t (list_copy l) cs"
proof (cases l)
  case None
  with assms show ?thesis by (simp add: list_copy_def)
next
  case (Some r)
  note r = represents_SomeD [OF assms(1) [unfolded Some]]
  show ?thesis
    unfolding Some list_copy_def Let_def option.case r(1)
    using copy_cells_new [of cs t "llength r" "elements r"] assms(2) r new_list_spec(1) [of "length cs" t] by simp
qed

lemma list_copy_head_represents:
  assumes "represents t l cs" "length cs \<le> max_cells"
  shows "represents t (list_copy_head l n) (take (nat n) cs)"
proof (cases "l = None \<or> n \<le> 0")
  case True
  with assms show ?thesis by (auto simp: list_copy_head_def split: option.split)
next
  case False
  then obtain r where l: "l = Some r" by auto
  note r = represents_SomeD [OF assms(1) [unfolded l]]
  have "take (min (llength r) (nat n)) (elements r) = take (nat n) cs"
    using r(2,6) by (metis min.commute take_take)
  then have "represents t (Some ((new_list t (min (llength r) (nat n)))\<lparr>elements :=
      copy_cells 0 (elements r) (min (llength r) (nat n)) (elements (new_list t (min (llength r) (nat n))))\<rparr>))
      (take (nat n) cs)"
    using False assms(2) r by (intro copy_cells_new) (auto dest: in_set_takeD)
  then show ?thesis
    using False r(1) by (simp add: l list_copy_head_def Let_def)
qed

lemma list_copy_tail_represents:
  assumes "represents t l cs" "length cs \<le> max_cells"
  shows "represents t (list_copy_tail l n) (drop (nat n) cs)"
proof (cases l)
  case None
  with assms show ?thesis by (simp add: list_copy_tail_def)
next
  case (Some r)
  note r = represents_SomeD [OF assms(1) [unfolded Some]]
  have n: "(if n < 0 then 0 else nat n) = nat n" by simp
  show ?thesis
  proof (cases "nat n \<ge> llength r")
    case True
    with r(2,3) show ?thesis by (auto simp: Some list_copy_tail_def)
  next
    case False
    have "take (llength r - nat n) (drop (nat n) (elements r)) = drop (nat n) cs"
      using r(2,6) by (metis drop_take)
    then have "represents t (Some ((new_list t (llength r - nat n))\<lparr>elements :=
        copy_cells 0 (drop (nat n) (elements r)) (llength r - nat n)
          (elements (new_list t (llength r - nat n)))\<rparr>)) (drop (nat n) cs)"
      using False assms(2) r by (intro copy_cells_new) (auto dest: in_set_dropD)
    then show ?thesis
      using False r(1) unfolding Some list_copy_tail_def Let_def option.case n by simp
  qed
qed

lemma list_copy_deep_represents:
  fixes l :: "'p lst"
  assumes "represents T_List l cs" "length cs \<le> max_cells"
  shows "represents T_List (list_copy_deep f l) (map (\<lambda>c. ptr_value (f (lfirst c))) cs)"
proof (cases l)
  case None
  with assms show ?thesis by (simp add: list_copy_deep_def)
next
  case (Some r)
  note r = represents_SomeD [OF assms(1) [unfolded Some]]
  let ?cs = "map (\<lambda>c. ptr_value (f (lfirst c))) cs"
  have pos: "0 < length cs" using r(3) by simp
  note n = new_list_spec [OF pos assms(2), of T_List, where 'p = 'p]
  let ?els = "for_upd 0 (length cs) (\<lambda>i c. ptr_value (f (lfirst (elements r ! i))))
    (elements (new_list T_List (length cs)) :: 'p list_cell list)"
  have e: "elements r ! i = cs ! i" if "i < length cs" for i
    using r(6) that by (metis nth_take)
  have "take (length ?cs) ?els = ?cs"
    using n e by (intro nth_equalityI) (simp_all add: nth_for_upd)
  then have "represents T_List (Some ((new_list T_List (length ?cs))\<lparr>elements := ?els\<rparr>)) ?cs"
    using n assms(2) r(3) by (intro new_list_fill) auto
  then show ?thesis using n(1) r(1,2) by (simp add: Some list_copy_deep_def Let_def)
qed

lemma list_concat_represents:
  assumes "represents t l1 cs1" "represents t l2 cs2" "length cs1 + length cs2 \<le> max_cells"
  shows "represents t (list_concat l1 l2) (cs1 @ cs2)"
proof (cases "l1 = None \<or> l2 = None")
  case True
  with assms list_copy_represents [OF assms(2)] show ?thesis
    by (auto simp: list_concat_def split: option.split)
next
  case False
  then obtain r1 r2 where l: "l1 = Some r1" "l2 = Some r2" by auto
  note r1 = represents_SomeD [OF assms(1) [unfolded l]] and r2 = represents_SomeD [OF assms(2) [unfolded l]]
  let ?n = "length cs1 + length cs2"
  define q where "q = (if ?n > max_length r1 then enlarge_list r1 ?n else r1)"
  have q: "?n \<le> max_length q" "llength q = length cs1" "list_type q = t"
      "length (elements q) = max_length q" "take (length cs1) (elements q) = cs1"
    using enlarge_list_spec [of r1 ?n] r1 assms(3) by (auto simp: q_def)
  have "take ?n (copy_cells (length cs1) (elements r2) (length cs2) (elements q)) = cs1 @ cs2"
    using q r2(6) by (simp add: copy_cells_def)
  moreover have "length (copy_cells (length cs1) (elements r2) (length cs2) (elements q)) = max_length q"
    using q r2 by (simp add: copy_cells_def)
  ultimately have "represents t (Some (q\<lparr>elements := copy_cells (length cs1) (elements r2) (length cs2) (elements q),
      llength := ?n\<rparr>)) (cs1 @ cs2)"
    using q r1 r2 by (intro representsI) auto
  then show ?thesis
    using r1(2) r2(2) q(2) by (simp add: l list_concat_def Let_def q_def)
qed

lemma list_concat_copy_represents:
  fixes l1 :: "'p lst"
  assumes "represents t l1 cs1" "represents t l2 cs2" "length cs1 + length cs2 \<le> max_cells"
  shows "represents t (list_concat_copy l1 l2) (cs1 @ cs2)"
proof (cases "l1 = None \<or> l2 = None")
  case True
  with assms list_copy_represents [OF assms(1)] list_copy_represents [OF assms(2)] show ?thesis
    by (auto simp: list_concat_copy_def split: option.split)
next
  case False
  then obtain r1 r2 where l: "l1 = Some r1" "l2 = Some r2" by auto
  note r1 = represents_SomeD [OF assms(1) [unfolded l]] and r2 = represents_SomeD [OF assms(2) [unfolded l]]
  let ?n = "length (cs1 @ cs2)"
  have pos: "0 < ?n" using r1(3) by simp
  have len: "?n \<le> max_cells" using assms(3) by simp
  note n = new_list_spec [OF pos len, of t, where 'p = 'p]
  let ?els = "copy_cells (length cs1) (elements r2) (length cs2)
    (copy_cells 0 (elements r1) (length cs1) (elements (new_list t ?n)))"
  have "take ?n ?els = cs1 @ cs2" "length ?els = max_length (new_list t ?n :: 'p pg_list)"
    using r1 r2 n by (simp_all add: copy_cells_def)
  then have "represents t (Some ((new_list t ?n)\<lparr>elements := ?els\<rparr>)) (cs1 @ cs2)"
    using len r1 r2 by (intro new_list_fill) auto
  then show ?thesis
    using r1(1,2) r2(2) by (simp add: l list_concat_copy_def Let_def)
qed

lemma list_truncate_represents:
  assumes "represents t l cs"
  shows "represents t (list_truncate l n) (take (nat n) cs)"
proof (cases l)
  case None
  with assms show ?thesis by (simp add: list_truncate_def)
next
  case (Some r)
  note r = represents_SomeD [OF assms [unfolded Some]]
  show ?thesis
  proof (cases "n \<le> 0 \<or> nat n \<ge> length cs")
    case True
    with assms Some r(2) show ?thesis by (auto simp: list_truncate_def list_length_def)
  next
    case False
    then have "take (nat n) (elements r) = take (nat n) cs"
      using r(6) by (metis min.absorb1 nat_le_linear take_take)
    with False r have "represents t (Some (r\<lparr>llength := nat n\<rparr>)) (take (nat n) cs)"
      by (intro representsI) (auto dest: in_set_takeD)
    with False r(2) show ?thesis by (auto simp: Some list_truncate_def list_length_def)
  qed
qed

lemma list_delete_nth_represents:
  assumes "represents t l cs" "n < length cs"
  shows "represents t (list_delete_nth_cell l n) (take n cs @ drop (Suc n) cs)"
proof (cases l)
  case None
  with assms show ?thesis by simp
next
  case (Some r)
  note r = represents_SomeD [OF assms(1) [unfolded Some]]
  show ?thesis
  proof (cases "length cs = 1")
    case True
    with assms(2) r(2) show ?thesis by (simp add: Some list_delete_nth_cell_def)
  next
    case False
    let ?els = "memmove n (n + 1) (length cs - 1 - n) (elements r)"
    have "take (length cs - 1) ?els = take n cs @ drop (Suc n) cs" (is "?L = ?R")
    proof (rule nth_equalityI)
      show "length ?L = length ?R" using assms(2) r by auto
      fix i assume "i < length ?L"
      then have i: "i < length cs - 1" using assms(2) r by auto
      have e: "elements r ! j = cs ! j" if "j < length cs" for j
        using r(6) that by (metis nth_take)
      show "?L ! i = ?R ! i"
        using i e assms(2) r by (auto simp: nth_append nth_memmove)
    qed
    moreover have "cell_tag x = Some t" if "x \<in> set (take n cs @ drop (Suc n) cs)" for x
      using that r(7) by (auto dest: in_set_takeD in_set_dropD)
    moreover have "length (take n cs @ drop (Suc n) cs) \<noteq> 0" using False assms(2) by simp
    then have "take n cs @ drop (Suc n) cs \<noteq> []" by (simp only: length_0_conv not_False_eq_True)
    ultimately have "represents t (Some (r\<lparr>elements := ?els, llength := length cs - 1\<rparr>)) (take n cs @ drop (Suc n) cs)"
      using assms(2) r by (intro representsI) auto
    with False r(2) show ?thesis by (simp add: Some list_delete_nth_cell_def)
  qed
qed

lemma list_delete_first_represents:
  "represents t l cs \<Longrightarrow> represents t (list_delete_first l) (tl cs)"
  using list_delete_nth_represents [of t l cs 0]
  by (cases cs) (auto simp: list_delete_first_def represents_Nil)

lemma list_delete_last_represents:
  assumes "represents t l cs"
  shows "represents t (list_delete_last l) (butlast cs)"
  using list_truncate_represents [OF assms, of "int (length cs) - 1"] represents_length [OF assms] assms
  by (cases l; cases cs rule: rev_cases) (auto simp: list_delete_last_def nat_diff_distrib)

lemma list_delete_first_n_represents:
  assumes "represents t l cs"
  shows "represents t (list_delete_first_n l n) (drop (nat n) cs)"
proof (cases l)
  case None
  with assms show ?thesis by (simp add: list_delete_first_n_def)
next
  case (Some r)
  note r = represents_SomeD [OF assms [unfolded Some]]
  show ?thesis
  proof (cases "n \<le> 0 \<or> nat n \<ge> length cs")
    case True
    with assms Some r(2) show ?thesis by (auto simp: list_delete_first_n_def list_length_def)
  next
    case False
    let ?els = "memmove 0 (nat n) (length cs - nat n) (elements r)"
    have "take (length cs - nat n) ?els = drop (nat n) cs" (is "?L = ?R")
    proof (rule nth_equalityI)
      show "length ?L = length ?R" using False r by auto
      fix i assume "i < length ?L"
      then have i: "i < length cs - nat n" using False r by auto
      have "elements r ! j = cs ! j" if "j < length cs" for j
        using r(6) that by (metis nth_take)
      with i False r show "?L ! i = ?R ! i" by (auto simp: nth_memmove)
    qed
    then have "represents t (Some (r\<lparr>elements := ?els, llength := length cs - nat n\<rparr>)) (drop (nat n) cs)"
      using False r by (intro representsI) (auto dest: in_set_dropD)
    with False r(2) show ?thesis by (auto simp: Some list_delete_first_n_def list_length_def)
  qed
qed

section \<open>One kind of element\<close>

text \<open>
  The four families of functions, on pointers compared by \<open>equal()\<close> or by address, on
  integers and on OIDs, share the lemmas of this locale: \<open>cell\<close> stores an element,
  \<open>datum\<close> reads it, \<open>append\<close> and \<open>member\<close> are the functions of the family.
\<close>

definition holds :: "node_tag \<Rightarrow> ('d \<Rightarrow> 'p list_cell) \<Rightarrow> 'p lst \<Rightarrow> 'd list \<Rightarrow> bool" where
  "holds t cell l ds \<longleftrightarrow> represents t l (map cell ds)"

fun remove_first :: "('d \<Rightarrow> bool) \<Rightarrow> 'd list \<Rightarrow> 'd list" where
  "remove_first P [] = []"
| "remove_first P (d # ds) = (if P d then ds else d # remove_first P ds)"

definition add_new :: "('d \<Rightarrow> 'd \<Rightarrow> bool) \<Rightarrow> 'd \<Rightarrow> 'd list \<Rightarrow> 'd list" where
  "add_new same d ds = (if list_ex (\<lambda>e. same e d) ds then ds else ds @ [d])"

lemma remove_first_eq [simp]: "remove_first (\<lambda>e. e = d) ds = remove1 d ds"
  by (induction ds) auto

lemma length_add_new: "length (add_new same d ds) \<le> Suc (length ds)"
  by (simp add: add_new_def)

lemma length_fold_add_new: "length (fold (add_new same) es ds) \<le> length ds + length es"
proof (induction es arbitrary: ds)
  case (Cons e es)
  show ?case using Cons [of "add_new same e ds"] length_add_new [of same e ds] by simp
qed simp

lemma set_add_new: "set (fold (add_new (=)) es ds) = set ds \<union> set es"
  by (induction es arbitrary: ds) (auto simp: add_new_def list_ex_iff)

lemma distinct_add_new: "distinct ds \<Longrightarrow> distinct (fold (add_new (=)) es ds)"
  by (induction es arbitrary: ds) (auto simp: add_new_def list_ex_iff)

lemma prefix_add_new: "\<exists>zs. fold (add_new same) es ds = ds @ zs"
proof (induction es arbitrary: ds)
  case (Cons e es)
  obtain zs where "fold (add_new same) es (add_new same e ds) = add_new same e ds @ zs"
    using Cons by blast
  moreover have "\<exists>ys. add_new same e ds = ds @ ys"
    by (cases "list_ex (\<lambda>d. same d e) ds") (simp_all add: add_new_def)
  then obtain ys where "add_new same e ds = ds @ ys" by blast
  ultimately show ?case by simp
qed simp

lemma first_index_spec:
  "case first_index P cs of None \<Rightarrow> list_all (\<lambda>c. \<not> P c) cs
   | Some n \<Rightarrow> n < length cs \<and> remove_first P cs = take n cs @ drop (Suc n) cs"
  by (induction cs) (auto split: option.splits)

lemma remove_first_none: "list_all (\<lambda>c. \<not> P c) cs \<Longrightarrow> remove_first P cs = cs"
  by (induction cs) auto

lemma remove_first_map: "remove_first P (map f ds) = map f (remove_first (P \<circ> f) ds)"
  by (induction ds) auto

lemma delete_first_match_represents:
  assumes "represents t l cs"
  shows "represents t (delete_first_match P l) (remove_first P cs)"
proof -
  have "foreach l = cs" using assms by (simp add: represents_def)
  then show ?thesis
    using first_index_spec [of P cs] assms list_delete_nth_represents [OF assms]
    by (auto simp: delete_first_match_def remove_first_none split: option.splits)
qed

locale cell_kind =
  fixes tag :: node_tag and cell :: "'d \<Rightarrow> 'p list_cell" and datum :: "'p list_cell \<Rightarrow> 'd"
    and append :: "'p lst \<Rightarrow> 'd \<Rightarrow> 'p lst" and same :: "'d \<Rightarrow> 'd \<Rightarrow> bool" and member :: "'p lst \<Rightarrow> 'd \<Rightarrow> bool"
  assumes datum_cell: "datum (cell d) = d"
    and append: "represents tag l cs \<Longrightarrow> length cs < max_cells \<Longrightarrow> represents tag (append l d) (cs @ [cell d])"
    and member: "member l d \<longleftrightarrow> list_ex (\<lambda>c. same (datum c) d) (foreach l)"
begin

lemma holds_append: "holds tag cell l ds \<Longrightarrow> length ds < max_cells \<Longrightarrow> holds tag cell (append l d) (ds @ [d])"
  using append [of l "map cell ds"] by (simp add: holds_def)

lemma holds_member: "holds tag cell l ds \<Longrightarrow> member l d \<longleftrightarrow> list_ex (\<lambda>e. same e d) ds"
  by (auto simp: holds_def represents_def member list_ex_iff datum_cell)

lemma holds_copy: "holds tag cell l ds \<Longrightarrow> length ds \<le> max_cells \<Longrightarrow> holds tag cell (list_copy l) ds"
  using list_copy_represents [of tag l "map cell ds"] by (simp add: holds_def)

lemma holds_delete:
  "holds tag cell l ds \<Longrightarrow> holds tag cell (delete_first_match (\<lambda>c. same (datum c) d) l) (remove_first (\<lambda>e. same e d) ds)"
  using delete_first_match_represents [of tag l "map cell ds" "\<lambda>c. same (datum c) d"]
  by (simp add: holds_def remove_first_map comp_def datum_cell)

lemma holds_add_new:
  assumes "holds tag cell from es" "holds tag cell l ds" "length ds + length es \<le> max_cells"
  shows "holds tag cell (foreach_add datum (\<lambda>r d. \<not> member r d) append from l) (fold (add_new same) es ds)"
proof -
  have "holds tag cell (fold (\<lambda>c r. if \<not> member r (datum c) then append r (datum c) else r) (map cell es) l)
      (fold (add_new same) es ds)"
    using assms(2,3)
  proof (induction es arbitrary: l ds)
    case (Cons e es)
    let ?l = "if \<not> member l e then append l e else l"
    have "holds tag cell ?l (add_new same e ds)"
      using holds_append [OF Cons.prems(1)] Cons.prems holds_member [OF Cons.prems(1), of e]
      by (simp add: add_new_def)
    moreover have "length (add_new same e ds) + length es \<le> max_cells"
      using Cons.prems(2) length_add_new [of same e ds] by simp
    ultimately have "holds tag cell (fold (\<lambda>c r. if \<not> member r (datum c) then append r (datum c) else r)
        (map cell es) ?l) (fold (add_new same) es (add_new same e ds))"
      by (rule Cons.IH)
    then show ?case by (simp only: list.map fold.simps comp_apply datum_cell)
  qed simp
  then show ?thesis using assms(1) by (simp add: foreach_add_def holds_def represents_def)
qed

lemma holds_filter:
  assumes "holds tag cell from es" "holds tag cell l ds" "length ds + length es \<le> max_cells"
  shows "holds tag cell (foreach_add datum (\<lambda>r. P) append from l) (ds @ filter P es)"
proof -
  have "holds tag cell (fold (\<lambda>c r. if P (datum c) then append r (datum c) else r) (map cell es) l) (ds @ filter P es)"
    using assms(2,3)
  proof (induction es arbitrary: l ds)
    case (Cons e es)
    show ?case
    proof (cases "P e")
      case True
      have "holds tag cell (append l e) (ds @ [e])"
        using Cons.prems by (intro holds_append) simp_all
      from Cons.IH [OF this] Cons.prems True show ?thesis by (simp add: datum_cell)
    next
      case False
      with Cons.IH [OF Cons.prems(1)] Cons.prems show ?thesis by (simp add: datum_cell)
    qed
  qed simp
  then show ?thesis using assms(1) by (simp add: foreach_add_def holds_def represents_def)
qed

text \<open>The whole functions of a family.\<close>

lemma holds_union:
  assumes "holds tag cell l1 ds" "holds tag cell l2 es" "length ds + length es \<le> max_cells"
  shows "holds tag cell (foreach_add datum (\<lambda>r d. \<not> member r d) append l2 (list_copy l1)) (fold (add_new same) es ds)"
  using assms holds_copy [OF assms(1)] by (intro holds_add_new) simp_all

lemma holds_intersection:
  assumes "holds tag cell l1 ds" "holds tag cell l2 es" "length ds \<le> max_cells"
  shows "holds tag cell (if l1 = None \<or> l2 = None then None
     else foreach_add datum (\<lambda>r d. member l2 d) append l1 None) (filter (\<lambda>d. list_ex (\<lambda>e. same e d) es) ds)"
proof (cases "l1 = None \<or> l2 = None")
  case True
  with assms show ?thesis by (auto simp: holds_def)
next
  case False
  have "holds tag cell None []" by (simp add: holds_def)
  from holds_filter [OF assms(1) this, of "member l2"] assms(3)
  have "holds tag cell (foreach_add datum (\<lambda>r d. member l2 d) append l1 None) (filter (member l2) ds)" by simp
  moreover have "filter (member l2) ds = filter (\<lambda>d. list_ex (\<lambda>e. same e d) es) ds"
    by (simp add: holds_member [OF assms(2)] cong: filter_cong)
  ultimately show ?thesis using False by auto
qed

lemma holds_difference:
  assumes "holds tag cell l1 ds" "holds tag cell l2 es" "length ds \<le> max_cells"
  shows "holds tag cell (if l2 = None then list_copy l1
     else foreach_add datum (\<lambda>r d. \<not> member l2 d) append l1 None) (filter (\<lambda>d. \<not> list_ex (\<lambda>e. same e d) es) ds)"
proof (cases "l2 = None")
  case True
  then have "es = []" using assms(2) by (simp add: holds_def)
  with True holds_copy [OF assms(1,3)] show ?thesis by simp
next
  case False
  have "holds tag cell None []" by (simp add: holds_def)
  from holds_filter [OF assms(1) this, of "\<lambda>d. \<not> member l2 d"] assms(3) False show ?thesis
    by (auto simp: holds_member [OF assms(2)])
qed

lemma holds_append_unique:
  assumes "holds tag cell l ds" "length ds < max_cells"
  shows "holds tag cell (if member l d then l else append l d) (add_new same d ds)"
  using assms holds_append [OF assms] holds_member [OF assms(1), of d] by (simp add: add_new_def)

end

text \<open>Elements compared by \<open>==\<close>: the functions have their plain meaning on sets.\<close>

locale value_kind = cell_kind tag cell datum append "(=)" member
  for tag :: node_tag and cell :: "'d \<Rightarrow> 'p list_cell" and datum :: "'p list_cell \<Rightarrow> 'd"
    and append :: "'p lst \<Rightarrow> 'd \<Rightarrow> 'p lst" and member :: "'p lst \<Rightarrow> 'd \<Rightarrow> bool"
begin

lemma ex_eq: "list_ex (\<lambda>e. e = d) ds \<longleftrightarrow> d \<in> set ds" for d :: 'd
  by (auto simp: list_ex_iff)

lemma value_member: "holds tag cell l ds \<Longrightarrow> member l d \<longleftrightarrow> d \<in> set ds"
  using holds_member [of l ds d] by (simp add: ex_eq)

lemma value_delete:
  "holds tag cell l ds \<Longrightarrow> holds tag cell (delete_first_match (\<lambda>c. datum c = d) l) (remove1 d ds)"
  using holds_delete [of l ds d] by simp

lemmas value_intersection = holds_intersection [unfolded ex_eq]
lemmas value_difference = holds_difference [unfolded ex_eq]

lemma value_append_unique:
  assumes "holds tag cell l ds" "length ds < max_cells"
  shows "holds tag cell (if member l d then l else append l d) (if d \<in> set ds then ds else ds @ [d])"
  using holds_append_unique [OF assms, of d] by (simp add: add_new_def ex_eq)

lemma value_union:
  assumes "holds tag cell l ds" "holds tag cell m es" "length ds + length es \<le> max_cells"
  shows "\<exists>zs. holds tag cell (foreach_add datum (\<lambda>r d. \<not> member r d) append m (list_copy l)) (ds @ zs) \<and>
    holds tag cell (foreach_add datum (\<lambda>r d. \<not> member r d) append m l) (ds @ zs) \<and>
    set (ds @ zs) = set ds \<union> set es \<and> (distinct ds \<longrightarrow> distinct (ds @ zs))"
proof -
  obtain zs where zs: "fold (add_new (=)) es ds = ds @ zs" using prefix_add_new by blast
  show ?thesis
    using holds_union [OF assms, unfolded zs] holds_add_new [OF assms(2,1,3), unfolded zs]
      set_add_new [of es ds, unfolded zs] distinct_add_new [of ds es, unfolded zs] by blast
qed

end

interpretation equal_kind: cell_kind T_List ptr_value lfirst lappend eq "list_member eq"
  for eq :: "'p \<Rightarrow> 'p \<Rightarrow> bool"
  by unfold_locales (simp_all add: lappend_represents list_member_def)

interpretation ptr_kind: value_kind T_List ptr_value lfirst lappend list_member_ptr
  by unfold_locales (simp_all add: lappend_represents list_member_ptr_def)

interpretation int_kind: value_kind T_IntList int_value lfirst_int lappend_int list_member_int
  by unfold_locales (simp_all add: lappend_represents list_member_int_def)

interpretation oid_kind: value_kind T_OidList oid_value lfirst_oid lappend_oid list_member_oid
  by unfold_locales (simp_all add: lappend_represents list_member_oid_def)

interpretation xid_kind: value_kind T_XidList xid_value lfirst_xid lappend_xid list_member_xid
  by unfold_locales (simp_all add: lappend_represents list_member_xid_def)

section \<open>Removing duplicates\<close>

lemma remdups_adj_snoc:
  "xs \<noteq> [] \<Longrightarrow> remdups_adj (xs @ [y]) = (if last xs = y then remdups_adj xs else remdups_adj xs @ [y])"
proof (induction xs rule: remdups_adj.induct)
  case (3 x z xs)
  then show ?case by (cases "x = z") (auto simp: remdups_adj_Cons' )
qed auto

lemma distinct_remdups_adj_sorted: "sorted ds \<Longrightarrow> distinct (remdups_adj ds)" for ds :: "nat list"
  by (induction ds rule: remdups_adj.induct) (auto simp: order.antisym)

lemma dedup_loop_spec:
  assumes "take (Suc i) els = map oid_value (remdups_adj (take j ds))" "Suc i \<le> j" "j \<le> length ds"
    "length ds \<le> length els" "\<And>k. j \<le> k \<Longrightarrow> k < length ds \<Longrightarrow> els ! k = oid_value (ds ! k)"
  shows "\<exists>els' i'. dedup_loop (length ds) els i j = (els', i') \<and> i' < length ds \<and>
    length els' = length els \<and> take (Suc i') els' = map oid_value (remdups_adj ds)"
  using assms
proof (induction "length ds - j" arbitrary: i j els)
  case 0
  then show ?case by (auto simp: dedup_loop.simps [of _ els i j])
next
  case (Suc n)
  then have j: "j < length ds" by simp
  have ne: "take j ds \<noteq> []" using Suc.prems(2) j by auto
  have len: "length (remdups_adj (take j ds)) = Suc i"
    using arg_cong [OF Suc.prems(1), of length] Suc.prems(2-4) by simp
  have "els ! i = last (take (Suc i) els)"
    using Suc.prems(2-4) by (simp add: take_Suc_conv_app_nth)
  then have ei: "els ! i = oid_value (last (take j ds))"
    using ne Suc.prems(1) by (simp add: last_map)
  have ej: "els ! j = oid_value (ds ! j)" using Suc.prems(5) j by simp
  have snoc: "remdups_adj (take (Suc j) ds) =
      (if last (take j ds) = ds ! j then remdups_adj (take j ds) else remdups_adj (take j ds) @ [ds ! j])"
    using remdups_adj_snoc [OF ne, of "ds ! j"] j by (simp add: take_Suc_conv_app_nth)
  show ?case
  proof (cases "last (take j ds) = ds ! j")
    case True
    have "\<exists>els' i'. dedup_loop (length ds) els i (Suc j) = (els', i') \<and> i' < length ds \<and>
        length els' = length els \<and> take (Suc i') els' = map oid_value (remdups_adj ds)"
      by (rule Suc.hyps(1)) (use Suc True j in \<open>auto simp: snoc\<close>)
    with True j ei ej show ?thesis by (simp add: dedup_loop.simps [of _ els i j])
  next
    case False
    let ?els = "els[i + 1 := oid_value (ds ! j)]"
    have i: "Suc i < length els" using Suc.prems(2,4) j by linarith
    then have "take (Suc (Suc i)) ?els = take (Suc i) els @ [oid_value (ds ! j)]"
      by (simp add: take_Suc_conv_app_nth [of "Suc i"])
    then have "take (Suc (Suc i)) ?els = map oid_value (remdups_adj (take (Suc j) ds))"
      using Suc.prems(1) False by (simp add: snoc)
    then have "\<exists>els' i'. dedup_loop (length ds) ?els (i + 1) (Suc j) = (els', i') \<and> i' < length ds \<and>
        length els' = length ?els \<and> take (Suc i') els' = map oid_value (remdups_adj ds)"
      by (intro Suc.hyps(1)) (use Suc j in \<open>auto simp: nth_list_update\<close>)
    with False j ei ej show ?thesis by (simp add: dedup_loop.simps [of _ els i j])
  qed
qed

lemma list_deduplicate_oid_holds:
  assumes "holds T_OidList oid_value l ds"
  shows "holds T_OidList oid_value (list_deduplicate_oid l) (remdups_adj ds)"
proof (cases "length ds > 1")
  case False
  then have "remdups_adj ds = ds" by (cases ds; cases "tl ds") auto
  with False assms represents_length show ?thesis
    by (fastforce simp: list_deduplicate_oid_def holds_def)
next
  case True
  then obtain r where l: "l = Some r" using assms by (cases l) (auto simp: holds_def)
  note r = represents_SomeD [OF assms [unfolded holds_def l]]
  have e: "elements r ! k = oid_value (ds ! k)" if "k < length ds" for k
    using r(6) that by (metis nth_take nth_map length_map)
  have "take (Suc 0) (elements r) = map oid_value (remdups_adj (take (Suc 0) ds))"
    using True r e [of 0] by (cases ds; cases "elements r") auto
  then obtain els i where d: "dedup_loop (length ds) (elements r) 0 (Suc 0) = (els, i)" "i < length ds"
      "length els = length (elements r)" "take (Suc i) els = map oid_value (remdups_adj ds)"
    using dedup_loop_spec [of 0 "elements r" "Suc 0" ds] True r e by auto
  have "length (remdups_adj ds) = Suc i"
    using arg_cong [OF d(4), of length] d(2,3) r(4,5) by simp
  moreover have "remdups_adj ds \<noteq> []" using True by auto
  ultimately have "represents T_OidList (Some (r\<lparr>elements := els, llength := Suc i\<rparr>)) (map oid_value (remdups_adj ds))"
    using r d by (intro representsI) auto
  then show ?thesis
    using True r(2) d(1) by (simp add: holds_def l list_deduplicate_oid_def list_length_def)
qed

section \<open>Properties\<close>

text \<open>
  C8: insertion.  Appending, prepending and inserting at a position put the new cell where
  they should and leave all other cells in order, whether the array has room or has to be
  moved to a larger one; the result again satisfies the list invariant, for each of the
  element types.
\<close>

theorem list_insertion_refines:
  assumes "represents T_List p ps" "represents T_IntList i is" "represents T_OidList q qs"
    "represents T_XidList x xs" "length ps < max_cells" "length is < max_cells" "length qs < max_cells"
    "length xs < max_cells" "n \<le> length ps" "n \<le> length is" "n \<le> length qs"
  shows "represents T_List (lappend p d) (ps @ [ptr_value d]) \<and>
    represents T_List (lcons d p) (ptr_value d # ps) \<and>
    represents T_List (list_insert_nth p n d) (take n ps @ ptr_value d # drop n ps) \<and>
    represents T_IntList (lappend_int i k) (is @ [int_value k]) \<and>
    represents T_IntList (lcons_int k i) (int_value k # is) \<and>
    represents T_IntList (list_insert_nth_int i n k) (take n is @ int_value k # drop n is) \<and>
    represents T_OidList (lappend_oid q v) (qs @ [oid_value v]) \<and>
    represents T_OidList (lcons_oid v q) (oid_value v # qs) \<and>
    represents T_OidList (list_insert_nth_oid q n v) (take n qs @ oid_value v # drop n qs) \<and>
    represents T_XidList (lappend_xid x v) (xs @ [xid_value v])"
  by (intro conjI lappend_represents lcons_represents list_insert_nth_represents assms)

lemma sample_lists:
  "represents T_List (lappend None (5::nat)) [ptr_value 5]"
  "represents T_IntList (lappend_int None 4 :: nat lst) [int_value 4]"
  "represents T_OidList (lappend_oid None 9 :: nat lst) [oid_value 9]"
  "represents T_XidList (lappend_xid None 9 :: nat lst) [xid_value 9]"
  using lappend_represents [of None "[]"] by (simp_all add: max_cells_def LIST_HEADER_OVERHEAD_def)

theorem list_insertion_refines_witness:
  "represents T_List (lappend None (5::nat)) [ptr_value 5] \<and> (1::nat) < max_cells \<and>
   represents T_List (lappend (lappend None (5::nat)) 6) [ptr_value 5, ptr_value 6]"
  using list_insertion_refines [OF sample_lists(1-4), of 0 6 0 0] sample_lists(1) by (simp add: max_cells_def LIST_HEADER_OVERHEAD_def)

text \<open>
  C9: copies, concatenation, truncation and deletion do on the array what \<open>take\<close>, \<open>drop\<close> and
  append do on the sequence of cells, for every list including \<open>NIL\<close> and also for negative
  and too large counts, and return \<open>NIL\<close> exactly for an empty result; only
  \<open>list_delete_nth_cell\<close> needs an index within the list.
\<close>

theorem list_structure_refines:
  assumes "represents t l cs" "represents t m ds" "length cs + length ds \<le> max_cells"
  shows "represents t (list_copy l) cs \<and> represents t (list_copy_head l n) (take (nat n) cs) \<and>
    represents t (list_copy_tail l n) (drop (nat n) cs) \<and> represents t (list_concat l m) (cs @ ds) \<and>
    represents t (list_concat_copy l m) (cs @ ds) \<and> represents t (list_truncate l n) (take (nat n) cs) \<and>
    (k < length cs \<longrightarrow> represents t (list_delete_nth_cell l k) (take k cs @ drop (Suc k) cs)) \<and>
    represents t (list_delete_first l) (tl cs) \<and> represents t (list_delete_last l) (butlast cs) \<and>
    represents t (list_delete_first_n l n) (drop (nat n) cs) \<and> (represents t m [] \<longleftrightarrow> m = None)"
  using assms
  by (intro conjI impI list_copy_represents list_copy_head_represents list_copy_tail_represents
    list_concat_represents list_concat_copy_represents list_truncate_represents list_delete_nth_represents
    list_delete_first_represents list_delete_last_represents list_delete_first_n_represents represents_Nil) simp_all

theorem list_structure_refines_witness:
  "represents T_IntList (lappend_int None 4 :: nat lst) [int_value 4] \<and> (2::nat) \<le> max_cells \<and>
   represents T_IntList (list_concat (lappend_int None 4 :: nat lst) (lappend_int None 4 :: nat lst)) [int_value 4, int_value 4] \<and>
   represents T_IntList (None :: nat lst) [] \<and>
   represents T_IntList (list_delete_nth_cell (lappend_int None 4 :: nat lst) 0) [] \<and>
   represents T_IntList (list_concat None (lappend_int None 4 :: nat lst)) [int_value 4]"
  using list_structure_refines [OF sample_lists(2,2), of 0 0] sample_lists(2)
    list_structure_refines [OF represents_Nil [THEN iffD2, OF refl] sample_lists(2), of 0 0]
  by (simp add: max_cells_def LIST_HEADER_OVERHEAD_def)

text \<open>
  C11: lists of pointers as sets, with elements compared by \<open>equal()\<close> (\<open>eq\<close>) or by address:
  membership, deletion of the first match, union without new duplicates, intersection and
  difference keep the order of the first list.
\<close>

theorem list_pointer_sets:
  assumes "holds T_List ptr_value l ds" "holds T_List ptr_value m es" "length ds + length es \<le> max_cells"
    "length ds < max_cells"
  shows "(list_member eq l d \<longleftrightarrow> list_ex (\<lambda>e. eq e d) ds) \<and> (list_member_ptr l d \<longleftrightarrow> d \<in> set ds) \<and>
    holds T_List ptr_value (list_delete eq l d) (remove_first (\<lambda>e. eq e d) ds) \<and>
    holds T_List ptr_value (list_delete_ptr l d) (remove1 d ds) \<and>
    holds T_List ptr_value (list_union eq l m) (fold (add_new eq) es ds) \<and>
    holds T_List ptr_value (list_union_ptr l m) (fold (add_new (=)) es ds) \<and>
    holds T_List ptr_value (list_intersection eq l m) (filter (\<lambda>d. list_ex (\<lambda>e. eq e d) es) ds) \<and>
    holds T_List ptr_value (list_difference eq l m) (filter (\<lambda>d. \<not> list_ex (\<lambda>e. eq e d) es) ds) \<and>
    holds T_List ptr_value (list_difference_ptr l m) (filter (\<lambda>d. d \<notin> set es) ds) \<and>
    holds T_List ptr_value (list_append_unique eq l d) (add_new eq d ds) \<and>
    holds T_List ptr_value (list_append_unique_ptr l d) (add_new (=) d ds) \<and>
    holds T_List ptr_value (list_concat_unique eq l m) (fold (add_new eq) es ds) \<and>
    holds T_List ptr_value (list_concat_unique_ptr l m) (fold (add_new (=)) es ds)"
proof -
  have len: "length ds \<le> max_cells" using assms(3) by simp
  show ?thesis
    unfolding list_delete_def list_delete_ptr_def list_union_def list_union_ptr_def list_intersection_def list_difference_def
      list_difference_ptr_def list_append_unique_def list_append_unique_ptr_def list_concat_unique_def
      list_concat_unique_ptr_def
    by (intro conjI equal_kind.holds_member equal_kind.holds_delete equal_kind.holds_union
      equal_kind.holds_intersection equal_kind.holds_difference equal_kind.holds_append_unique
      equal_kind.holds_add_new ptr_kind.value_member ptr_kind.value_delete ptr_kind.holds_union
      ptr_kind.value_difference ptr_kind.holds_append_unique ptr_kind.holds_add_new assms len)
qed

lemma sample_holds:
  "holds T_List ptr_value (lappend None (5::nat)) [5]" "holds T_IntList int_value (lappend_int None 4 :: nat lst) [4]"
  "holds T_OidList oid_value (lappend_oid None 9 :: nat lst) [9]"
  using sample_lists by (simp_all add: holds_def)

theorem list_pointer_sets_witness:
  "holds T_List ptr_value (lappend None (5::nat)) [5] \<and> (2::nat) \<le> max_cells \<and>
   list_member_ptr (lappend None (5::nat)) 5"
  using list_pointer_sets [OF sample_holds(1,1), of "(=)" 5] sample_holds(1) by (simp add: max_cells_def LIST_HEADER_OVERHEAD_def)

text \<open>
  C10: the same functions for integers and OIDs, with the plain meaning of sets: the union
  has the members of both lists, keeps the first list as a prefix and creates no
  duplicate; intersection and difference select members of the first list in order.
\<close>

theorem list_value_sets:
  assumes "holds T_IntList int_value l ds" "holds T_IntList int_value m es"
    "holds T_OidList oid_value u vs" "holds T_OidList oid_value w ws"
    "length ds + length es < max_cells" "length vs + length ws < max_cells"
  shows "(list_member_int l d \<longleftrightarrow> d \<in> set ds) \<and> (list_member_oid u v \<longleftrightarrow> v \<in> set vs) \<and>
    holds T_IntList int_value (list_delete_int l d) (remove1 d ds) \<and>
    holds T_OidList oid_value (list_delete_oid u v) (remove1 v vs) \<and>
    holds T_IntList int_value (list_intersection_int l m) (filter (\<lambda>d. d \<in> set es) ds) \<and>
    holds T_IntList int_value (list_difference_int l m) (filter (\<lambda>d. d \<notin> set es) ds) \<and>
    holds T_OidList oid_value (list_difference_oid u w) (filter (\<lambda>d. d \<notin> set ws) vs) \<and>
    holds T_IntList int_value (list_append_unique_int l d) (if d \<in> set ds then ds else ds @ [d]) \<and>
    holds T_OidList oid_value (list_append_unique_oid u v) (if v \<in> set vs then vs else vs @ [v]) \<and>
    (\<exists>zs. holds T_IntList int_value (list_union_int l m) (ds @ zs) \<and>
       holds T_IntList int_value (list_concat_unique_int l m) (ds @ zs) \<and>
       set (ds @ zs) = set ds \<union> set es \<and> (distinct ds \<longrightarrow> distinct (ds @ zs))) \<and>
    (\<exists>zs. holds T_OidList oid_value (list_union_oid u w) (vs @ zs) \<and>
       holds T_OidList oid_value (list_concat_unique_oid u w) (vs @ zs) \<and>
       set (vs @ zs) = set vs \<union> set ws \<and> (distinct vs \<longrightarrow> distinct (vs @ zs)))"
proof -
  have len: "length ds + length es \<le> max_cells" "length ds \<le> max_cells" "length ds < max_cells"
    "length vs + length ws \<le> max_cells" "length vs \<le> max_cells" "length vs < max_cells"
    using assms(5,6) by simp_all
  show ?thesis
    unfolding list_delete_int_def list_delete_oid_def list_intersection_int_def list_difference_int_def
      list_difference_oid_def list_append_unique_int_def list_append_unique_oid_def list_union_int_def
      list_union_oid_def list_concat_unique_int_def list_concat_unique_oid_def
    by (intro conjI int_kind.value_member oid_kind.value_member int_kind.value_delete oid_kind.value_delete
      int_kind.value_intersection int_kind.value_difference oid_kind.value_difference
      int_kind.value_append_unique oid_kind.value_append_unique int_kind.value_union oid_kind.value_union
      assms len)
qed

theorem list_value_sets_witness:
  "holds T_IntList int_value (lappend_int None 4 :: nat lst) [4] \<and>
   holds T_OidList oid_value (lappend_oid None 9 :: nat lst) [9] \<and> (2::nat) < max_cells \<and>
   list_member_int (lappend_int None 4 :: nat lst) 4"
  using list_value_sets [OF sample_holds(2,2) sample_holds(3,3), of 4 9] sample_holds(2,3)
  by (simp add: max_cells_def LIST_HEADER_OVERHEAD_def)

text \<open>
  C12: \<open>list_deduplicate_oid\<close>, in place and in one pass, turns a sorted list into the sorted
  list of its distinct members.
\<close>

theorem list_deduplicate_sorted:
  assumes "holds T_OidList oid_value l ds" "sorted ds"
  shows "\<exists>es. holds T_OidList oid_value (list_deduplicate_oid l) es \<and> sorted es \<and> distinct es \<and> set es = set ds"
proof (intro exI conjI)
  show "holds T_OidList oid_value (list_deduplicate_oid l) (remdups_adj ds)"
    by (rule list_deduplicate_oid_holds [OF assms(1)])
  show "sorted (remdups_adj ds)" "distinct (remdups_adj ds)" "set (remdups_adj ds) = set ds"
    using assms(2) by (simp_all add: sorted_remdups_adj distinct_remdups_adj_sorted)
qed

theorem list_deduplicate_sorted_witness:
  "holds T_OidList oid_value (lappend_oid (lappend_oid None 9) 9 :: nat lst) [9, 9] \<and> sorted [9, 9::nat] \<and>
   (\<exists>es. holds T_OidList oid_value (list_deduplicate_oid (lappend_oid (lappend_oid None 9) 9 :: nat lst)) es \<and>
      sorted es \<and> distinct es \<and> set es = {9})"
proof -
  have "holds T_OidList oid_value (lappend_oid (lappend_oid None 9) 9 :: nat lst) [9, 9]"
    using oid_kind.holds_append [OF sample_holds(3), of 9] by (simp add: max_cells_def LIST_HEADER_OVERHEAD_def)
  with list_deduplicate_sorted [OF this] show ?thesis by simp
qed

end
