(* ===== verification/Binaryheap.thy ===== *)
theory Binaryheap
  imports Prelude "HOL-Library.Multiset" "HOL-Library.Signed_Division"
begin

text \<open>
  The binary heap of \<open>src/backend/lib/binaryheap.c\<close>: an array with a comparison function, a size,
  a capacity and the flag that says whether the heap property holds.  Sift-up and sift-down move a
  hole as the code does.  The correctness of the operations is proved in the locale
  \<open>heap_order\<close>, whose laws the comparison must satisfy: total and transitive.  The locale is
  interpreted on the comparisons the code passes: \<open>ReorderBufferIterCompare\<close> here and
  \<open>ready_file_comparator\<close> in the theory of the archiver.  The abstract view of a heap is the
  multiset of its nodes.
\<close>

section \<open>Data and operations\<close>

record 'd binaryheap =
  bh_size :: nat
  bh_space :: nat
  bh_has_heap_property :: bool
  bh_compare :: "'d \<Rightarrow> 'd \<Rightarrow> int"
  bh_nodes :: "'d list"

text \<open>
  \<open>palloc\<close> does not clear the nodes: \<open>junk\<close> is what the memory holds.
\<close>

definition binaryheap_allocate :: "'d list \<Rightarrow> ('d \<Rightarrow> 'd \<Rightarrow> int) \<Rightarrow> 'd binaryheap" where
  "binaryheap_allocate junk compare =
     \<lparr>bh_size = 0, bh_space = length junk, bh_has_heap_property = True, bh_compare = compare,
      bh_nodes = junk\<rparr>"

definition binaryheap_reset :: "'d binaryheap \<Rightarrow> 'd binaryheap" where
  "binaryheap_reset heap = heap\<lparr>bh_size := 0, bh_has_heap_property := True\<rparr>"

definition left_offset :: "nat \<Rightarrow> nat" where
  "left_offset i = 2 * i + 1"

definition right_offset :: "nat \<Rightarrow> nat" where
  "right_offset i = 2 * i + 2"

text \<open>Division of C truncates: the parent of \<open>0\<close> is \<open>0\<close>, that of \<open>-1\<close> is \<open>-1\<close>.\<close>

definition parent_offset :: "int \<Rightarrow> int" where
  "parent_offset i = (i - 1) sdiv 2"

text \<open>The parent of a node, for the invariants.\<close>

definition par :: "nat \<Rightarrow> nat" where
  "par i = (i - 1) div 2"

lemma parent_offset_nat [simp]: "nat (parent_offset (int i)) = par i"
  by (cases i) (simp_all add: parent_offset_def par_def signed_divide_int_def sgn_if nat_div_distrib)

lemma par_less: "0 < i \<Longrightarrow> par i < i"
  by (simp add: par_def)

lemma par_bound: "0 < i \<Longrightarrow> i < n \<Longrightarrow> par i < n" "0 < i \<Longrightarrow> par i \<noteq> i"
  using par_less [of i] by simp_all

lemma par_children [simp]: "par (left_offset i) = i" "par (right_offset i) = i" "i < left_offset i" "i < right_offset i"
  by (simp_all add: par_def left_offset_def right_offset_def)

lemma children_par: "0 < i \<Longrightarrow> par i = off \<Longrightarrow> i = left_offset off \<or> i = right_offset off"
  by (auto simp: par_def left_offset_def right_offset_def)

text \<open>The loop of \<open>sift_up\<close>: \<open>node_off\<close> is the hole that notionally holds \<open>node_val\<close>.\<close>

function sift_up_loop :: "('d \<Rightarrow> 'd \<Rightarrow> int) \<Rightarrow> 'd \<Rightarrow> 'd list \<Rightarrow> nat \<Rightarrow> 'd list" where
  "sift_up_loop compare node_val nodes node_off =
     (if node_off \<noteq> 0 then
        let parent_off = nat (parent_offset (int node_off)); parent_val = nodes ! parent_off in
        if compare node_val parent_val \<le> 0 then nodes[node_off := node_val]
        else sift_up_loop compare node_val (nodes[node_off := parent_val]) parent_off
      else nodes[node_off := node_val])"
  by pat_completeness auto
termination
  by (relation "measure (\<lambda>(compare, node_val, nodes, node_off). node_off)") (auto simp: par_less)

declare sift_up_loop.simps [simp del]

definition sift_up :: "'d binaryheap \<Rightarrow> nat \<Rightarrow> 'd binaryheap" where
  "sift_up heap node_off = heap\<lparr>bh_nodes :=
     sift_up_loop (bh_compare heap) (bh_nodes heap ! node_off) (bh_nodes heap) node_off\<rparr>"

text \<open>The child to swap the hole with, \<open>0\<close> when there is none.\<close>

definition swap_offset :: "('d \<Rightarrow> 'd \<Rightarrow> int) \<Rightarrow> nat \<Rightarrow> 'd \<Rightarrow> 'd list \<Rightarrow> nat \<Rightarrow> nat" where
  "swap_offset compare sz node_val nodes node_off =
     (let left_off = left_offset node_off; right_off = right_offset node_off;
          swap_off = (if left_off < sz \<and> compare node_val (nodes ! left_off) < 0 then left_off else 0)
      in if right_off < sz \<and> compare node_val (nodes ! right_off) < 0 then
           if swap_off = 0 \<or> compare (nodes ! left_off) (nodes ! right_off) < 0 then right_off else swap_off
         else swap_off)"

lemma swap_offset_cases:
  "swap_offset compare sz v nodes off = 0 \<or>
   off < swap_offset compare sz v nodes off \<and> swap_offset compare sz v nodes off < sz"
  by (auto simp: swap_offset_def left_offset_def right_offset_def Let_def)

function sift_down_loop :: "('d \<Rightarrow> 'd \<Rightarrow> int) \<Rightarrow> nat \<Rightarrow> 'd \<Rightarrow> 'd list \<Rightarrow> nat \<Rightarrow> 'd list" where
  "sift_down_loop compare sz node_val nodes node_off =
     (let swap_off = swap_offset compare sz node_val nodes node_off in
      if swap_off = 0 then nodes[node_off := node_val]
      else sift_down_loop compare sz node_val (nodes[node_off := nodes ! swap_off]) swap_off)"
  by pat_completeness auto
termination
proof (relation "measure (\<lambda>(compare, sz, node_val, nodes, node_off). sz - node_off)")
  fix compare :: "'d \<Rightarrow> 'd \<Rightarrow> int" and sz node_val nodes node_off s
  assume "s = swap_offset compare sz node_val nodes node_off" "s \<noteq> 0"
  then have "node_off < s" "s < sz"
    using swap_offset_cases [of compare sz node_val nodes node_off] by auto
  then show "((compare, sz, node_val, nodes[node_off := nodes ! s], s), compare, sz, node_val, nodes, node_off)
      \<in> measure (\<lambda>(compare, sz, node_val, nodes, node_off). sz - node_off)"
    by auto
qed simp

declare sift_down_loop.simps [simp del]

definition sift_down :: "'d binaryheap \<Rightarrow> nat \<Rightarrow> 'd binaryheap" where
  "sift_down heap node_off = heap\<lparr>bh_nodes :=
     sift_down_loop (bh_compare heap) (bh_size heap) (bh_nodes heap ! node_off) (bh_nodes heap) node_off\<rparr>"

definition binaryheap_add_unordered :: "'d binaryheap \<Rightarrow> 'd \<Rightarrow> 'd binaryheap result" where
  "binaryheap_add_unordered heap d =
     (if bh_size heap \<ge> bh_space heap then Inl (ERROR ''out of binary heap slots'')
      else Inr (heap\<lparr>bh_has_heap_property := False, bh_nodes := (bh_nodes heap)[bh_size heap := d],
                     bh_size := bh_size heap + 1\<rparr>))"

text \<open>\<open>for (i = parent_offset(bh_size - 1); i >= 0; i--) sift_down(heap, i);\<close> \<open>n\<close> is \<open>i + 1\<close>.\<close>

fun build_loop :: "'d binaryheap \<Rightarrow> nat \<Rightarrow> 'd binaryheap" where
  "build_loop heap 0 = heap"
| "build_loop heap (Suc i) = build_loop (sift_down heap i) i"

definition binaryheap_build :: "'d binaryheap \<Rightarrow> 'd binaryheap" where
  "binaryheap_build heap =
     (build_loop heap (nat (parent_offset (int (bh_size heap) - 1) + 1)))\<lparr>bh_has_heap_property := True\<rparr>"

definition binaryheap_add :: "'d binaryheap \<Rightarrow> 'd \<Rightarrow> 'd binaryheap result" where
  "binaryheap_add heap d =
     (if bh_size heap \<ge> bh_space heap then Inl (ERROR ''out of binary heap slots'')
      else let heap = heap\<lparr>bh_nodes := (bh_nodes heap)[bh_size heap := d], bh_size := bh_size heap + 1\<rparr>
           in Inr (sift_up heap (bh_size heap - 1)))"

text \<open>The caller must not use these on an empty heap or one that is not built.\<close>

definition binaryheap_first :: "'d binaryheap \<Rightarrow> 'd result" where
  "binaryheap_first heap =
     (if bh_size heap = 0 \<or> \<not> bh_has_heap_property heap then Inl Undefined_Behaviour
      else Inr (bh_nodes heap ! 0))"

definition binaryheap_remove_first :: "'d binaryheap \<Rightarrow> ('d \<times> 'd binaryheap) result" where
  "binaryheap_remove_first heap =
     (if bh_size heap = 0 \<or> \<not> bh_has_heap_property heap then Inl Undefined_Behaviour
      else
        let result = bh_nodes heap ! 0 in
        if bh_size heap = 1 then Inr (result, heap\<lparr>bh_size := bh_size heap - 1\<rparr>)
        else
          let sz = bh_size heap - 1;
              heap = heap\<lparr>bh_size := sz, bh_nodes := (bh_nodes heap)[0 := bh_nodes heap ! sz]\<rparr>
          in Inr (result, sift_down heap 0))"

definition binaryheap_replace_first :: "'d binaryheap \<Rightarrow> 'd \<Rightarrow> 'd binaryheap result" where
  "binaryheap_replace_first heap d =
     (if bh_size heap = 0 \<or> \<not> bh_has_heap_property heap then Inl Undefined_Behaviour
      else
        let heap = heap\<lparr>bh_nodes := (bh_nodes heap)[0 := d]\<rparr>
        in Inr (if bh_size heap > 1 then sift_down heap 0 else heap))"

section \<open>The heap property\<close>

definition heap_up_to :: "('d \<Rightarrow> 'd \<Rightarrow> int) \<Rightarrow> nat \<Rightarrow> nat \<Rightarrow> 'd list \<Rightarrow> bool" where
  "heap_up_to compare lo n ys \<longleftrightarrow>
     (\<forall>i. 0 < i \<and> i < n \<and> lo \<le> par i \<longrightarrow> compare (ys ! i) (ys ! par i) \<le> 0)"

text \<open>The nodes that are in the heap.\<close>

definition heap_mset :: "'d binaryheap \<Rightarrow> 'd multiset" where
  "heap_mset heap = mset (take (bh_size heap) (bh_nodes heap))"

definition heap_ok :: "'d binaryheap \<Rightarrow> bool" where
  "heap_ok heap \<longleftrightarrow> bh_size heap \<le> bh_space heap \<and> length (bh_nodes heap) = bh_space heap \<and>
     (bh_has_heap_property heap \<longrightarrow> heap_up_to (bh_compare heap) 0 (bh_size heap) (bh_nodes heap))"

lemma mset_update_swap:
  assumes "i < length xs" "j < length xs" "i \<noteq> j"
  shows "mset (xs[i := xs ! j, j := v]) = mset (xs[i := v])"
proof -
  have "mset ((xs[i := v])[j := xs[i := v] ! i, i := xs[i := v] ! j]) = mset (xs[i := v])"
    using assms by (intro mset_swap) simp_all
  moreover have "(xs[i := v])[j := xs[i := v] ! i, i := xs[i := v] ! j] = xs[i := xs ! j, j := v]"
    using assms by (intro nth_equalityI) (auto simp: nth_list_update)
  ultimately show ?thesis by simp
qed

section \<open>Correctness for a comparator that is a total preorder\<close>

text \<open>
  \<open>up_inv\<close>: the heap property holds with the hole filled, except between the hole and its
  par; \<open>down_inv\<close>: except between the hole and its children.
\<close>

definition up_inv :: "('d \<Rightarrow> 'd \<Rightarrow> int) \<Rightarrow> nat \<Rightarrow> nat \<Rightarrow> 'd list \<Rightarrow> bool" where
  "up_inv compare n off ys \<longleftrightarrow>
     (\<forall>i. 0 < i \<and> i < n \<and> i \<noteq> off \<longrightarrow> compare (ys ! i) (ys ! par i) \<le> 0) \<and>
     (\<forall>i. 0 < i \<and> i < n \<and> par i = off \<and> 0 < off \<longrightarrow> compare (ys ! i) (ys ! par off) \<le> 0)"

definition down_inv :: "('d \<Rightarrow> 'd \<Rightarrow> int) \<Rightarrow> nat \<Rightarrow> nat \<Rightarrow> nat \<Rightarrow> 'd list \<Rightarrow> bool" where
  "down_inv compare lo n off ys \<longleftrightarrow>
     (\<forall>i. 0 < i \<and> i < n \<and> lo \<le> par i \<and> par i \<noteq> off \<longrightarrow> compare (ys ! i) (ys ! par i) \<le> 0) \<and>
     (\<forall>i. 0 < i \<and> i < n \<and> par i = off \<and> 0 < off \<and> lo \<le> par off \<longrightarrow> compare (ys ! i) (ys ! par off) \<le> 0)"

locale heap_order =
  fixes compare :: "'d \<Rightarrow> 'd \<Rightarrow> int"
  assumes compare_total: "compare a b > 0 \<Longrightarrow> compare b a \<le> 0" "compare a b < 0 \<Longrightarrow> compare b a \<ge> 0"
    "compare a b \<ge> 0 \<Longrightarrow> compare b a \<le> 0"
    and compare_trans: "compare a b \<le> 0 \<Longrightarrow> compare b c \<le> 0 \<Longrightarrow> compare a c \<le> 0"
begin

abbreviation le :: "'d \<Rightarrow> 'd \<Rightarrow> bool" where
  "le a b \<equiv> compare a b \<le> 0"

lemma compare_refl: "le a a"
  using compare_total(1) [of a a] by (cases "compare a a > 0") auto

lemma root_max:
  assumes "heap_up_to compare 0 n ys" "i < n"
  shows "le (ys ! i) (ys ! 0)"
  using assms(2)
proof (induction i rule: less_induct)
  case (less i)
  show ?case
  proof (cases "i = 0")
    case True
    then show ?thesis by (simp add: compare_refl)
  next
    case False
    then have "par i < i" by (simp add: par_less)
    with less False have "le (ys ! (par i)) (ys ! 0)" by simp
    moreover have "le (ys ! i) (ys ! (par i))"
      using assms(1) less.prems False by (simp add: heap_up_to_def)
    ultimately show ?thesis using compare_trans by blast
  qed
qed

lemma up_step:
  assumes inv: "up_inv compare n off (xs[off := v])" and off: "0 < off" "off < n" "n \<le> length xs"
    and gt: "\<not> le v (xs ! par off)"
  shows "up_inv compare n (par off) (xs[off := xs ! par off, par off := v])"
proof -
  let ?p = "par off" and ?ys = "xs[off := v]" and ?zs = "xs[off := xs ! par off, par off := v]"
  have p: "?p < off" "?p < length xs" using off par_less [of off] by simp_all
  have pv: "le (xs ! ?p) v" using gt compare_total(1) by auto
  have z: "?zs ! i = (if i = ?p then v else if i = off then xs ! ?p else xs ! i)" if "i < n" for i
    using that off p by (auto simp: nth_list_update)
  have y: "?ys ! i = (if i = off then v else xs ! i)" if "i < n" for i
    using that off by (auto simp: nth_list_update)
  have A: "le (?ys ! i) (?ys ! par i)" if "0 < i" "i < n" "i \<noteq> off" for i
    using inv that unfolding up_inv_def by blast
  have B: "le (?ys ! i) (?ys ! ?p)" if "0 < i" "i < n" "par i = off" for i
    using inv that off unfolding up_inv_def by blast
  have par: "par i < n" "par i < i" if "0 < i" "i < n" for i using that par_bound(1) par_less by auto
  have "le (?zs ! i) (?zs ! par i)" if i: "0 < i" "i < n" "i \<noteq> ?p" for i
  proof -
    consider "i = off" | "i \<noteq> off" "par i = off" | "i \<noteq> off" "par i = ?p"
      | "i \<noteq> off" "par i \<noteq> off" "par i \<noteq> ?p" by blast
    then show ?thesis
    proof cases
      case 1
      then show ?thesis using z [of off] z [of ?p] p off pv by simp
    next
      case 2
      then show ?thesis using B [of i] z [of i] z [of off] y [of i] y [of ?p] i off p by simp
    next
      case 3
      then have "le (xs ! i) (xs ! ?p)" using A [of i] y [of i] y [of ?p] i off p by simp
      then show ?thesis using compare_trans [OF _ pv] z [of i] z [of ?p] 3 i off p by simp
    next
      case 4
      then show ?thesis using A [of i] z [of i] z [of "par i"] y [of i] y [of "par i"] i par by simp
    qed
  qed
  moreover have "le (?zs ! i) (?zs ! par ?p)" if i: "0 < i" "i < n" "par i = ?p" "0 < ?p" for i
  proof -
    have pp: "le (xs ! ?p) (xs ! par ?p)"
      using A [of ?p] y [of ?p] y [of "par ?p"] i(4) off p par [of ?p] by simp
    have zp: "?zs ! par ?p = xs ! par ?p"
      using z [of "par ?p"] i(4) off p par [of ?p] by simp
    show ?thesis
    proof (cases "i = off")
      case True
      then show ?thesis using pp zp z [of off] off p by simp
    next
      case False
      then have "le (xs ! i) (xs ! ?p)" using A [of i] y [of i] y [of ?p] i off p by simp
      then show ?thesis using compare_trans [OF _ pp] zp z [of i] i False p par [of i] by simp
    qed
  qed
  ultimately show ?thesis unfolding up_inv_def by blast
qed

lemma up_done:
  assumes "up_inv compare n off ys" "off = 0 \<or> le (ys ! off) (ys ! par off)"
  shows "heap_up_to compare 0 n ys"
  using assms unfolding up_inv_def heap_up_to_def by (metis le0 neq0_conv)

lemma sift_up_loop_correct:
  assumes "up_inv compare n off (xs[off := v])" "off < n" "n \<le> length xs"
  shows "heap_up_to compare 0 n (sift_up_loop compare v xs off) \<and>
    length (sift_up_loop compare v xs off) = length xs \<and>
    mset (take n (sift_up_loop compare v xs off)) = mset (take n (xs[off := v]))"
  using assms
proof (induction off arbitrary: xs rule: less_induct)
  case (less off)
  show ?case
  proof (cases "off = 0 \<or> le v (xs ! par off)")
    case True
    then have "sift_up_loop compare v xs off = xs[off := v]"
      by (auto simp: sift_up_loop.simps [of compare v xs off] Let_def)
    moreover have "off = 0 \<or> le (xs[off := v] ! off) (xs[off := v] ! par off)"
      using True less.prems par_bound(2) [of off] by (cases "off = 0") auto
    ultimately show ?thesis using up_done [OF less.prems(1)] by simp
  next
    case False
    let ?p = "par off" and ?xs = "xs[off := xs ! par off]"
    have p: "?p < off" "?p < n" using False less.prems par_bound(1) [of off n] by (auto simp: par_less)
    have step: "sift_up_loop compare v xs off = sift_up_loop compare v ?xs ?p"
      using False by (simp add: sift_up_loop.simps [of compare v xs off] Let_def)
    have inv: "up_inv compare n ?p (?xs[?p := v])"
      using up_step [OF less.prems(1) _ less.prems(2,3)] False by simp
    have "mset (take n (?xs[?p := v])) = mset (take n (xs[off := v]))"
      using mset_update_swap [of off "take n xs" ?p v] less.prems p
      by (simp add: take_update_swap)
    with less.IH [OF p(1) inv p(2)] less.prems show ?thesis unfolding step by simp
  qed
qed

lemma swap_offset_none:
  assumes "swap_offset compare n v xs off = 0" "0 < i" "i < n" "par i = off"
  shows "le (xs ! i) v"
proof -
  have "i = left_offset off \<or> i = right_offset off"
    using assms(2,4) by (rule children_par)
  then have "\<not> compare v (xs ! i) < 0"
    using assms(1,3) by (auto simp: swap_offset_def Let_def left_offset_def right_offset_def split: if_splits)
  then show ?thesis using compare_total(3) [of v "xs ! i"] by simp
qed

lemma swap_offset_some:
  assumes "swap_offset compare n v xs off = s" "s \<noteq> 0"
  shows "par s = off" "off < s" "s < n" "le v (xs ! s)"
    "\<And>i. 0 < i \<Longrightarrow> i < n \<Longrightarrow> par i = off \<Longrightarrow> le (xs ! i) (xs ! s)"
proof -
  let ?l = "left_offset off" and ?r = "right_offset off"
  have lr: "par ?l = off" "par ?r = off" "0 < ?l" "0 < ?r" "off < ?l" "off < ?r" "?l < ?r"
    by (simp_all add: par_def left_offset_def right_offset_def)
  have cases: "s = ?l \<and> ?l < n \<and> compare v (xs ! ?l) < 0 \<and>
        \<not> (?r < n \<and> compare v (xs ! ?r) < 0 \<and> compare (xs ! ?l) (xs ! ?r) < 0) \<or>
      s = ?r \<and> ?r < n \<and> compare v (xs ! ?r) < 0 \<and>
        (\<not> compare v (xs ! ?l) < 0 \<or> compare (xs ! ?l) (xs ! ?r) < 0)"
    using assms lr(3,4,7) unfolding swap_offset_def Let_def by (auto split: if_splits)
  then show "par s = off" "off < s" "s < n" "le v (xs ! s)" using lr by auto
  fix i assume i: "0 < i" "i < n" "par i = off"
  then have "i = ?l \<or> i = ?r" by (intro children_par)
  moreover have "le (xs ! i) (xs ! s)" if "\<not> compare v (xs ! i) < 0"
  proof -
    have "le (xs ! i) v" using that compare_total(3) by simp
    then show ?thesis using compare_trans \<open>le v (xs ! s)\<close> by blast
  qed
  moreover have "le (xs ! ?r) (xs ! ?l)" if "\<not> compare (xs ! ?l) (xs ! ?r) < 0"
    using that compare_total(3) [of "xs ! ?l" "xs ! ?r"] by simp
  ultimately show "le (xs ! i) (xs ! s)"
    using cases i(2) compare_refl by (elim disjE conjE) auto
qed

lemma down_step:
  assumes inv: "down_inv compare lo n off (xs[off := v])" and off: "lo \<le> off" "off < n" "n \<le> length xs"
    and s: "swap_offset compare n v xs off = s" "s \<noteq> 0"
  shows "down_inv compare lo n s (xs[off := xs ! s, s := v])"
proof -
  let ?ys = "xs[off := v]" and ?zs = "xs[off := xs ! s, s := v]"
  note sw = swap_offset_some [OF s]
  have z: "?zs ! i = (if i = s then v else if i = off then xs ! s else xs ! i)" if "i < n" for i
    using that off sw by (auto simp: nth_list_update)
  have y: "?ys ! i = (if i = off then v else xs ! i)" if "i < n" for i
    using that off by (auto simp: nth_list_update)
  have A: "le (?ys ! i) (?ys ! par i)" if "0 < i" "i < n" "lo \<le> par i" "par i \<noteq> off" for i
    using inv that unfolding down_inv_def by blast
  have B: "le (?ys ! s) (?ys ! par off)" if "0 < off" "lo \<le> par off"
    using inv that sw(1,3) s(2) unfolding down_inv_def by (metis neq0_conv)
  have par: "par i < n" "par i < i" if "0 < i" "i < n" for i using that par_bound(1) par_less by auto
  have "le (?zs ! i) (?zs ! par i)" if i: "0 < i" "i < n" "lo \<le> par i" "par i \<noteq> s" for i
  proof -
    consider "i = s" | "i \<noteq> s" "par i = off" | "i = off" | "i \<noteq> s" "i \<noteq> off" "par i \<noteq> off" by blast
    then show ?thesis
    proof cases
      case 1
      then show ?thesis using z [of s] z [of off] sw off by simp
    next
      case 2
      then show ?thesis using z [of i] z [of off] sw i off par [of i] by auto
    next
      case 3
      then show ?thesis using B z [of off] z [of "par off"] y [of s] y [of "par off"] sw i off par [of off] by auto
    next
      case 4
      then show ?thesis using A [of i] z [of i] z [of "par i"] y [of i] y [of "par i"] i par [of i] by simp
    qed
  qed
  moreover have "le (?zs ! i) (?zs ! par s)" if i: "0 < i" "i < n" "par i = s" "lo \<le> par s" for i
  proof -
    have "i \<noteq> s" "i \<noteq> off" "s \<noteq> off" using par [of i] i sw by auto
    then show ?thesis
      using A [of i] z [of i] z [of off] y [of i] y [of s] i sw off by auto
  qed
  ultimately show ?thesis unfolding down_inv_def by blast
qed

lemma down_done:
  assumes "down_inv compare lo n off (xs[off := v])" "swap_offset compare n v xs off = 0" "off < n" "n \<le> length xs"
  shows "heap_up_to compare lo n (xs[off := v])"
  unfolding heap_up_to_def
proof (intro allI impI, elim conjE)
  fix i assume i: "0 < i" "i < n" "lo \<le> par i"
  show "le (xs[off := v] ! i) (xs[off := v] ! par i)"
  proof (cases "par i = off")
    case True
    moreover have "i \<noteq> off" using True par_bound(2) [OF i(1)] by simp
    ultimately show ?thesis using swap_offset_none [OF assms(2) i(1,2)] assms(3,4) by simp
  next
    case False
    then show ?thesis using assms(1) i unfolding down_inv_def by blast
  qed
qed

lemma sift_down_loop_correct:
  assumes "down_inv compare lo n off (xs[off := v])" "lo \<le> off" "off < n" "n \<le> length xs"
  shows "heap_up_to compare lo n (sift_down_loop compare n v xs off) \<and>
    length (sift_down_loop compare n v xs off) = length xs \<and>
    mset (take n (sift_down_loop compare n v xs off)) = mset (take n (xs[off := v]))"
  using assms
proof (induction "n - off" arbitrary: xs off rule: less_induct)
  case less
  let ?s = "swap_offset compare n v xs off"
  show ?case
  proof (cases "?s = 0")
    case True
    then have "sift_down_loop compare n v xs off = xs[off := v]"
      by (simp add: sift_down_loop.simps [of compare n v xs off] Let_def)
    with down_done [OF less.prems(1) True less.prems(3,4)] show ?thesis by simp
  next
    case False
    let ?xs = "xs[off := xs ! ?s]"
    note sw = swap_offset_some [OF refl False]
    have step: "sift_down_loop compare n v xs off = sift_down_loop compare n v ?xs ?s"
      using False by (simp add: sift_down_loop.simps [of compare n v xs off] Let_def)
    have inv: "down_inv compare lo n ?s (?xs[?s := v])"
      by (rule down_step [OF less.prems refl False])
    have "mset (take n (?xs[?s := v])) = mset (take n (xs[off := v]))"
      using mset_update_swap [of off "take n xs" ?s v] less.prems sw(2,3) by (simp add: take_update_swap)
    with less.hyps [OF _ inv] less.prems sw(2,3) show ?thesis unfolding step by simp
  qed
qed

end

context heap_order
begin

lemma sift_down_correct:
  assumes "bh_compare h = compare" "down_inv compare lo (bh_size h) off (bh_nodes h)" "lo \<le> off"
    "off < bh_size h" "bh_size h \<le> length (bh_nodes h)"
  shows "heap_up_to compare lo (bh_size h) (bh_nodes (sift_down h off))"
    "length (bh_nodes (sift_down h off)) = length (bh_nodes h)"
    "mset (take (bh_size h) (bh_nodes (sift_down h off))) = mset (take (bh_size h) (bh_nodes h))"
    "bh_size (sift_down h off) = bh_size h" "bh_space (sift_down h off) = bh_space h"
    "bh_compare (sift_down h off) = compare"
  using sift_down_loop_correct [of lo "bh_size h" off "bh_nodes h" "bh_nodes h ! off"] assms
  by (simp_all add: sift_down_def)

lemma build_loop_correct:
  assumes "bh_compare h = compare" "heap_up_to compare k (bh_size h) (bh_nodes h)" "k \<le> bh_size h"
    "bh_size h \<le> length (bh_nodes h)"
  shows "heap_up_to compare 0 (bh_size h) (bh_nodes (build_loop h k)) \<and>
    length (bh_nodes (build_loop h k)) = length (bh_nodes h) \<and>
    mset (take (bh_size h) (bh_nodes (build_loop h k))) = mset (take (bh_size h) (bh_nodes h)) \<and>
    bh_size (build_loop h k) = bh_size h \<and> bh_space (build_loop h k) = bh_space h \<and>
    bh_compare (build_loop h k) = compare"
  using assms
proof (induction k arbitrary: h)
  case 0
  then show ?case by simp
next
  case (Suc i)
  have "down_inv compare i (bh_size h) i (bh_nodes h)"
    unfolding down_inv_def
  proof (intro conjI allI impI, goal_cases)
    case (1 j)
    then have "Suc i \<le> par j" by simp
    with 1 Suc.prems(2) show ?case unfolding heap_up_to_def by blast
  next
    case (2 j)
    then show ?case using par_less [of i] by simp
  qed
  note d = sift_down_correct [OF Suc.prems(1) this order_refl _ Suc.prems(4)]
  show ?case using Suc.IH [of "sift_down h i"] d Suc.prems by simp
qed

lemma binaryheap_build_correct:
  assumes "heap_ok h" "bh_compare h = compare"
  shows "heap_ok (binaryheap_build h)" "bh_has_heap_property (binaryheap_build h)"
    "heap_mset (binaryheap_build h) = heap_mset h" "bh_size (binaryheap_build h) = bh_size h"
    "bh_space (binaryheap_build h) = bh_space h" "bh_compare (binaryheap_build h) = compare"
proof -
  define k where "k = nat (parent_offset (int (bh_size h) - 1) + 1)"
  have k: "k = (if bh_size h = 0 then 0 else Suc (par (bh_size h - 1)))"
  proof (cases "bh_size h")
    case 0
    then show ?thesis by (simp add: k_def parent_offset_def signed_divide_int_def)
  next
    case (Suc m)
    then show ?thesis
      using parent_offset_nat [of m]
      by (cases m) (auto simp: k_def parent_offset_def signed_divide_int_def sgn_if par_def nat_add_distrib)
  qed
  have "heap_up_to compare k (bh_size h) (bh_nodes h)"
    unfolding heap_up_to_def
  proof (intro allI impI, elim conjE)
    fix i assume i: "0 < i" "i < bh_size h" "k \<le> par i"
    have "par i \<le> par (bh_size h - 1)" using i(2) by (auto simp: par_def intro!: div_le_mono)
    with i k show "compare (bh_nodes h ! i) (bh_nodes h ! par i) \<le> 0" by simp
  qed
  moreover have "k \<le> bh_size h"
    using par_less [of "bh_size h - 1"] by (cases "bh_size h \<le> 1") (auto simp: k par_def)
  ultimately have b: "heap_up_to compare 0 (bh_size h) (bh_nodes (build_loop h k)) \<and>
    length (bh_nodes (build_loop h k)) = length (bh_nodes h) \<and>
    mset (take (bh_size h) (bh_nodes (build_loop h k))) = mset (take (bh_size h) (bh_nodes h)) \<and>
    bh_size (build_loop h k) = bh_size h \<and> bh_space (build_loop h k) = bh_space h \<and>
    bh_compare (build_loop h k) = compare"
    using assms by (intro build_loop_correct) (simp_all add: heap_ok_def)
  then show "heap_ok (binaryheap_build h)" "bh_has_heap_property (binaryheap_build h)"
    "heap_mset (binaryheap_build h) = heap_mset h" "bh_size (binaryheap_build h) = bh_size h"
    "bh_space (binaryheap_build h) = bh_space h" "bh_compare (binaryheap_build h) = compare"
    using assms by (simp_all add: binaryheap_build_def k_def [symmetric] heap_ok_def heap_mset_def)
qed

lemma binaryheap_add_correct:
  assumes "heap_ok h" "bh_compare h = compare" "bh_has_heap_property h" "bh_size h < bh_space h"
  shows "\<exists>h'. binaryheap_add h d = Inr h' \<and> heap_ok h' \<and> bh_has_heap_property h' \<and>
    heap_mset h' = add_mset d (heap_mset h) \<and> bh_size h' = Suc (bh_size h) \<and> bh_space h' = bh_space h \<and>
    bh_compare h' = compare"
proof -
  let ?n = "bh_size h" and ?xs = "(bh_nodes h)[bh_size h := d]"
  have len: "length (bh_nodes h) = bh_space h" and heap: "heap_up_to compare 0 ?n (bh_nodes h)"
    using assms by (simp_all add: heap_ok_def)
  have x: "?xs ! i = bh_nodes h ! i" if "i < ?n" for i using that by simp
  have "up_inv compare (Suc ?n) ?n ?xs"
    unfolding up_inv_def
  proof (intro conjI allI impI, goal_cases)
    case (1 i)
    then have i: "i < ?n" "par i < ?n" using par_less [of i] by auto
    then show ?case using heap 1 unfolding heap_up_to_def by (simp add: x)
  next
    case (2 i)
    then show ?case using par_less [of i] by simp
  qed
  then have l: "heap_up_to compare 0 (Suc ?n) (sift_up_loop compare d ?xs ?n) \<and>
      length (sift_up_loop compare d ?xs ?n) = length ?xs \<and>
      mset (take (Suc ?n) (sift_up_loop compare d ?xs ?n)) = mset (take (Suc ?n) (?xs[?n := d]))"
    using assms(4) len by (intro sift_up_loop_correct) simp_all
  have "mset (take (Suc ?n) ?xs) = add_mset d (heap_mset h)"
    using assms(4) len by (simp add: heap_mset_def take_Suc_conv_app_nth)
  with l assms len show ?thesis
    by (simp add: binaryheap_add_def sift_up_def heap_ok_def heap_mset_def)
qed

lemma binaryheap_first_max:
  assumes "heap_ok h" "bh_compare h = compare" "bh_has_heap_property h" "heap_mset h \<noteq> {#}"
  shows "\<exists>d. binaryheap_first h = Inr d \<and> d \<in># heap_mset h \<and> (\<forall>e \<in># heap_mset h. le e d)"
proof -
  have n: "0 < bh_size h" "bh_size h \<le> length (bh_nodes h)"
    using assms by (auto simp: heap_ok_def heap_mset_def)
  have "le e (bh_nodes h ! 0)" if "e \<in># heap_mset h" for e
  proof -
    have "e \<in> set (take (bh_size h) (bh_nodes h))" using that by (simp add: heap_mset_def)
    then obtain i where "i < bh_size h" "e = bh_nodes h ! i"
      using n(2) by (metis in_set_conv_nth length_take min.absorb2 nth_take)
    then show ?thesis using root_max [of "bh_size h" "bh_nodes h" i] assms by (simp add: heap_ok_def)
  qed
  moreover have "bh_nodes h ! 0 \<in># heap_mset h"
    using n by (auto simp: heap_mset_def in_set_conv_nth intro!: exI [of _ 0])
  ultimately show ?thesis using n(1) assms(3) by (simp add: binaryheap_first_def)
qed

lemma root_replaced:
  assumes "heap_up_to compare 0 n xs" "m \<le> n"
  shows "down_inv compare 0 m 0 (xs[0 := v])"
  unfolding down_inv_def
proof (intro conjI allI impI, goal_cases)
  case (1 i)
  then show ?case using assms unfolding heap_up_to_def by simp
qed simp

lemma binaryheap_remove_first_correct:
  assumes "heap_ok h" "bh_compare h = compare" "bh_has_heap_property h" "heap_mset h \<noteq> {#}"
  shows "\<exists>d h'. binaryheap_remove_first h = Inr (d, h') \<and> heap_ok h' \<and> bh_has_heap_property h' \<and>
    heap_mset h = add_mset d (heap_mset h') \<and> (\<forall>e \<in># heap_mset h. le e d) \<and>
    bh_size h = Suc (bh_size h') \<and> bh_space h' = bh_space h \<and> bh_compare h' = compare"
proof -
  let ?n = "bh_size h" and ?xs = "bh_nodes h"
  have n: "0 < ?n" "?n \<le> length ?xs" "?n \<le> bh_space h" "length ?xs = bh_space h"
      and heap: "heap_up_to compare 0 ?n ?xs"
    using assms by (auto simp: heap_ok_def heap_mset_def)
  have max: "\<forall>e \<in># heap_mset h. le e (?xs ! 0)"
    using binaryheap_first_max [OF assms] n(1) assms(3) by (auto simp: binaryheap_first_def)
  show ?thesis
  proof (cases "?n = 1")
    case True
    then have "heap_mset h = {#?xs ! 0#}"
      using n(2) by (cases ?xs) (auto simp: heap_mset_def)
    with True max assms n show ?thesis
      by (auto simp: binaryheap_remove_first_def heap_ok_def heap_mset_def heap_up_to_def)
  next
    case False
    define m where "m = ?n - 1"
    have m: "0 < m" "m < ?n" "?n = Suc m" using False n(1) by (auto simp: m_def)
    define g where "g = h\<lparr>bh_size := m, bh_nodes := ?xs[0 := ?xs ! m]\<rparr>"
    have g: "bh_size g = m" "bh_nodes g = ?xs[0 := ?xs ! m]" "bh_compare g = compare"
        "bh_space g = bh_space h" "bh_has_heap_property g"
      using assms(2,3) by (simp_all add: g_def)
    have "down_inv compare 0 (bh_size g) 0 (bh_nodes g)"
      unfolding g(1,2) using heap m by (intro root_replaced) auto
    have gl: "m \<le> length (?xs[0 := ?xs ! m])" using m n by simp
    note d = sift_down_correct [OF g(3) \<open>down_inv _ _ _ _ _\<close>, unfolded g(1,2), OF order_refl m(1) gl]
    have "take m (?xs[0 := ?xs ! m]) = (take m ?xs)[0 := ?xs ! m]" by (simp add: take_update_swap)
    then have "add_mset (?xs ! 0) (mset (take m (?xs[0 := ?xs ! m]))) =
        add_mset (?xs ! 0) (add_mset (?xs ! m) (mset (take m ?xs) - {#take m ?xs ! 0#}))"
      using m n by (simp add: mset_update)
    also have "\<dots> = mset (take (Suc m) ?xs)"
    proof -
      have "?xs ! 0 \<in># mset (take m ?xs)"
        using m n by (auto simp: in_set_conv_nth intro!: exI [of _ 0])
      then show ?thesis using m n by (simp add: take_Suc_conv_app_nth)
    qed
    finally have ms: "heap_mset h = add_mset (?xs ! 0) (mset (take m (?xs[0 := ?xs ! m])))"
      using m by (simp add: heap_mset_def)
    have "heap_ok (sift_down g 0)" "heap_mset (sift_down g 0) = mset (take m (?xs[0 := ?xs ! m]))"
        "bh_has_heap_property (sift_down g 0)"
      using d g n m by (simp_all add: heap_ok_def heap_mset_def) (simp add: sift_down_def g)
    moreover have "binaryheap_remove_first h = Inr (?xs ! 0, sift_down g 0)"
      using False n(1) assms(3) by (simp add: binaryheap_remove_first_def Let_def g_def m_def)
    ultimately show ?thesis using ms max d(4,5,6) g(4) m(3) by (intro exI conjI) simp_all
  qed
qed

lemma binaryheap_replace_first_correct:
  assumes "heap_ok h" "bh_compare h = compare" "bh_has_heap_property h" "heap_mset h \<noteq> {#}"
  shows "\<exists>h' r. binaryheap_first h = Inr r \<and> binaryheap_replace_first h d = Inr h' \<and> heap_ok h' \<and>
    bh_has_heap_property h' \<and> heap_mset h' = add_mset d (heap_mset h - {#r#}) \<and>
    bh_size h' = bh_size h \<and> bh_space h' = bh_space h \<and> bh_compare h' = compare"
proof -
  let ?n = "bh_size h" and ?xs = "bh_nodes h"
  have n: "0 < ?n" "?n \<le> length ?xs" "length ?xs = bh_space h"
      and heap: "heap_up_to compare 0 ?n ?xs"
    using assms by (auto simp: heap_ok_def heap_mset_def)
  define g where "g = h\<lparr>bh_nodes := ?xs[0 := d]\<rparr>"
  have g: "bh_size g = ?n" "bh_nodes g = ?xs[0 := d]" "bh_compare g = compare"
      "bh_space g = bh_space h" "bh_has_heap_property g"
    using assms(2,3) by (simp_all add: g_def)
  have gm: "heap_mset g = add_mset d (heap_mset h - {#?xs ! 0#})"
    using n by (simp add: heap_mset_def g take_update_swap mset_update)
  have f: "binaryheap_first h = Inr (?xs ! 0)" using n(1) assms(3) by (simp add: binaryheap_first_def)
  show ?thesis
  proof (cases "?n > 1")
    case True
    have "down_inv compare 0 (bh_size g) 0 (bh_nodes g)"
      unfolding g(1,2) using heap by (intro root_replaced) auto
    have gl: "?n \<le> length (?xs[0 := d])" using n by simp
    note d = sift_down_correct [OF g(3) \<open>down_inv _ _ _ _ _\<close>, unfolded g(1,2), OF order_refl n(1) gl]
    have "bh_has_heap_property (sift_down g 0)" by (simp add: sift_down_def g)
    moreover have "binaryheap_replace_first h d = Inr (sift_down g 0)"
      using True n(1) assms(3) by (simp add: binaryheap_replace_first_def g_def)
    ultimately show ?thesis
      using f d g n gm assms(1) by (auto simp: heap_ok_def heap_mset_def)
  next
    case False
    then have "binaryheap_replace_first h d = Inr g"
      using n(1) assms(3) by (simp add: binaryheap_replace_first_def g_def)
    with False f g n gm assms(1) show ?thesis by (auto simp: heap_ok_def heap_up_to_def)
  qed
qed

end

section \<open>Fresh and emptied heaps\<close>

lemma heap_ok_allocate [simp]: "heap_ok (binaryheap_allocate junk compare)"
    "heap_mset (binaryheap_allocate junk compare) = {#}"
  by (simp_all add: binaryheap_allocate_def heap_ok_def heap_up_to_def heap_mset_def)

lemma heap_reset:
  assumes "heap_ok h"
  shows "heap_ok (binaryheap_reset h)" "heap_mset (binaryheap_reset h) = {#}"
  using assms by (simp_all add: binaryheap_reset_def heap_ok_def heap_up_to_def heap_mset_def)

lemma add_unordered_ok:
  assumes "heap_ok h" "bh_size h < bh_space h"
  shows "\<exists>h'. binaryheap_add_unordered h d = Inr h' \<and> heap_ok h' \<and> \<not> bh_has_heap_property h' \<and>
    heap_mset h' = add_mset d (heap_mset h) \<and> bh_size h' = Suc (bh_size h) \<and> bh_space h' = bh_space h \<and>
    bh_compare h' = bh_compare h"
  using assms by (simp add: binaryheap_add_unordered_def heap_ok_def heap_mset_def take_Suc_conv_app_nth)

section \<open>The comparison of the reorder buffer\<close>

text \<open>
  \<open>ReorderBufferIterCompare\<close> of \<open>replication/logical/reorderbuffer.c\<close>: the nodes are offsets in
  \<open>entries\<close>, of which only the positions matter, and the smallest position is the greatest node.
\<close>

definition ReorderBufferIterCompare :: "uint64 list \<Rightarrow> nat \<Rightarrow> nat \<Rightarrow> int" where
  "ReorderBufferIterCompare lsns a b =
     (let pos_a = lsns ! a; pos_b = lsns ! b in
      if pos_a < pos_b then 1 else if pos_a = pos_b then 0 else -1)"

interpretation iter: heap_order "ReorderBufferIterCompare lsns"
  by unfold_locales (auto simp: ReorderBufferIterCompare_def Let_def split: if_splits)

section \<open>What the heap promises\<close>

text \<open>
  C23: The three ways to put a node in. Adding, in order or not, gives a well-formed heap with one
  more copy of the node, or the error "out of binary heap slots" exactly when the heap is full; the
  ordered form keeps the heap property, and building establishes it with the same nodes.
\<close>

theorem binaryheap_insertion:
  assumes "heap_order (bh_compare h)" "heap_ok h"
  shows "(case binaryheap_add_unordered h d of
       Inl e \<Rightarrow> e = ERROR ''out of binary heap slots'' \<and> size (heap_mset h) = bh_space h
     | Inr h' \<Rightarrow> size (heap_mset h) < bh_space h \<and> heap_ok h' \<and> heap_mset h' = add_mset d (heap_mset h)) \<and>
    (bh_has_heap_property h \<longrightarrow> (case binaryheap_add h d of
       Inl e \<Rightarrow> e = ERROR ''out of binary heap slots'' \<and> size (heap_mset h) = bh_space h
     | Inr h' \<Rightarrow> size (heap_mset h) < bh_space h \<and> heap_ok h' \<and> bh_has_heap_property h' \<and>
         heap_mset h' = add_mset d (heap_mset h))) \<and>
    heap_ok (binaryheap_build h) \<and> bh_has_heap_property (binaryheap_build h) \<and>
    heap_mset (binaryheap_build h) = heap_mset h"
proof -
  have sz: "size (heap_mset h) = bh_size h" using assms(2) by (simp add: heap_mset_def heap_ok_def)
  show ?thesis
  proof (cases "bh_size h < bh_space h")
    case True
    then show ?thesis
      using add_unordered_ok [OF assms(2) True, of d]
        heap_order.binaryheap_add_correct [OF assms refl _ True, of d]
        heap_order.binaryheap_build_correct(1-3) [OF assms refl] sz by auto
  next
    case False
    then have "bh_size h = bh_space h" using assms(2) by (simp add: heap_ok_def)
    then show ?thesis
      using heap_order.binaryheap_build_correct(1-3) [OF assms refl] sz
      by (simp add: binaryheap_add_unordered_def binaryheap_add_def)
  qed
qed

theorem binaryheap_insertion_witness:
  "let h = binaryheap_allocate [0, 0] (ReorderBufferIterCompare [30, 10, 20]) in
   heap_order (bh_compare h) \<and> heap_ok h \<and>
   (case binaryheap_add_unordered h 2 of Inl e \<Rightarrow> False | Inr h' \<Rightarrow> heap_mset h' = {#2#})"
proof -
  let ?h = "binaryheap_allocate [0, 0] (ReorderBufferIterCompare [30, 10, 20])"
  have "heap_order (bh_compare ?h)" by (simp add: binaryheap_allocate_def iter.heap_order_axioms)
  moreover have "bh_space ?h = 2" by (simp add: binaryheap_allocate_def)
  ultimately show ?thesis using binaryheap_insertion [of ?h 2] unfolding Let_def
    by (cases "binaryheap_add_unordered ?h 2") simp_all
qed

text \<open>
  C24: On a built heap that is not empty, \<open>binaryheap_first\<close> returns a node no other node exceeds,
  \<open>binaryheap_remove_first\<close> returns the same node and a built heap of the others, and
  \<open>binaryheap_replace_first\<close> puts the new node in its place. On an empty heap none of them may be
  called.
\<close>

theorem binaryheap_extraction:
  assumes "heap_order (bh_compare h)" "heap_ok h" "bh_has_heap_property h"
  shows "if heap_mset h = {#}
    then binaryheap_first h = Inl Undefined_Behaviour \<and> binaryheap_remove_first h = Inl Undefined_Behaviour \<and>
      binaryheap_replace_first h d = Inl Undefined_Behaviour
    else \<exists>r h' h''. binaryheap_first h = Inr r \<and> (\<forall>e \<in># heap_mset h. bh_compare h e r \<le> 0) \<and>
      binaryheap_remove_first h = Inr (r, h') \<and> heap_ok h' \<and> bh_has_heap_property h' \<and>
      heap_mset h = add_mset r (heap_mset h') \<and>
      binaryheap_replace_first h d = Inr h'' \<and> heap_ok h'' \<and> bh_has_heap_property h'' \<and>
      heap_mset h'' = add_mset d (heap_mset h')"
proof (cases "heap_mset h = {#}")
  case True
  then have "bh_size h = 0" using assms(2) by (auto simp: heap_mset_def heap_ok_def)
  with True show ?thesis
    by (simp add: binaryheap_first_def binaryheap_remove_first_def binaryheap_replace_first_def)
next
  case False
  obtain r h' where r: "binaryheap_remove_first h = Inr (r, h')" "heap_ok h'" "bh_has_heap_property h'"
      "heap_mset h = add_mset r (heap_mset h')" "\<forall>e \<in># heap_mset h. bh_compare h e r \<le> 0"
    using heap_order.binaryheap_remove_first_correct [OF assms(1,2) refl assms(3) False] by blast
  obtain s h'' where s: "binaryheap_first h = Inr s" "binaryheap_replace_first h d = Inr h''"
      "heap_ok h''" "bh_has_heap_property h''" "heap_mset h'' = add_mset d (heap_mset h - {#s#})"
    using heap_order.binaryheap_replace_first_correct [OF assms(1,2) refl assms(3) False, of d] by blast
  have "r = s"
    using r(1) s(1) by (auto simp: binaryheap_remove_first_def binaryheap_first_def Let_def split: if_splits)
  then show ?thesis using False r s by simp
qed

theorem binaryheap_extraction_witness:
  "let h = binaryheap_build (binaryheap_allocate [] (ReorderBufferIterCompare [30, 10, 20])
       \<lparr>bh_size := 3, bh_space := 3, bh_has_heap_property := False, bh_nodes := [0, 1, 2]\<rparr>) in
   heap_order (bh_compare h) \<and> heap_ok h \<and> bh_has_heap_property h \<and> binaryheap_first h = Inr 1 \<and>
   (\<exists>h'. binaryheap_remove_first h = Inr (1, h') \<and> heap_mset h = add_mset 1 (heap_mset h'))"
proof -
  let ?g = "binaryheap_allocate [] (ReorderBufferIterCompare [30, 10, 20])
       \<lparr>bh_size := 3, bh_space := 3, bh_has_heap_property := False, bh_nodes := [0, 1, 2]\<rparr>"
  let ?h = "binaryheap_build ?g"
  have g: "heap_ok ?g" "bh_compare ?g = ReorderBufferIterCompare [30, 10, 20]"
    by (simp_all add: heap_ok_def binaryheap_allocate_def)
  have h: "heap_ok ?h" "bh_has_heap_property ?h" "bh_compare ?h = ReorderBufferIterCompare [30, 10, 20]"
      "heap_mset ?h = {#0, 1, 2#}"
    using iter.binaryheap_build_correct [OF g] by (simp_all add: heap_mset_def)
  then have o: "heap_order (bh_compare ?h)" by (simp add: iter.heap_order_axioms)
  have first: "binaryheap_first ?h = Inr 1" by code_simp
  show ?thesis using binaryheap_extraction [OF o h(1,2), of 0] h o first by (auto simp: Let_def)
qed

end
