(* ===== verification/Pgarch.thy ===== *)
theory Pgarch
  imports Binaryheap
begin

text \<open>
  The choice of the next file by the archiver, \<open>pgarch_readyXlog\<close> of
  \<open>src/backend/postmaster/pgarch.c\<close>, a client of the binary heap.  What \<open>stat\<close>, \<open>opendir\<close> and
  \<open>readdir\<close> report are arguments, failures included.  The lemmas show that the bounded heap keeps the
  files of highest priority of a directory of any size, that no use of the heap can fail, and which
  failures of the file system end a call.  An error ends the archiver process, so a failed call has
  no next state.
\<close>

section \<open>Strings of C\<close>

text \<open>
  \<open>strcmp\<close> compares the bytes as unsigned numbers; only its sign is specified. \<open>strspn\<close> is the length
  of the longest prefix made of accepted characters.
\<close>

fun strcmp :: "string \<Rightarrow> string \<Rightarrow> int" where
  "strcmp [] [] = 0"
| "strcmp [] (b # bs) = -1"
| "strcmp (a # as) [] = 1"
| "strcmp (a # as) (b # bs) =
     (if a = b then strcmp as bs else if (of_char a :: nat) < of_char b then -1 else 1)"

definition strspn :: "string \<Rightarrow> string \<Rightarrow> nat" where
  "strspn s accept = length (takeWhile (\<lambda>c. c \<in> set accept) s)"

lemma strcmp_swap: "strcmp b a = - strcmp a b"
  by (induction a b rule: strcmp.induct) auto

lemma strcmp_zero [simp]: "strcmp a b = 0 \<longleftrightarrow> a = b"
  by (induction a b rule: strcmp.induct) auto

lemma strcmp_trans: "strcmp a b \<le> 0 \<Longrightarrow> strcmp b c \<le> 0 \<Longrightarrow> strcmp a c \<le> 0"
proof (induction a c arbitrary: b rule: strcmp.induct)
  case (4 x xs z zs)
  obtain y ys where b: "b = y # ys" using 4 by (cases b) auto
  consider "x = y" "y = z" | "x = y" "(of_char y :: nat) < of_char z" "y \<noteq> z"
    | "(of_char x :: nat) < of_char y" "x \<noteq> y" "y = z"
    | "(of_char x :: nat) < of_char y" "(of_char y :: nat) < of_char z"
    using 4(2,3) b by (auto split: if_splits)
  then show ?case using 4 b by cases auto
next
  case (3 x xs)
  then show ?case by (cases b) auto
qed simp_all

section \<open>The archiver's files\<close>

text \<open>
  \<open>IsTLHistoryFileName\<close> of \<open>access/xlog_internal.h\<close> and \<open>ready_file_comparator\<close> of
  \<open>postmaster/pgarch.c\<close>.
\<close>

definition IsTLHistoryFileName :: "string \<Rightarrow> bool" where
  "IsTLHistoryFileName fname \<longleftrightarrow>
     length fname = 8 + length ''.history'' \<and> strspn fname ''0123456789ABCDEF'' = 8 \<and>
     strcmp (drop 8 fname) ''.history'' = 0"

definition ready_file_comparator :: "string \<Rightarrow> string \<Rightarrow> int" where
  "ready_file_comparator a_str b_str =
     (let a_history = IsTLHistoryFileName a_str; b_history = IsTLHistoryFileName b_str in
      if a_history \<noteq> b_history then if a_history then -1 else 1 else strcmp a_str b_str)"

interpretation ready: heap_order ready_file_comparator
proof unfold_locales
  fix a b c
  show "0 < ready_file_comparator a b \<Longrightarrow> ready_file_comparator b a \<le> 0"
    "ready_file_comparator a b < 0 \<Longrightarrow> 0 \<le> ready_file_comparator b a"
    "0 \<le> ready_file_comparator a b \<Longrightarrow> ready_file_comparator b a \<le> 0"
    using strcmp_swap [of a b] by (auto simp: ready_file_comparator_def Let_def split: if_splits)
  show "ready_file_comparator a b \<le> 0 \<Longrightarrow> ready_file_comparator b c \<le> 0 \<Longrightarrow> ready_file_comparator a c \<le> 0"
    using strcmp_trans [of a b c] by (auto simp: ready_file_comparator_def Let_def split: if_splits)
qed

definition NUM_FILES_PER_DIRECTORY_SCAN :: nat where
  "NUM_FILES_PER_DIRECTORY_SCAN = 64"

definition MIN_XFN_CHARS :: int where
  "MIN_XFN_CHARS = 16"

definition MAX_XFN_CHARS :: int where
  "MAX_XFN_CHARS = 40"

definition VALID_XFN_CHARS :: string where
  "VALID_XFN_CHARS = ''0123456789ABCDEF.history.backup.partial''"

text \<open>
  The state of the archiver. A node of the heap and an entry of \<open>arch_files\<close> point to a buffer of
  \<open>arch_filenames\<close>; each buffer has one pointer, since a name is stored in an unused buffer or in the
  one whose pointer has just left the heap, so the model has the name in the pointer's place.
\<close>

record arch_files_state =
  arch_heap :: "string binaryheap"
  arch_files_size :: nat
  arch_files :: "string list"

text \<open>What \<open>stat\<close> says of the status file of a name.\<close>

datatype stat_result = Stat_OK | Stat_ENOENT | Stat_Failed

text \<open>
  The loop over the stored names: it takes them from the end of the array while their status files
  are gone.
\<close>

fun next_stored :: "(string \<Rightarrow> stat_result) \<Rightarrow> string list \<Rightarrow> nat \<Rightarrow> (string option \<times> nat) result" where
  "next_stored stat files 0 = Inr (None, 0)"
| "next_stored stat files (Suc n) =
     (case stat (files ! n) of
        Stat_OK \<Rightarrow> Inr (Some (files ! n), n)
      | Stat_ENOENT \<Rightarrow> next_stored stat files n
      | Stat_Failed \<Rightarrow> Inl (ERROR ''could not stat file''))"

text \<open>The tests on a directory entry: the name without its suffix when the entry counts.\<close>

definition ready_basename :: "string \<Rightarrow> string option" where
  "ready_basename d_name =
     (let basenamelen = int (length d_name) - 6 in
      if basenamelen < MIN_XFN_CHARS \<or> basenamelen > MAX_XFN_CHARS then None
      else if int (strspn d_name VALID_XFN_CHARS) < basenamelen then None
      else if strcmp (drop (nat basenamelen) d_name) ''.ready'' \<noteq> 0 then None
      else Some (take (nat basenamelen) d_name))"

text \<open>What the scan does with a name: the heap keeps the names of highest priority seen so far.\<close>

definition store_ready :: "string \<Rightarrow> string binaryheap \<Rightarrow> string binaryheap result" where
  "store_ready basename heap =
     (if bh_size heap < NUM_FILES_PER_DIRECTORY_SCAN then
        case binaryheap_add_unordered heap basename of
          Inl e \<Rightarrow> Inl e
        | Inr heap \<Rightarrow> Inr (if bh_size heap = NUM_FILES_PER_DIRECTORY_SCAN then binaryheap_build heap else heap)
      else case binaryheap_first heap of
        Inl e \<Rightarrow> Inl e
      | Inr first \<Rightarrow>
          if ready_file_comparator first basename > 0 then
            case binaryheap_remove_first heap of
              Inl e \<Rightarrow> Inl e
            | Inr (arch_file, heap) \<Rightarrow> binaryheap_add heap basename
          else Inr heap)"

definition scan_entry :: "string \<Rightarrow> string binaryheap \<Rightarrow> string binaryheap result" where
  "scan_entry d_name heap =
     (case ready_basename d_name of None \<Rightarrow> Inr heap | Some basename \<Rightarrow> store_ready basename heap)"

text \<open>
  Reading a directory (\<open>storage/file/fd.c\<close>).  A \<open>DIR\<close> has the entries that \<open>readdir\<close> will still
  return and whether it then reports an error or the end of the directory.  \<open>opendir_result\<close> is
  what \<open>AllocateDir\<close> meets: no free descriptor slot, a failure of \<open>opendir\<close> that remains after
  closing other files, or an open directory.
\<close>

datatype DIR = DIR (dir_entries: "string list") (dir_fails: bool)

datatype opendir_result = No_Descriptor | Opendir_Failed | Opened DIR

definition AllocateDir :: "opendir_result \<Rightarrow> DIR option result" where
  "AllocateDir opendir =
     (case opendir of
        No_Descriptor \<Rightarrow> Inl (ERROR ''exceeded maxAllocatedDescs while trying to open directory'')
      | Opendir_Failed \<Rightarrow> Inr None
      | Opened dir \<Rightarrow> Inr (Some dir))"

definition ReadDir :: "DIR option \<Rightarrow> (string option \<times> DIR option) result" where
  "ReadDir dir =
     (case dir of
        None \<Rightarrow> Inl (ERROR ''could not open directory'')
      | Some d \<Rightarrow>
          (case dir_entries d of
             dent # rest \<Rightarrow> Inr (Some dent, Some (DIR rest (dir_fails d)))
           | [] \<Rightarrow> if dir_fails d then Inl (ERROR ''could not read directory'') else Inr (None, dir)))"

text \<open>\<open>while ((rlde = ReadDir(rldir, XLogArchiveStatusDir)) != NULL)\<close>\<close>

function scan_dir :: "DIR option \<Rightarrow> string binaryheap \<Rightarrow> string binaryheap result" where
  "scan_dir dir heap =
     (case ReadDir dir of
        Inl e \<Rightarrow> Inl e
      | Inr (None, dir) \<Rightarrow> Inr heap
      | Inr (Some d_name, dir) \<Rightarrow>
          (case scan_entry d_name heap of Inl e \<Rightarrow> Inl e | Inr heap \<Rightarrow> scan_dir dir heap))"
  by pat_completeness auto
termination
  by (relation "measure (\<lambda>(dir, heap). case dir of None \<Rightarrow> 0 | Some d \<Rightarrow> length (dir_entries d))")
    (auto simp: ReadDir_def split: option.splits list.splits if_splits)

declare scan_dir.simps [simp del]

definition scan_status_dir :: "opendir_result \<Rightarrow> string binaryheap \<Rightarrow> string binaryheap result" where
  "scan_status_dir opendir heap =
     (case AllocateDir opendir of Inl e \<Rightarrow> Inl e | Inr rldir \<Rightarrow> scan_dir rldir heap)"

lemma scan_dir_entries:
  "scan_dir (Some (DIR entries fails)) heap =
     (case fold_result scan_entry entries heap of
        Inl e \<Rightarrow> Inl e
      | Inr heap \<Rightarrow> if fails then Inl (ERROR ''could not read directory'') else Inr heap)"
proof (induction entries arbitrary: heap)
  case Nil
  then show ?case by (subst scan_dir.simps) (simp add: ReadDir_def)
next
  case (Cons d_name entries)
  then show ?case
    by (subst scan_dir.simps, cases "scan_entry d_name heap") (simp_all add: ReadDir_def)
qed

text \<open>The loop that empties the heap into \<open>arch_files\<close>: the entries from \<open>i\<close> on, \<open>k\<close> of them.\<close>

fun fill_arch_files :: "nat \<Rightarrow> nat \<Rightarrow> string list \<Rightarrow> string binaryheap \<Rightarrow> (string list \<times> string binaryheap) result" where
  "fill_arch_files 0 i files heap = Inr (files, heap)"
| "fill_arch_files (Suc k) i files heap =
     (case binaryheap_remove_first heap of
        Inl e \<Rightarrow> Inl e
      | Inr (file, heap) \<Rightarrow> fill_arch_files k (i + 1) (files[i := file]) heap)"

text \<open>
  \<open>pgarch_readyXlog\<close>: the name to archive, if there is one. \<open>stat\<close> answers for the status files,
  \<open>opendir\<close> for the status directory, and \<open>force_dir_scan\<close> is the flag in shared memory.
\<close>

definition pgarch_readyXlog :: "(string \<Rightarrow> stat_result) \<Rightarrow> opendir_result \<Rightarrow> bool \<Rightarrow> arch_files_state \<Rightarrow>
    (string option \<times> arch_files_state) result" where
  "pgarch_readyXlog stat opendir force_dir_scan st =
     (let st = (if force_dir_scan then st\<lparr>arch_files_size := 0\<rparr> else st) in
      case next_stored stat (arch_files st) (arch_files_size st) of
        Inl e \<Rightarrow> Inl e
      | Inr (Some xlog, n) \<Rightarrow> Inr (Some xlog, st\<lparr>arch_files_size := n\<rparr>)
      | Inr (None, n) \<Rightarrow>
          let st = st\<lparr>arch_files_size := n\<rparr> in
          case scan_status_dir opendir (binaryheap_reset (arch_heap st)) of
            Inl e \<Rightarrow> Inl e
          | Inr heap \<Rightarrow>
              if bh_size heap = 0 then Inr (None, st\<lparr>arch_heap := heap\<rparr>)
              else
                let heap = (if bh_size heap < NUM_FILES_PER_DIRECTORY_SCAN then binaryheap_build heap else heap);
                    sz = bh_size heap
                in case fill_arch_files sz 0 (arch_files st) heap of
                     Inl e \<Rightarrow> Inl e
                   | Inr (files, heap) \<Rightarrow>
                       Inr (Some (files ! (sz - 1)),
                            st\<lparr>arch_heap := heap, arch_files_size := sz - 1, arch_files := files\<rparr>))"

text \<open>The workspace \<open>PgArchiverMain\<close> creates; \<open>junk\<close> and \<open>junk'\<close> are the contents of fresh memory.\<close>

definition init_arch_files :: "string list \<Rightarrow> string list \<Rightarrow> arch_files_state" where
  "init_arch_files junk junk' =
     \<lparr>arch_heap = binaryheap_allocate junk ready_file_comparator, arch_files_size = 0, arch_files = junk'\<rparr>"

definition arch_ok :: "arch_files_state \<Rightarrow> bool" where
  "arch_ok st \<longleftrightarrow> heap_ok (arch_heap st) \<and> bh_compare (arch_heap st) = ready_file_comparator \<and>
     bh_space (arch_heap st) = NUM_FILES_PER_DIRECTORY_SCAN \<and>
     length (arch_files st) = NUM_FILES_PER_DIRECTORY_SCAN \<and>
     arch_files_size st \<le> NUM_FILES_PER_DIRECTORY_SCAN"

section \<open>The scan keeps the files of highest priority\<close>

text \<open>The heap after the names \<open>seen\<close>: what it holds precedes what it dropped.\<close>

definition scan_inv :: "string multiset \<Rightarrow> string binaryheap \<Rightarrow> bool" where
  "scan_inv seen heap \<longleftrightarrow> heap_ok heap \<and> bh_compare heap = ready_file_comparator \<and>
     bh_space heap = NUM_FILES_PER_DIRECTORY_SCAN \<and>
     bh_size heap = min NUM_FILES_PER_DIRECTORY_SCAN (size seen) \<and>
     (NUM_FILES_PER_DIRECTORY_SCAN \<le> size seen \<longrightarrow> bh_has_heap_property heap) \<and>
     (\<exists>rest. seen = heap_mset heap + rest \<and>
        (\<forall>x \<in># heap_mset heap. \<forall>y \<in># rest. ready_file_comparator x y \<le> 0))"

lemma heap_mset_size: "heap_ok h \<Longrightarrow> size (heap_mset h) = bh_size h"
  by (simp add: heap_ok_def heap_mset_def)

lemma scan_inv_not_full:
  assumes "scan_inv seen heap" "size seen < NUM_FILES_PER_DIRECTORY_SCAN"
  shows "seen = heap_mset heap"
proof -
  obtain rest where r: "seen = heap_mset heap + rest" using assms(1) by (auto simp: scan_inv_def)
  have "size (heap_mset heap) = size seen"
    using assms heap_mset_size [of heap] by (simp add: scan_inv_def)
  with r show ?thesis by simp
qed

lemma store_ready_room:
  assumes inv: "scan_inv seen heap" and room: "size seen < NUM_FILES_PER_DIRECTORY_SCAN"
  shows "\<exists>heap'. store_ready f heap = Inr heap' \<and> scan_inv (add_mset f seen) heap'"
proof -
  have h: "heap_ok heap" "bh_compare heap = ready_file_comparator"
      "bh_space heap = NUM_FILES_PER_DIRECTORY_SCAN" "bh_size heap = size seen"
    using inv room by (simp_all add: scan_inv_def)
  have sm: "bh_size heap < bh_space heap" using h room by simp
  obtain g where g: "binaryheap_add_unordered heap f = Inr g" "heap_ok g"
      "heap_mset g = add_mset f seen" "bh_size g = Suc (size seen)"
      "bh_space g = NUM_FILES_PER_DIRECTORY_SCAN" "bh_compare g = ready_file_comparator"
    using add_unordered_ok [OF h(1) sm, of f] scan_inv_not_full [OF inv room] h by auto
  note b = ready.binaryheap_build_correct [OF g(2,6)]
  show ?thesis
    using g b room h(4) by (simp add: store_ready_def scan_inv_def)
qed

lemma store_ready_full:
  assumes inv: "scan_inv seen heap" and full: "\<not> size seen < NUM_FILES_PER_DIRECTORY_SCAN"
  shows "\<exists>heap'. store_ready f heap = Inr heap' \<and> scan_inv (add_mset f seen) heap'"
proof -
  let ?le = "\<lambda>a b. ready_file_comparator a b \<le> 0"
  obtain rest where h: "heap_ok heap" "bh_compare heap = ready_file_comparator" "bh_has_heap_property heap"
      "bh_space heap = NUM_FILES_PER_DIRECTORY_SCAN" "bh_size heap = NUM_FILES_PER_DIRECTORY_SCAN"
      and rest: "seen = heap_mset heap + rest" "\<forall>x \<in># heap_mset heap. \<forall>y \<in># rest. ?le x y"
    using inv full by (auto simp: scan_inv_def)
  have ne: "heap_mset heap \<noteq> {#}"
    using heap_mset_size [OF h(1)] h(5) by (auto simp: NUM_FILES_PER_DIRECTORY_SCAN_def)
  obtain r g where r: "binaryheap_remove_first heap = Inr (r, g)" "heap_ok g" "bh_has_heap_property g"
      "heap_mset heap = add_mset r (heap_mset g)" "\<forall>e \<in># heap_mset heap. ?le e r"
      "bh_size heap = Suc (bh_size g)" "bh_space g = bh_space heap" "bh_compare g = ready_file_comparator"
    using ready.binaryheap_remove_first_correct [OF h(1,2,3) ne] by blast
  have first: "binaryheap_first heap = Inr r"
    using r(1) by (auto simp: binaryheap_remove_first_def binaryheap_first_def Let_def split: if_splits)
  show ?thesis
  proof (cases "ready_file_comparator r f > 0")
    case True
    have room: "bh_size g < bh_space g" using r h by simp
    obtain k where k: "binaryheap_add g f = Inr k" "heap_ok k" "bh_has_heap_property k"
        "heap_mset k = add_mset f (heap_mset g)" "bh_size k = Suc (bh_size g)" "bh_space k = bh_space g"
        "bh_compare k = ready_file_comparator"
      using ready.binaryheap_add_correct [OF r(2,8,3) room, of f] by blast
    have fr: "?le f r" using True ready.compare_total(1) by blast
    have "?le f y" if "y \<in># rest" for y
      using ready.compare_trans [OF fr, of y] rest(2) r(4) that by simp
    then have "\<forall>x \<in># heap_mset k. \<forall>y \<in># add_mset r rest. ?le x y"
      using k(4) r(4,5) rest(2) fr by simp
    moreover have "add_mset f seen = heap_mset k + add_mset r rest" using rest(1) k(4) r(4) by simp
    ultimately have "scan_inv (add_mset f seen) k"
      using k r h full unfolding scan_inv_def by (intro conjI exI [of _ "add_mset r rest"]) auto
    then show ?thesis using True first r(1) k(1) h(5) by (simp add: store_ready_def)
  next
    case False
    then have "?le r f" by simp
    then have "\<forall>x \<in># heap_mset heap. \<forall>y \<in># add_mset f rest. ?le x y"
      using r(5) rest(2) ready.compare_trans by auto
    then have "scan_inv (add_mset f seen) heap"
      using h full rest(1) unfolding scan_inv_def by (intro conjI exI [of _ "add_mset f rest"]) auto
    then show ?thesis using False first h(5) by (simp add: store_ready_def)
  qed
qed

lemma scan_correct:
  assumes "scan_inv seen heap"
  shows "\<exists>heap'. fold_result scan_entry entries heap = Inr heap' \<and>
    scan_inv (seen + mset (List.map_filter ready_basename entries)) heap'"
  using assms
proof (induction entries arbitrary: seen heap)
  case Nil
  then show ?case by simp
next
  case (Cons x xs)
  show ?case
  proof (cases "ready_basename x")
    case None
    then show ?thesis using Cons by (simp add: scan_entry_def)
  next
    case (Some f)
    obtain heap' where "store_ready f heap = Inr heap'" "scan_inv (add_mset f seen) heap'"
      using store_ready_room [OF Cons.prems] store_ready_full [OF Cons.prems] by blast
    then show ?thesis using Cons.IH [of "add_mset f seen" heap'] Some
      by (simp add: scan_entry_def)
  qed
qed

section \<open>The stored files\<close>

lemma fill_arch_files_correct:
  assumes "heap_ok h" "bh_compare h = ready_file_comparator" "bh_has_heap_property h" "bh_size h = k"
    "i + k \<le> length files"
  shows "\<exists>out h'. fill_arch_files k i files h = Inr (take i files @ out @ drop (i + k) files, h') \<and>
    mset out = heap_mset h \<and> sorted_wrt (\<lambda>a b. ready_file_comparator b a \<le> 0) out \<and>
    heap_ok h' \<and> bh_compare h' = ready_file_comparator \<and> bh_space h' = bh_space h"
  using assms
proof (induction k arbitrary: i files h)
  case 0
  then show ?case by (simp add: heap_mset_def)
next
  case (Suc k)
  have ne: "heap_mset h \<noteq> {#}" using Suc.prems(1,4) heap_mset_size by fastforce
  obtain r g where r: "binaryheap_remove_first h = Inr (r, g)" "heap_ok g" "bh_has_heap_property g"
      "heap_mset h = add_mset r (heap_mset g)" "\<forall>e \<in># heap_mset h. ready_file_comparator e r \<le> 0"
      "bh_size h = Suc (bh_size g)" "bh_space g = bh_space h" "bh_compare g = ready_file_comparator"
    using ready.binaryheap_remove_first_correct [OF Suc.prems(1-3) ne] by blast
  obtain out h' where o: "fill_arch_files k (i + 1) (files[i := r]) g =
        Inr (take (i + 1) (files[i := r]) @ out @ drop (i + 1 + k) (files[i := r]), h')"
      "mset out = heap_mset g" "sorted_wrt (\<lambda>a b. ready_file_comparator b a \<le> 0) out"
      "heap_ok h'" "bh_compare h' = ready_file_comparator" "bh_space h' = bh_space g"
    using Suc.IH [of g "i + 1" "files[i := r]"] r Suc.prems(4,5) by auto
  have "take (i + 1) (files[i := r]) = take i files @ [r]" "drop (i + 1 + k) (files[i := r]) = drop (i + Suc k) files"
    using Suc.prems(5) by (simp_all add: take_Suc_conv_app_nth)
  moreover have "\<forall>e \<in> set out. ready_file_comparator e r \<le> 0"
    using r(5) unfolding r(4) by (simp flip: o(2))
  ultimately show ?case using r o by (intro exI [of _ "r # out"] exI [of _ h']) simp
qed

lemma next_stored_cases:
  "case next_stored stat files n of
     Inl e \<Rightarrow> e = ERROR ''could not stat file'' \<and> (\<exists>i < n. stat (files ! i) = Stat_Failed)
   | Inr (None, m) \<Rightarrow> m = 0 \<and> (\<forall>i < n. stat (files ! i) = Stat_ENOENT)
   | Inr (Some f, m) \<Rightarrow> m < n \<and> f = files ! m \<and> stat f = Stat_OK"
  by (induction n) (auto split: stat_result.split sum.splits prod.splits option.splits simp: less_Suc_eq)

text \<open>The specification of a directory scan.\<close>

definition ready_names :: "string list \<Rightarrow> string list" where
  "ready_names entries = List.map_filter ready_basename entries"

definition scan_spec :: "string list \<Rightarrow> string option \<Rightarrow> arch_files_state \<Rightarrow> bool" where
  "scan_spec entries x st' \<longleftrightarrow> (\<exists>kept rest.
     mset (ready_names entries) = mset kept + rest \<and>
     length kept = min NUM_FILES_PER_DIRECTORY_SCAN (length (ready_names entries)) \<and>
     sorted_wrt (\<lambda>a b. ready_file_comparator b a \<le> 0) kept \<and>
     (\<forall>a \<in> set kept. \<forall>b \<in># rest. ready_file_comparator a b \<le> 0) \<and>
     x = (if kept = [] then None else Some (last kept)) \<and>
     take (arch_files_size st') (arch_files st') = butlast kept \<and>
     arch_files_size st' = length kept - 1)"

lemma readyXlog_none:
  assumes "next_stored stat (arch_files st) (if force then 0 else arch_files_size st) = Inr (None, 0)"
    "scan_status_dir opendir (binaryheap_reset (arch_heap st)) = Inr heap"
  shows "pgarch_readyXlog stat opendir force st =
    (let st = st\<lparr>arch_files_size := 0\<rparr> in
     if bh_size heap = 0 then Inr (None, st\<lparr>arch_heap := heap\<rparr>)
     else
       let heap = (if bh_size heap < NUM_FILES_PER_DIRECTORY_SCAN then binaryheap_build heap else heap);
           sz = bh_size heap
       in case fill_arch_files sz 0 (arch_files st) heap of
            Inl e \<Rightarrow> Inl e
          | Inr (files, heap) \<Rightarrow>
              Inr (Some (files ! (sz - 1)),
                   st\<lparr>arch_heap := heap, arch_files_size := sz - 1, arch_files := files\<rparr>))"
  using assms by (cases force) (simp_all add: pgarch_readyXlog_def Let_def)

lemma scan_inv_start: "arch_ok st \<Longrightarrow> scan_inv {#} (binaryheap_reset (arch_heap st))"
  using heap_reset [of "arch_heap st"]
  by (simp add: scan_inv_def arch_ok_def) (simp add: binaryheap_reset_def NUM_FILES_PER_DIRECTORY_SCAN_def)

lemma readyXlog_scan:
  assumes ok: "arch_ok st"
    and none: "next_stored stat (arch_files st) (if force then 0 else arch_files_size st) = Inr (None, 0)"
  shows "\<exists>x st'. pgarch_readyXlog stat (Opened (DIR entries False)) force st = Inr (x, st') \<and> scan_spec entries x st' \<and> arch_ok st'"
proof -
  let ?N = NUM_FILES_PER_DIRECTORY_SCAN
  from scan_correct [OF scan_inv_start [OF ok], of entries] obtain heap where
    fold: "scan_status_dir (Opened (DIR entries False)) (binaryheap_reset (arch_heap st)) = Inr heap"
    and inv: "scan_inv (mset (ready_names entries)) heap"
    by (auto simp: ready_names_def scan_status_dir_def AllocateDir_def scan_dir_entries)
  obtain rest where h: "heap_ok heap" "bh_compare heap = ready_file_comparator" "bh_space heap = ?N"
      "bh_size heap = min ?N (length (ready_names entries))"
      "\<not> bh_size heap < ?N \<Longrightarrow> bh_has_heap_property heap"
      and rest: "mset (ready_names entries) = heap_mset heap + rest"
        "\<forall>x \<in># heap_mset heap. \<forall>y \<in># rest. ready_file_comparator x y \<le> 0"
    using inv by (auto simp: scan_inv_def)
  have files: "length (arch_files st) = ?N" using ok by (simp add: arch_ok_def)
  show ?thesis
  proof (cases "bh_size heap = 0")
    case True
    then have "ready_names entries = []" using h(4) by (auto simp: NUM_FILES_PER_DIRECTORY_SCAN_def min_def split: if_splits)
    then show ?thesis
      using True readyXlog_none [OF none fold] ok h(1-3) by (simp add: Let_def scan_spec_def arch_ok_def)
  next
    case False
    define b where "b = (if bh_size heap < ?N then binaryheap_build heap else heap)"
    have b: "heap_ok b" "bh_compare b = ready_file_comparator" "bh_has_heap_property b" "bh_space b = ?N"
        "bh_size b = bh_size heap" "heap_mset b = heap_mset heap"
      using ready.binaryheap_build_correct [OF h(1,2)] h by (auto simp: b_def)
    have "0 + bh_size b \<le> length (arch_files st)" using h(4) files b(5) by simp
    from fill_arch_files_correct [OF b(1-3) refl this] obtain out h' where
      fill: "fill_arch_files (bh_size b) 0 (arch_files st) b = Inr (out @ drop (bh_size b) (arch_files st), h')"
      and out: "mset out = heap_mset heap" "sorted_wrt (\<lambda>a b. ready_file_comparator b a \<le> 0) out"
      and h': "heap_ok h'" "bh_compare h' = ready_file_comparator" "bh_space h' = ?N"
      using b by auto
    have len: "length out = bh_size b"
      using out(1) heap_mset_size [OF h(1)] b(5) by (metis size_mset)
    have ne: "out \<noteq> []" using len False b(5) by auto
    let ?st = "st\<lparr>arch_heap := h', arch_files_size := bh_size b - 1, arch_files := out @ drop (bh_size b) (arch_files st)\<rparr>"
    have run: "pgarch_readyXlog stat (Opened (DIR entries False)) force st = Inr (Some ((out @ drop (bh_size b) (arch_files st)) ! (bh_size b - 1)), ?st)"
      using readyXlog_none [OF none fold] False fill b(5) unfolding Let_def b_def [symmetric] by simp
    have last: "(out @ drop (bh_size b) (arch_files st)) ! (bh_size b - 1) = last out"
      using ne by (simp add: nth_append last_conv_nth flip: len)
    have "scan_spec entries (Some (last out)) ?st"
      unfolding scan_spec_def
      using out rest ne len b(5) h(4) by (intro exI [of _ out] exI [of _ rest]) (auto simp: butlast_conv_take simp flip: set_mset_mset)
    moreover have "arch_ok ?st"
      using h' files len b(5) h(4) by (simp add: arch_ok_def)
    ultimately show ?thesis using run last by metis
  qed
qed

text \<open>What the status directory does to a scan that cannot finish.\<close>

definition dir_error :: "opendir_result \<Rightarrow> pg_error option" where
  "dir_error opendir =
     (case opendir of
        No_Descriptor \<Rightarrow> Some (ERROR ''exceeded maxAllocatedDescs while trying to open directory'')
      | Opendir_Failed \<Rightarrow> Some (ERROR ''could not open directory'')
      | Opened dir \<Rightarrow> if dir_fails dir then Some (ERROR ''could not read directory'') else None)"

lemma readyXlog_scan_error:
  assumes ok: "arch_ok st" and err: "dir_error opendir = Some e"
    and none: "next_stored stat (arch_files st) (if force then 0 else arch_files_size st) = Inr (None, 0)"
  shows "pgarch_readyXlog stat opendir force st = Inl e"
proof -
  have "scan_status_dir opendir (binaryheap_reset (arch_heap st)) = Inl e"
  proof (cases opendir)
    case (Opened dir)
    obtain entries fails where d: "dir = DIR entries fails" by (cases dir)
    with Opened scan_correct [OF scan_inv_start [OF ok], of entries] err show ?thesis
      by (auto simp: scan_status_dir_def AllocateDir_def scan_dir_entries dir_error_def split: if_splits)
  qed (use err in \<open>simp_all add: dir_error_def scan_status_dir_def AllocateDir_def ReadDir_def scan_dir.simps\<close>)
  with none show ?thesis by (cases force) (simp_all add: pgarch_readyXlog_def Let_def)
qed

section \<open>What the archiver promises\<close>

text \<open>
  C25: When no stored name is left, or a scan is forced, \<open>pgarch_readyXlog\<close> scans the directory. If
  the directory can be read, it
  keeps the 64 ready files of highest priority, or all of them when there are fewer: no file it drops
  goes before one it keeps. It returns the first of them in priority order and stores the others in
  ascending order of priority, whatever the order of the directory entries.
\<close>

theorem readyXlog_scan_priority:
  assumes "arch_ok st" "force_dir_scan \<or> arch_files_size st = 0"
  shows "\<exists>x st'. pgarch_readyXlog stat (Opened (DIR entries False)) force_dir_scan st = Inr (x, st') \<and>
    scan_spec entries x st' \<and> arch_ok st'"
  using readyXlog_scan [OF assms(1), of stat force_dir_scan entries] assms(2) by auto

theorem readyXlog_scan_priority_witness:
  "let st = init_arch_files (replicate 64 []) (replicate 64 []);
       entries = [''000000010000000000000003.ready'', ''000000010000000000000001.done'',
                  ''00000002.history.ready'', ''000000010000000000000002.ready''] in
   arch_ok st \<and> (\<exists>x st'. pgarch_readyXlog (\<lambda>f. Stat_OK) (Opened (DIR entries False)) False st = Inr (x, st') \<and>
     scan_spec entries x st' \<and> x = Some ''00000002.history'')"
proof -
  let ?st = "init_arch_files (replicate 64 []) (replicate 64 [])"
  let ?entries = "[''000000010000000000000003.ready'', ''000000010000000000000001.done'',
                  ''00000002.history.ready'', ''000000010000000000000002.ready'']"
  have ok: "arch_ok ?st" "arch_files_size ?st = 0"
    by (simp_all add: init_arch_files_def arch_ok_def NUM_FILES_PER_DIRECTORY_SCAN_def)
       (simp_all add: binaryheap_allocate_def)
  have "map_sum id fst (pgarch_readyXlog (\<lambda>f. Stat_OK) (Opened (DIR ?entries False)) False ?st) =
      Inr (Some ''00000002.history'')"
    by code_simp
  then show ?thesis
    using readyXlog_scan_priority [OF ok(1), of False "\<lambda>f. Stat_OK" ?entries] ok by (auto simp: Let_def)
qed

text \<open>
  C26: \<open>pgarch_readyXlog\<close> fails only for a failure of the file system, with an \<open>ERROR\<close>: when \<open>stat\<close>
  fails on a stored name for another reason than a missing file, or when it has to scan (a scan is
  forced, or every stored name has lost its status file) and the status directory cannot be opened
  or read to its end.  The heap never overflows and is never used while it is empty or not built.
  Otherwise it returns a stored name whose status file is present, with only the names before it
  left, or what the scan gives. The state stays well formed.
\<close>

theorem readyXlog_outcome:
  assumes "arch_ok st"
  shows "case pgarch_readyXlog stat opendir force_dir_scan st of
      Inl e \<Rightarrow>
        (e = ERROR ''could not stat file'' \<and> \<not> force_dir_scan \<and>
           (\<exists>i < arch_files_size st. stat (arch_files st ! i) = Stat_Failed)) \<or>
        (dir_error opendir = Some e \<and>
           (force_dir_scan \<or> (\<forall>i < arch_files_size st. stat (arch_files st ! i) = Stat_ENOENT)))
    | Inr (x, st') \<Rightarrow> arch_ok st' \<and>
        ((\<exists>entries. opendir = Opened (DIR entries False) \<and> scan_spec entries x st' \<and>
           (force_dir_scan \<or> (\<forall>i < arch_files_size st. stat (arch_files st ! i) = Stat_ENOENT))) \<or>
         (\<exists>f. x = Some f \<and> stat f = Stat_OK \<and> arch_files_size st' < arch_files_size st \<and>
            f = arch_files st ! arch_files_size st' \<and> arch_files st' = arch_files st))"
proof -
  let ?n = "if force_dir_scan then 0 else arch_files_size st"
  note cases = next_stored_cases [where stat = stat and files = "arch_files st" and n = ?n]
  show ?thesis
  proof (cases "next_stored stat (arch_files st) ?n")
    case (Inl e)
    then show ?thesis using cases
      by (cases force_dir_scan) (auto simp: pgarch_readyXlog_def Let_def)
  next
    case (Inr p)
    obtain x n where p: "p = (x, n)" by (cases p)
    show ?thesis
    proof (cases x)
      case None
      then have none: "next_stored stat (arch_files st) ?n = Inr (None, 0)"
        and gone: "force_dir_scan \<or> (\<forall>i < arch_files_size st. stat (arch_files st ! i) = Stat_ENOENT)"
        using cases Inr p by (auto split: if_splits)
      show ?thesis
      proof (cases "dir_error opendir")
        case (Some e)
        then show ?thesis using readyXlog_scan_error [OF assms Some none] gone by simp
      next
        case None
        then obtain entries where d: "opendir = Opened (DIR entries False)"
          by (cases opendir rule: opendir_result.exhaust; cases "case opendir of Opened d \<Rightarrow> d")
            (auto simp: dir_error_def split: if_splits)
        from readyXlog_scan [OF assms none, of entries] gone show ?thesis by (auto simp: d)
      qed
    next
      case (Some f)
      then show ?thesis using cases Inr p assms
        by (cases force_dir_scan) (auto simp: pgarch_readyXlog_def Let_def arch_ok_def)
    qed
  qed
qed

theorem readyXlog_outcome_witness:
  "let st = (init_arch_files (replicate 64 []) (''a'' # ''b'' # replicate 62 []))\<lparr>arch_files_size := 2\<rparr>;
       stat = (\<lambda>f. if f = ''a'' then Stat_Failed else Stat_ENOENT) in
   arch_ok st \<and> pgarch_readyXlog stat Opendir_Failed False st = Inl (ERROR ''could not stat file'') \<and>
   pgarch_readyXlog stat Opendir_Failed True st = Inl (ERROR ''could not open directory'')"
proof -
  let ?st = "(init_arch_files (replicate 64 []) (''a'' # ''b'' # replicate 62 []))\<lparr>arch_files_size := 2\<rparr>"
  let ?stat = "\<lambda>f. if f = ''a'' then Stat_Failed else Stat_ENOENT"
  have ok: "arch_ok ?st"
    by (simp add: init_arch_files_def arch_ok_def NUM_FILES_PER_DIRECTORY_SCAN_def) (simp add: binaryheap_allocate_def)
  have f: "?stat (arch_files ?st ! 0) = Stat_Failed" "0 < arch_files_size ?st"
    by (simp_all add: init_arch_files_def)
  have "map_sum (\<lambda>e. ()) (\<lambda>p. ()) (pgarch_readyXlog ?stat Opendir_Failed False ?st) = Inl ()"
      "map_sum (\<lambda>e. ()) (\<lambda>p. ()) (pgarch_readyXlog ?stat Opendir_Failed True ?st) = Inl ()" by code_simp+
  then obtain e e' where e: "pgarch_readyXlog ?stat Opendir_Failed False ?st = Inl e"
      "pgarch_readyXlog ?stat Opendir_Failed True ?st = Inl e'"
    by (cases "pgarch_readyXlog ?stat Opendir_Failed False ?st";
      cases "pgarch_readyXlog ?stat Opendir_Failed True ?st") auto
  have "e = ERROR ''could not stat file''"
    using readyXlog_outcome [OF ok, where stat = ?stat and opendir = Opendir_Failed and force_dir_scan = False] f e(1)
    by (auto split: if_splits)
  moreover have "e' = ERROR ''could not open directory''"
    using readyXlog_outcome [OF ok, where stat = ?stat and opendir = Opendir_Failed and force_dir_scan = True] e(2)
    by (auto simp: dir_error_def)
  ultimately show ?thesis using ok e by simp
qed

end
