(* ===== verification/Fsmpage.thy ===== *)
theory Fsmpage
  imports Prelude
begin

text \<open>
  One page of the free space map, \<open>src/backend/storage/freespace/fsmpage.c\<close>: a binary tree of bytes
  stored in an array, the leaves being the slots and each upper node the maximum of its children.
  The macros and functions are modelled on the array, for any page size of the build.  The lemmas
  show that every update keeps the tree consistent and that the two loops of \<open>fsm_search_avail\<close> find
  what a linear scan from the target slot finds; a page that is not consistent is repaired on the
  way, so that the search always ends.  The locks are not modelled: each function runs alone on its
  page.
\<close>

unbundle bit_operations_syntax

section \<open>The layout of a page\<close>

text \<open>
  \<open>BLCKSZ\<close> is chosen when the server is built: it is the argument \<open>B\<close> of the definitions. The page
  header has 24 bytes and \<open>MAXIMUM_ALIGNOF\<close> is 8; \<open>fp_nodes\<close> follows the 4 bytes of \<open>fp_next_slot\<close>.
\<close>

definition MAXALIGN :: "nat \<Rightarrow> nat" where
  "MAXALIGN len = (len + 7) div 8 * 8"

definition SizeOfPageHeaderData :: nat where
  "SizeOfPageHeaderData = 24"

definition NodesPerPage :: "nat \<Rightarrow> nat" where
  "NodesPerPage B = B - MAXALIGN SizeOfPageHeaderData - 4"

definition NonLeafNodesPerPage :: "nat \<Rightarrow> nat" where
  "NonLeafNodesPerPage B = B div 2 - 1"

definition LeafNodesPerPage :: "nat \<Rightarrow> nat" where
  "LeafNodesPerPage B = NodesPerPage B - NonLeafNodesPerPage B"

record FSMPageData =
  fp_next_slot :: int
  fp_nodes :: "uint8 list"

definition leftchild :: "nat \<Rightarrow> nat" where
  "leftchild x = 2 * x + 1"

definition rightchild :: "nat \<Rightarrow> nat" where
  "rightchild x = 2 * x + 2"

definition parentof :: "nat \<Rightarrow> nat" where
  "parentof x = (x - 1) div 2"

definition rightneighbor :: "nat \<Rightarrow> nat" where
  "rightneighbor x = (let x = x + 1 in if (x + 1) AND x = 0 then parentof x else x)"

section \<open>Operations\<close>

text \<open>\<open>for (nodeno = NonLeafNodesPerPage - 1; nodeno >= 0; nodeno--)\<close>: the argument is \<open>nodeno + 1\<close>.\<close>

fun rebuild_loop :: "nat \<Rightarrow> nat \<Rightarrow> bool \<Rightarrow> uint8 list \<Rightarrow> bool \<times> uint8 list" where
  "rebuild_loop B 0 changed nodes = (changed, nodes)"
| "rebuild_loop B (Suc nodeno) changed nodes =
     (let lchild = leftchild nodeno; rchild = lchild + 1;
          newvalue = (if lchild < NodesPerPage B then nodes ! lchild else 0);
          newvalue = (if rchild < NodesPerPage B then max newvalue (nodes ! rchild) else newvalue)
      in if nodes ! nodeno \<noteq> newvalue then rebuild_loop B nodeno True (nodes[nodeno := newvalue])
         else rebuild_loop B nodeno changed nodes)"

definition fsm_rebuild_page :: "nat \<Rightarrow> FSMPageData \<Rightarrow> bool \<times> FSMPageData" where
  "fsm_rebuild_page B page =
     (let (changed, nodes) = rebuild_loop B (NonLeafNodesPerPage B) False (fp_nodes page)
      in (changed, page\<lparr>fp_nodes := nodes\<rparr>))"

lemma parentof_less [simp]: "0 < x \<Longrightarrow> parentof x < x"
  by (simp add: parentof_def)

text \<open>The \<open>do\<close> loop of \<open>fsm_set_avail\<close>.\<close>

function propagate :: "nat \<Rightarrow> uint8 list \<Rightarrow> nat \<Rightarrow> uint8 list" where
  "propagate B nodes nodeno =
     (let nodeno = parentof nodeno; lchild = leftchild nodeno; rchild = lchild + 1;
          newvalue = nodes ! lchild;
          newvalue = (if rchild < NodesPerPage B then max newvalue (nodes ! rchild) else newvalue)
      in if nodes ! nodeno = newvalue then nodes
         else let nodes = nodes[nodeno := newvalue]
              in if nodeno > 0 then propagate B nodes nodeno else nodes)"
  by pat_completeness auto
termination
  by (relation "measure (\<lambda>(B, nodes, nodeno). nodeno)") (auto simp: parentof_def)

declare propagate.simps [simp del]

definition fsm_set_avail :: "nat \<Rightarrow> FSMPageData \<Rightarrow> nat \<Rightarrow> uint8 \<Rightarrow> bool \<times> FSMPageData" where
  "fsm_set_avail B page slot value =
     (let nodeno = NonLeafNodesPerPage B + slot; oldvalue = fp_nodes page ! nodeno in
      if oldvalue = value \<and> value \<le> fp_nodes page ! 0 then (False, page)
      else
        let nodes = propagate B ((fp_nodes page)[nodeno := value]) nodeno; page = page\<lparr>fp_nodes := nodes\<rparr>
        in (True, if value > nodes ! 0 then snd (fsm_rebuild_page B page) else page))"

definition fsm_get_avail :: "nat \<Rightarrow> FSMPageData \<Rightarrow> nat \<Rightarrow> uint8" where
  "fsm_get_avail B page slot = fp_nodes page ! (NonLeafNodesPerPage B + slot)"

definition fsm_get_max_avail :: "FSMPageData \<Rightarrow> uint8" where
  "fsm_get_max_avail page = fp_nodes page ! 0"

lemma rightneighbor_climbs: "0 < x \<Longrightarrow> parentof (rightneighbor x) < x"
  by (auto simp: rightneighbor_def parentof_def Let_def)

text \<open>The first loop of \<open>fsm_search_avail\<close>: right and up until a node has enough space.\<close>

function search_up :: "uint8 list \<Rightarrow> uint8 \<Rightarrow> nat \<Rightarrow> nat" where
  "search_up nodes minvalue nodeno =
     (if nodeno > 0 then
        if nodes ! nodeno \<ge> minvalue then nodeno
        else search_up nodes minvalue (parentof (rightneighbor nodeno))
      else nodeno)"
  by pat_completeness auto
termination
  by (relation "measure (\<lambda>(nodes, minvalue, nodeno). nodeno)") (auto simp: rightneighbor_climbs)

declare search_up.simps [simp del]

text \<open>
  The second loop: down to a leaf along a path with enough space; \<open>None\<close> when a node promises space
  that neither child has.
\<close>

function search_down :: "nat \<Rightarrow> uint8 list \<Rightarrow> uint8 \<Rightarrow> nat \<Rightarrow> nat option" where
  "search_down B nodes minvalue nodeno =
     (if nodeno < NonLeafNodesPerPage B then
        let childnodeno = leftchild nodeno in
        if childnodeno < NodesPerPage B \<and> nodes ! childnodeno \<ge> minvalue then
          search_down B nodes minvalue childnodeno
        else
          let childnodeno = childnodeno + 1 in
          if childnodeno < NodesPerPage B \<and> nodes ! childnodeno \<ge> minvalue then
            search_down B nodes minvalue childnodeno
          else None
      else Some nodeno)"
  by pat_completeness auto
termination
  by (relation "measure (\<lambda>(B, nodes, minvalue, nodeno). NonLeafNodesPerPage B - nodeno)")
     (auto simp: leftchild_def)

declare search_down.simps [simp del]

definition search_target :: "nat \<Rightarrow> FSMPageData \<Rightarrow> nat" where
  "search_target B page =
     (let target = fp_next_slot page
      in if target < 0 \<or> target \<ge> int (LeafNodesPerPage B) then 0 else nat target)"

text \<open>
  \<open>fsm_search_avail\<close> repairs a corrupt page and starts over, so the definition is partial: it has a
  value when the search ends. The locks have no counterpart. \<open>slot\<close> is a \<open>uint16\<close>.
\<close>

partial_function (option) fsm_search_avail ::
    "nat \<Rightarrow> FSMPageData \<Rightarrow> uint8 \<Rightarrow> bool \<Rightarrow> (int \<times> FSMPageData) option" where
  "fsm_search_avail B page minvalue advancenext =
     (if fp_nodes page ! 0 < minvalue then Some (-1, page)
      else case search_down B (fp_nodes page) minvalue
               (search_up (fp_nodes page) minvalue (search_target B page + NonLeafNodesPerPage B)) of
        None \<Rightarrow> fsm_search_avail B (snd (fsm_rebuild_page B page)) minvalue advancenext
      | Some nodeno \<Rightarrow>
          let slot = int (nodeno - NonLeafNodesPerPage B) mod 2 ^ 16
          in Some (slot, page\<lparr>fp_next_slot := slot + (if advancenext then 1 else 0)\<rparr>))"

definition fsm_truncate_avail :: "nat \<Rightarrow> FSMPageData \<Rightarrow> nat \<Rightarrow> bool \<times> FSMPageData" where
  "fsm_truncate_avail B page nslots =
     (let first = NonLeafNodesPerPage B + nslots;
          changed = list_ex (\<lambda>i. fp_nodes page ! i \<noteq> 0) [first..<NodesPerPage B];
          page = page\<lparr>fp_nodes := for_upd first (NodesPerPage B) (\<lambda>i w. 0) (fp_nodes page)\<rparr>
      in (changed, if changed then snd (fsm_rebuild_page B page) else page))"

section \<open>The tree in a page\<close>

text \<open>The page sizes for which the layout makes sense.\<close>

definition fsm_blcksz :: "nat \<Rightarrow> bool" where
  "fsm_blcksz B \<longleftrightarrow> B \<in> (\<lambda>m. 2 ^ m) ` {6..15}"

lemma fsm_layoutE:
  assumes "fsm_blcksz B"
  obtains D where "5 \<le> D" "D \<le> 14" "NonLeafNodesPerPage B = 2 ^ D - 1" "NodesPerPage B = 2 * 2 ^ D - 28"
    "LeafNodesPerPage B = 2 ^ D - 27" "(32::nat) \<le> 2 ^ D" "(2::nat) ^ D \<le> 16384"
proof -
  obtain m where m: "B = 2 ^ m" "6 \<le> m" "m \<le> 15" using assms by (auto simp: fsm_blcksz_def)
  obtain D where D: "m = Suc D" using m(2) by (cases m) auto
  have le: "(2::nat) ^ 5 \<le> 2 ^ D" "(2::nat) ^ D \<le> 2 ^ 14" using m D by (intro power_increasing; simp)+
  have n: "NodesPerPage B = 2 * 2 ^ D - 28"
    by (simp add: NodesPerPage_def MAXALIGN_def SizeOfPageHeaderData_def m D)
  have nl: "NonLeafNodesPerPage B = 2 ^ D - 1" by (simp add: NonLeafNodesPerPage_def m D)
  show ?thesis
    using le m D n nl by (intro that [of D]) (simp_all add: LeafNodesPerPage_def)
qed

definition node_val :: "nat \<Rightarrow> uint8 list \<Rightarrow> nat \<Rightarrow> uint8" where
  "node_val B nodes i = (if i < NodesPerPage B then nodes ! i else 0)"

definition node_ok :: "nat \<Rightarrow> uint8 list \<Rightarrow> nat \<Rightarrow> bool" where
  "node_ok B nodes i \<longleftrightarrow>
     nodes ! i = max (node_val B nodes (leftchild i)) (node_val B nodes (rightchild i))"

text \<open>A page of the right size, and one in which every upper node is the maximum of its children.\<close>

definition fsm_shape :: "nat \<Rightarrow> FSMPageData \<Rightarrow> bool" where
  "fsm_shape B page \<longleftrightarrow> length (fp_nodes page) = NodesPerPage B"

definition fsm_ok :: "nat \<Rightarrow> FSMPageData \<Rightarrow> bool" where
  "fsm_ok B page \<longleftrightarrow> fsm_shape B page \<and> (\<forall>i < NonLeafNodesPerPage B. node_ok B (fp_nodes page) i)"

lemma tree_bounds:
  assumes "fsm_blcksz B"
  shows "0 < NonLeafNodesPerPage B" "NonLeafNodesPerPage B < NodesPerPage B"
    "NonLeafNodesPerPage B + LeafNodesPerPage B = NodesPerPage B" "LeafNodesPerPage B < 2 ^ 16"
    "0 < LeafNodesPerPage B"
  using assms by (auto elim!: fsm_layoutE)

lemma node_val_update:
  "i < length nodes \<Longrightarrow> i < NodesPerPage B \<Longrightarrow>
   node_val B (nodes[i := v]) j = (if j = i then v else node_val B nodes j)"
  by (simp add: node_val_def)

text \<open>A node's value is used at its parent only.\<close>

lemma node_ok_update:
  assumes "i < length nodes" "i < NodesPerPage B" "j \<noteq> i" "0 < i \<Longrightarrow> j \<noteq> parentof i"
  shows "node_ok B (nodes[i := v]) j = node_ok B nodes j"
proof -
  have "leftchild j \<noteq> i" "rightchild j \<noteq> i"
    using assms(4) by (auto simp: leftchild_def rightchild_def parentof_def)
  then show ?thesis using assms(1-3) by (simp add: node_ok_def node_val_update)
qed

section \<open>Rebuilding\<close>

lemma rebuild_step:
  assumes "i < length nodes" "i < NodesPerPage B"
  shows "node_ok B (nodes[i := max (node_val B nodes (leftchild i)) (node_val B nodes (rightchild i))]) i"
proof -
  have "leftchild i \<noteq> i" "rightchild i \<noteq> i" by (simp_all add: leftchild_def rightchild_def)
  then show ?thesis using assms by (simp add: node_ok_def node_val_update)
qed

lemma rebuild_value:
  "(let newvalue = (if leftchild i < NodesPerPage B then nodes ! leftchild i else 0)
    in if leftchild i + 1 < NodesPerPage B then max newvalue (nodes ! (leftchild i + 1)) else newvalue) =
   max (node_val B nodes (leftchild i)) (node_val B nodes (rightchild i))"
  by (simp add: node_val_def leftchild_def rightchild_def)

lemma rebuild_loop_Suc:
  "rebuild_loop B (Suc i) changed nodes =
     (let v = max (node_val B nodes (leftchild i)) (node_val B nodes (rightchild i)) in
      if nodes ! i \<noteq> v then rebuild_loop B i True (nodes[i := v]) else rebuild_loop B i changed nodes)"
  unfolding rebuild_loop.simps Let_def rebuild_value [unfolded Let_def] ..

declare rebuild_loop.simps(2) [simp del]

lemma rebuild_loop_correct:
  assumes "n \<le> NonLeafNodesPerPage B" "NonLeafNodesPerPage B \<le> NodesPerPage B" "length nodes = NodesPerPage B"
    "\<forall>i. n \<le> i \<and> i < NonLeafNodesPerPage B \<longrightarrow> node_ok B nodes i"
  shows "let (c, nodes') = rebuild_loop B n changed nodes in
    length nodes' = NodesPerPage B \<and> (\<forall>i < NonLeafNodesPerPage B. node_ok B nodes' i) \<and>
    (\<forall>i \<ge> n. nodes' ! i = nodes ! i) \<and> (c \<longleftrightarrow> changed \<or> nodes' \<noteq> nodes) \<and>
    ((\<forall>i < n. node_ok B nodes i) \<longrightarrow> nodes' = nodes)"
  using assms
proof (induction n arbitrary: nodes changed)
  case 0
  then show ?case by simp
next
  case (Suc n)
  let ?v = "max (node_val B nodes (leftchild n)) (node_val B nodes (rightchild n))"
  have n: "n < length nodes" "n < NodesPerPage B" using Suc.prems by simp_all
  show ?case
  proof (cases "nodes ! n = ?v")
    case True
    then have "node_ok B nodes n" by (simp add: node_ok_def)
    then have ok: "\<forall>i. n \<le> i \<and> i < NonLeafNodesPerPage B \<longrightarrow> node_ok B nodes i"
      using Suc.prems(4) by (metis le_antisym not_less_eq_eq)
    show ?thesis
      using Suc.IH [of nodes changed] Suc.prems(1-3) ok True
      by (auto simp: rebuild_loop_Suc Let_def simp del: max.bounded_iff)
  next
    case False
    let ?nodes = "nodes[n := ?v]"
    have "node_ok B ?nodes i" if i: "n \<le> i" "i < NonLeafNodesPerPage B" for i
    proof (cases "i = n")
      case True
      then show ?thesis using rebuild_step [OF n] by simp
    next
      case ne: False
      have "0 < n \<Longrightarrow> i \<noteq> parentof n" using i(1) parentof_less [of n] by fastforce
      then show ?thesis using node_ok_update [OF n ne, of ?v] Suc.prems(4) i ne by simp
    qed
    moreover obtain c ns where r: "rebuild_loop B n True ?nodes = (c, ns)" by fastforce
    ultimately have ih: "length ns = NodesPerPage B" "\<forall>i < NonLeafNodesPerPage B. node_ok B ns i"
        "\<forall>i \<ge> n. ns ! i = ?nodes ! i" "c"
      using Suc.IH [of ?nodes True] Suc.prems(1-3) by simp_all
    have run: "rebuild_loop B (Suc n) changed nodes = (c, ns)"
      using False r by (simp add: rebuild_loop_Suc)
    have "\<not> node_ok B nodes n" using False by (simp add: node_ok_def)
    moreover have "ns ! n = ?v" using ih(3) n by simp
    then have "ns \<noteq> nodes" using False by metis
    moreover have "\<forall>i \<ge> Suc n. ns ! i = nodes ! i" using ih(3) by simp
    ultimately show ?thesis unfolding run using ih by auto
  qed
qed

lemma fsm_rebuild_page_correct:
  assumes "fsm_blcksz B" "fsm_shape B page"
  shows "fsm_ok B (snd (fsm_rebuild_page B page))"
    "fsm_get_avail B (snd (fsm_rebuild_page B page)) s = fsm_get_avail B page s"
    "fst (fsm_rebuild_page B page) \<longleftrightarrow> snd (fsm_rebuild_page B page) \<noteq> page"
    "fsm_ok B page \<Longrightarrow> snd (fsm_rebuild_page B page) = page"
    "fp_next_slot (snd (fsm_rebuild_page B page)) = fp_next_slot page"
proof -
  have "let (c, nodes') = rebuild_loop B (NonLeafNodesPerPage B) False (fp_nodes page) in
    length nodes' = NodesPerPage B \<and> (\<forall>i < NonLeafNodesPerPage B. node_ok B nodes' i) \<and>
    (\<forall>i \<ge> NonLeafNodesPerPage B. nodes' ! i = fp_nodes page ! i) \<and> (c \<longleftrightarrow> False \<or> nodes' \<noteq> fp_nodes page) \<and>
    ((\<forall>i < NonLeafNodesPerPage B. node_ok B (fp_nodes page) i) \<longrightarrow> nodes' = fp_nodes page)"
    using tree_bounds [OF assms(1)] assms(2) by (intro rebuild_loop_correct) (auto simp: fsm_shape_def)
  then show "fsm_ok B (snd (fsm_rebuild_page B page))"
    "fsm_get_avail B (snd (fsm_rebuild_page B page)) s = fsm_get_avail B page s"
    "fst (fsm_rebuild_page B page) \<longleftrightarrow> snd (fsm_rebuild_page B page) \<noteq> page"
    "fsm_ok B page \<Longrightarrow> snd (fsm_rebuild_page B page) = page"
    "fp_next_slot (snd (fsm_rebuild_page B page)) = fp_next_slot page"
    by (cases page; auto simp: fsm_rebuild_page_def split_beta Let_def fsm_ok_def fsm_shape_def fsm_get_avail_def)+
qed

section \<open>Setting a slot\<close>

lemma propagate_shape:
  assumes "0 < n" "n < length nodes" "length nodes = NodesPerPage B"
  shows "length (propagate B nodes n) = length nodes \<and> (\<forall>i > parentof n. propagate B nodes n ! i = nodes ! i)"
  using assms
proof (induction n arbitrary: nodes rule: less_induct)
  case (less n)
  let ?p = "parentof n"
  have p: "?p < n" using less.prems(1) by simp
  define v where "v = (let v = nodes ! leftchild ?p in
     if leftchild ?p + 1 < NodesPerPage B then max v (nodes ! (leftchild ?p + 1)) else v)"
  have eq: "propagate B nodes n = (if nodes ! ?p = v then nodes else
      if ?p > 0 then propagate B (nodes[?p := v]) ?p else nodes[?p := v])"
    unfolding v_def by (subst propagate.simps) (simp add: Let_def)
  show ?case
  proof (cases "nodes ! ?p = v \<or> ?p = 0")
    case True
    then show ?thesis using p by (auto simp: eq)
  next
    case False
    then have "parentof ?p < ?p" by simp
    with False show ?thesis using less.IH [OF p, of "nodes[?p := v]"] less.prems p by (simp add: eq)
  qed
qed

lemma propagate_ok:
  assumes "0 < n" "n < NodesPerPage B" "length nodes = NodesPerPage B"
    "\<forall>i < NonLeafNodesPerPage B. i \<noteq> parentof n \<longrightarrow> node_ok B nodes i"
  shows "\<forall>i < NonLeafNodesPerPage B. node_ok B (propagate B nodes n) i"
  using assms
proof (induction n arbitrary: nodes rule: less_induct)
  case (less n)
  let ?p = "parentof n"
  let ?v = "max (node_val B nodes (leftchild ?p)) (node_val B nodes (rightchild ?p))"
  have p: "?p < n" using less.prems(1) by simp
  have "leftchild ?p < NodesPerPage B" using less.prems(1,2) by (auto simp: leftchild_def parentof_def)
  then have v: "(let v = nodes ! leftchild ?p in
      if leftchild ?p + 1 < NodesPerPage B then max v (nodes ! (leftchild ?p + 1)) else v) = ?v"
    using rebuild_value [of ?p B nodes] by simp
  have eq: "propagate B nodes n = (if nodes ! ?p = ?v then nodes else
      if ?p > 0 then propagate B (nodes[?p := ?v]) ?p else nodes[?p := ?v])"
    unfolding v [symmetric] by (subst propagate.simps) (simp add: Let_def)
  show ?case
  proof (cases "nodes ! ?p = ?v")
    case True
    then have "node_ok B nodes ?p" by (simp add: node_ok_def)
    then show ?thesis using True less.prems(4) by (auto simp: eq)
  next
    case False
    have b: "?p < length nodes" "?p < NodesPerPage B"
      using less_trans [OF p less.prems(2)] less.prems(3) by simp_all
    have ok: "node_ok B (nodes[?p := ?v]) i"
      if "i < NonLeafNodesPerPage B" "0 < ?p \<longrightarrow> i \<noteq> parentof ?p" for i
    proof (cases "i = ?p")
      case True
      then show ?thesis using rebuild_step [OF b] by simp
    next
      case ne: False
      then show ?thesis using node_ok_update [OF b ne, of ?v] that less.prems(4) by simp
    qed
    show ?thesis
    proof (cases "?p > 0")
      case True
      have "\<forall>i < NonLeafNodesPerPage B. node_ok B (propagate B (nodes[?p := ?v]) ?p) i"
        using True b less.prems(3) ok by (intro less.IH [OF p]) auto
      then show ?thesis using True False by (simp add: eq)
    next
      case zero: False
      then show ?thesis using False ok by (simp add: eq)
    qed
  qed
qed

section \<open>What a node knows of its leaves\<close>

definition fsm_layout :: "nat \<Rightarrow> nat \<Rightarrow> bool" where
  "fsm_layout B D \<longleftrightarrow> NonLeafNodesPerPage B = 2 ^ D - 1 \<and> NodesPerPage B = 2 * 2 ^ D - 28 \<and>
     LeafNodesPerPage B = 2 ^ D - 27 \<and> (32::nat) \<le> 2 ^ D \<and> (2::nat) ^ D \<le> 16384"

lemma fsm_layout_exists: "fsm_blcksz B \<Longrightarrow> \<exists>D. fsm_layout B D"
  by (elim fsm_layoutE) (auto simp: fsm_layout_def)

lemma div_pow_Suc: "x div 2 ^ Suc k = (n::nat) \<longleftrightarrow> x div 2 ^ k = 2 * n \<or> x div 2 ^ k = 2 * n + 1"
proof -
  have "x div 2 ^ Suc k = x div 2 ^ k div 2" by (simp only: power_Suc2 div_mult2_eq)
  then show ?thesis by auto
qed

text \<open>
  With nodes numbered from 1, the leaves below node \<open>n\<close> at height \<open>k\<close> are the slots \<open>s\<close> with
  \<open>(2 ^ D + s) div 2 ^ k = n\<close>: in a consistent page, a node has enough space exactly when one of its
  leaves has.
\<close>

lemma node_val_ge:
  assumes "fsm_ok B page" "fsm_layout B D" "0 < minvalue" "k \<le> D" "2 ^ (D - k) \<le> n" "n < 2 * 2 ^ (D - k)"
  shows "minvalue \<le> node_val B (fp_nodes page) (n - 1) \<longleftrightarrow>
    (\<exists>s < LeafNodesPerPage B. (2 ^ D + s) div 2 ^ k = n \<and> minvalue \<le> fsm_get_avail B page s)"
  using assms(4-6)
proof (induction k arbitrary: n)
  case 0
  have lay: "NonLeafNodesPerPage B = 2 ^ D - 1" "NodesPerPage B = 2 * 2 ^ D - 28" "LeafNodesPerPage B = 2 ^ D - 27"
      "(32::nat) \<le> 2 ^ D"
    using assms(2) by (simp_all add: fsm_layout_def)
  have n: "n - 1 = NonLeafNodesPerPage B + (n - 2 ^ D)" "2 ^ D + (n - 2 ^ D) = n" using 0 lay by simp_all
  have "n - 1 < NodesPerPage B \<longleftrightarrow> n - 2 ^ D < LeafNodesPerPage B" using n lay by linarith
  moreover have "2 ^ D + s = n \<longleftrightarrow> s = n - 2 ^ D" for s using n by auto
  ultimately show ?case
    using assms(3) n(1) by (auto simp: node_val_def fsm_get_avail_def)
next
  case (Suc k)
  have d: "2 * 2 ^ (D - Suc k) = (2::nat) ^ (D - k)"
    using Suc.prems(1) by (simp flip: power_Suc add: Suc_diff_Suc)
  have pos: "0 < n" using Suc.prems(2) by (cases n) simp_all
  have "(2::nat) ^ (D - k) \<le> 2 ^ D" by (intro power_increasing) simp_all
  then have "n < 2 ^ D" using Suc.prems(3) d by linarith
  then have i: "n - 1 < NonLeafNodesPerPage B" using pos assms(2) by (simp add: fsm_layout_def)
  have ch: "leftchild (n - 1) = 2 * n - 1" "rightchild (n - 1) = 2 * n + 1 - 1"
    using pos by (auto simp: leftchild_def rightchild_def)
  have "node_val B (fp_nodes page) (n - 1) = fp_nodes page ! (n - 1)"
  proof -
    have "n - 1 < NodesPerPage B" using i assms(2) unfolding fsm_layout_def by linarith
    then show ?thesis by (simp add: node_val_def)
  qed
  also have "\<dots> = max (node_val B (fp_nodes page) (2 * n - 1)) (node_val B (fp_nodes page) (2 * n + 1 - 1))"
    using assms(1) i unfolding fsm_ok_def node_ok_def ch [symmetric] by blast
  finally have "minvalue \<le> node_val B (fp_nodes page) (n - 1) \<longleftrightarrow>
      minvalue \<le> node_val B (fp_nodes page) (2 * n - 1) \<or> minvalue \<le> node_val B (fp_nodes page) (2 * n + 1 - 1)"
    by (simp only: le_max_iff_disj)
  also have "\<dots> \<longleftrightarrow> (\<exists>s < LeafNodesPerPage B. (2 ^ D + s) div 2 ^ k = 2 * n \<and> minvalue \<le> fsm_get_avail B page s) \<or>
      (\<exists>s < LeafNodesPerPage B. (2 ^ D + s) div 2 ^ k = 2 * n + 1 \<and> minvalue \<le> fsm_get_avail B page s)"
    using Suc.IH [of "2 * n"] Suc.IH [of "2 * n + 1"] Suc.prems d by simp
  finally show ?case unfolding div_pow_Suc by blast
qed

lemma root_ge:
  assumes "fsm_blcksz B" "fsm_ok B page" "0 < minvalue"
  shows "minvalue \<le> fp_nodes page ! 0 \<longleftrightarrow> (\<exists>s < LeafNodesPerPage B. minvalue \<le> fsm_get_avail B page s)"
proof -
  obtain D where D: "fsm_layout B D" using fsm_layout_exists [OF assms(1)] ..
  have "(2 ^ D + s) div 2 ^ D = 1" if "s < LeafNodesPerPage B" for s
  proof -
    have "s < 2 ^ D" using that D unfolding fsm_layout_def by linarith
    then show ?thesis by (simp add: div_add_self1)
  qed
  moreover have "node_val B (fp_nodes page) 0 = fp_nodes page ! 0"
    using tree_bounds [OF assms(1)] by (simp add: node_val_def)
  ultimately show ?thesis using node_val_ge [OF assms(2) D assms(3) order_refl, of 1] by auto
qed

lemma leaf_le_root:
  assumes "fsm_blcksz B" "fsm_ok B page" "s < LeafNodesPerPage B"
  shows "fsm_get_avail B page s \<le> fp_nodes page ! 0"
proof (cases "fsm_get_avail B page s = 0")
  case False
  then have "0 < fsm_get_avail B page s" by (simp add: word_gt_0)
  then show ?thesis using root_ge [OF assms(1,2)] assms(3) by blast
qed simp

section \<open>Updates\<close>

lemma fsm_set_avail_correct:
  assumes "fsm_blcksz B" "fsm_shape B page" "slot < LeafNodesPerPage B"
  shows "fsm_shape B (snd (fsm_set_avail B page slot v))"
    "s < LeafNodesPerPage B \<Longrightarrow> fsm_get_avail B (snd (fsm_set_avail B page slot v)) s =
       (if s = slot then v else fsm_get_avail B page s)"
    "v \<le> fsm_get_max_avail (snd (fsm_set_avail B page slot v))"
    "fsm_ok B page \<Longrightarrow> fsm_ok B (snd (fsm_set_avail B page slot v))"
    "fp_next_slot (snd (fsm_set_avail B page slot v)) = fp_next_slot page"
    "fst (fsm_set_avail B page slot v) \<longleftrightarrow> snd (fsm_set_avail B page slot v) \<noteq> page"
proof -
  let ?n = "NonLeafNodesPerPage B + slot" and ?res = "snd (fsm_set_avail B page slot v)"
  note b = tree_bounds [OF assms(1)]
  have n: "0 < ?n" "?n < NodesPerPage B" using b assms(3) by auto
  define nodes where "nodes = propagate B ((fp_nodes page)[?n := v]) ?n"
  define p where "p = page\<lparr>fp_nodes := nodes\<rparr>"
  have len: "length (fp_nodes page) = NodesPerPage B" using assms(2) by (simp add: fsm_shape_def)
  have par: "parentof ?n < NonLeafNodesPerPage B"
    using n assms(1) by (auto elim!: fsm_layoutE simp: parentof_def)
  have ps: "length nodes = NodesPerPage B"
      "\<And>i. NonLeafNodesPerPage B \<le> i \<Longrightarrow> nodes ! i = (fp_nodes page)[?n := v] ! i"
    using propagate_shape [of ?n "(fp_nodes page)[?n := v]" B] n len par by (auto simp: nodes_def)
  have p: "fsm_shape B p" "fp_next_slot p = fp_next_slot page" "fp_nodes p = nodes"
    using ps by (simp_all add: p_def fsm_shape_def)
  have leaf: "fsm_get_avail B p s = (if s = slot then v else fsm_get_avail B page s)" for s
    using ps(2) [of "NonLeafNodesPerPage B + s"] n len by (simp add: fsm_get_avail_def p)
  note r = fsm_rebuild_page_correct [OF assms(1) p(1)]
  have run: "fsm_set_avail B page slot v =
      (if fsm_get_avail B page slot = v \<and> v \<le> fp_nodes page ! 0 then (False, page)
       else (True, if v > nodes ! 0 then snd (fsm_rebuild_page B p) else p))"
    by (simp add: fsm_set_avail_def nodes_def p_def fsm_get_avail_def Let_def)
  consider (same) "fsm_get_avail B page slot = v" "v \<le> fp_nodes page ! 0"
      "fsm_set_avail B page slot v = (False, page)"
    | (good) "\<not> (fsm_get_avail B page slot = v \<and> v \<le> fp_nodes page ! 0)" "v \<le> nodes ! 0"
        "fsm_set_avail B page slot v = (True, p)"
    | (bad) "\<not> (fsm_get_avail B page slot = v \<and> v \<le> fp_nodes page ! 0)"
        "fsm_set_avail B page slot v = (True, snd (fsm_rebuild_page B p))"
    by (cases "fsm_get_avail B page slot = v \<and> v \<le> fp_nodes page ! 0"; cases "nodes ! 0 < v")
       (simp_all add: run not_less)
  note cases = this
  show "fsm_shape B ?res"
    using cases assms(2) p r(1) by cases (simp_all add: fsm_ok_def)
  show av: "s < LeafNodesPerPage B \<Longrightarrow> fsm_get_avail B ?res s =
      (if s = slot then v else fsm_get_avail B page s)" for s
    using cases leaf r(2) by cases auto
  show mx: "v \<le> fsm_get_max_avail ?res"
    using cases
  proof cases
    case bad
    then show ?thesis
      using leaf_le_root [OF assms(1) r(1) assms(3)] r(2) leaf by (simp add: fsm_get_max_avail_def)
  qed (simp_all add: fsm_get_max_avail_def p)
  show "fp_next_slot ?res = fp_next_slot page"
    using cases p(2) r(5) by cases simp_all
  show "fst (fsm_set_avail B page slot v) \<longleftrightarrow> ?res \<noteq> page"
    using cases av [OF assms(3)] mx unfolding fsm_get_max_avail_def by cases auto
  assume "fsm_ok B page"
  then have "\<forall>i < NonLeafNodesPerPage B. i \<noteq> parentof ?n \<longrightarrow> node_ok B ((fp_nodes page)[?n := v]) i"
    using node_ok_update [of ?n "fp_nodes page" B _ v] n len by (auto simp: fsm_ok_def)
  then have ok: "fsm_ok B p"
    using propagate_ok [of ?n B "(fp_nodes page)[?n := v]"] n len p by (simp add: fsm_ok_def nodes_def)
  show "fsm_ok B ?res" using cases ok r(1) \<open>fsm_ok B page\<close> by cases simp_all
qed

lemma fsm_truncate_avail_correct:
  assumes "fsm_blcksz B" "fsm_shape B page" "nslots < LeafNodesPerPage B"
  shows "fsm_shape B (snd (fsm_truncate_avail B page nslots))"
    "s < LeafNodesPerPage B \<Longrightarrow> fsm_get_avail B (snd (fsm_truncate_avail B page nslots)) s =
       (if nslots \<le> s then 0 else fsm_get_avail B page s)"
    "fsm_ok B page \<Longrightarrow> fsm_ok B (snd (fsm_truncate_avail B page nslots))"
    "fst (fsm_truncate_avail B page nslots) \<longleftrightarrow> snd (fsm_truncate_avail B page nslots) \<noteq> page"
proof -
  let ?first = "NonLeafNodesPerPage B + nslots"
  note b = tree_bounds [OF assms(1)]
  define nodes where "nodes = for_upd ?first (NodesPerPage B) (\<lambda>i w. 0) (fp_nodes page)"
  define p where "p = page\<lparr>fp_nodes := nodes\<rparr>"
  define changed where "changed = list_ex (\<lambda>i. fp_nodes page ! i \<noteq> 0) [?first..<NodesPerPage B]"
  have run: "fsm_truncate_avail B page nslots = (changed, if changed then snd (fsm_rebuild_page B p) else p)"
    unfolding fsm_truncate_avail_def Let_def p_def nodes_def changed_def ..
  have len: "length (fp_nodes page) = NodesPerPage B" using assms(2) by (simp add: fsm_shape_def)
  have nth: "nodes ! i = (if ?first \<le> i then 0 else fp_nodes page ! i)" if "i < NodesPerPage B" for i
    using that len by (simp add: nodes_def nth_for_upd)
  have p: "fsm_shape B p" using len by (simp add: fsm_shape_def p_def nodes_def)
  have leaf: "s < LeafNodesPerPage B \<Longrightarrow> fsm_get_avail B p s = (if nslots \<le> s then 0 else fsm_get_avail B page s)" for s
    using nth [of "NonLeafNodesPerPage B + s"] b by (simp add: fsm_get_avail_def p_def)
  note r = fsm_rebuild_page_correct [OF assms(1) p]
  have same: "p = page" if "\<not> changed"
  proof -
    have "nodes = fp_nodes page"
      using that len nth by (intro nth_equalityI) (auto simp: changed_def list_ex_iff nodes_def)
    then show ?thesis by (simp add: p_def)
  qed
  show "fsm_shape B (snd (fsm_truncate_avail B page nslots))" using r(1) p by (simp add: run fsm_ok_def)
  show av: "s < LeafNodesPerPage B \<Longrightarrow> fsm_get_avail B (snd (fsm_truncate_avail B page nslots)) s =
       (if nslots \<le> s then 0 else fsm_get_avail B page s)" for s
    using leaf r(2) by (simp add: run)
  show "fsm_ok B page \<Longrightarrow> fsm_ok B (snd (fsm_truncate_avail B page nslots))"
    using r(1) same by (auto simp: run)
  show "fst (fsm_truncate_avail B page nslots) \<longleftrightarrow> snd (fsm_truncate_avail B page nslots) \<noteq> page"
  proof (cases changed)
    case True
    then obtain i where i: "?first \<le> i" "i < NodesPerPage B" "fp_nodes page ! i \<noteq> 0"
      by (auto simp: changed_def list_ex_iff)
    then have "fsm_get_avail B page (i - NonLeafNodesPerPage B) \<noteq> 0" "nslots \<le> i - NonLeafNodesPerPage B"
        "i - NonLeafNodesPerPage B < LeafNodesPerPage B"
      using b by (auto simp: fsm_get_avail_def)
    with av [of "i - NonLeafNodesPerPage B"] have "snd (fsm_truncate_avail B page nslots) \<noteq> page" by auto
    then show ?thesis using True by (simp add: run)
  next
    case False
    then show ?thesis using same by (simp add: run)
  qed
qed

section \<open>Searching\<close>

lemma and_succ_zero:
  fixes n :: nat
  assumes "2 ^ j \<le> n" "n < 2 * 2 ^ j"
  shows "(n + 1) AND n = 0 \<longleftrightarrow> n + 1 = 2 * 2 ^ j"
proof
  assume "n + 1 = 2 * 2 ^ j"
  then have "n + 1 = 2 ^ Suc j" "n = mask (Suc j)" by (simp_all add: mask_eq_exp_minus_1)
  then have "(n + 1) AND n = take_bit (Suc j) (2 ^ Suc j)" by (simp only: take_bit_eq_mask)
  also have "\<dots> = 0" by (simp add: take_bit_eq_mod)
  finally show "(n + 1) AND n = 0" .
next
  assume zero: "(n + 1) AND n = 0"
  show "n + 1 = 2 * 2 ^ j"
  proof (rule ccontr)
    assume "n + 1 \<noteq> 2 * 2 ^ j"
    then have "n div 2 ^ j = 1" "(n + 1) div 2 ^ j = 1"
      using assms by (simp_all add: div_nat_eqI)
    then have "bit n j" "bit (n + 1) j" by (simp_all add: bit_iff_odd)
    then have "bit ((n + 1) AND n) j" by (simp add: bit_and_iff)
    then show False using zero by simp
  qed
qed

text \<open>One step of the first loop, with the nodes numbered from 1 and \<open>n\<close> at the level of \<open>2 ^ j\<close>.\<close>

lemma climb:
  assumes "2 * 2 ^ j \<le> n" "n < 2 * (2 * 2 ^ j)"
  shows "parentof (rightneighbor (n - 1)) = (if n + 1 = 2 * (2 * 2 ^ j) then 2 ^ j else (n + 1) div 2) - 1"
proof -
  have n: "n - 1 + 1 = n" using assms(1) by (cases n) simp_all
  have "(n + 1) AND n = 0 \<longleftrightarrow> n + 1 = 2 * (2 * 2 ^ j)"
    using and_succ_zero [of "Suc j" n] assms by simp
  then have r: "rightneighbor (n - 1) = (if n + 1 = 2 * (2 * 2 ^ j) then parentof n else n)"
    unfolding rightneighbor_def n Let_def by simp
  show ?thesis
  proof (cases "n + 1 = 2 * (2 * 2 ^ j)")
    case True
    then have "parentof n = 2 * 2 ^ j - 1" by (simp add: parentof_def)
    then show ?thesis using True r by (simp add: parentof_def)
  next
    case False
    then show ?thesis using r assms(1) by (simp add: parentof_def)
  qed
qed

definition suitable :: "nat \<Rightarrow> FSMPageData \<Rightarrow> uint8 \<Rightarrow> nat \<Rightarrow> bool" where
  "suitable B page minvalue s \<longleftrightarrow> s < LeafNodesPerPage B \<and> minvalue \<le> fsm_get_avail B page s"

text \<open>
  What holds when the first loop, started at slot \<open>t\<close>, reaches node \<open>n\<close> at height \<open>k\<close>: the slots from
  \<open>t\<close> to the first leaf of \<open>n\<close> have been ruled out, possibly around the right edge.
\<close>

definition up_searched :: "nat \<Rightarrow> nat \<Rightarrow> FSMPageData \<Rightarrow> uint8 \<Rightarrow> nat \<Rightarrow> nat \<Rightarrow> nat \<Rightarrow> bool" where
  "up_searched B D page minvalue t n k \<longleftrightarrow>
     2 ^ D + t \<le> n * 2 ^ k \<and> (\<forall>s. t \<le> s \<and> 2 ^ D + s < n * 2 ^ k \<longrightarrow> \<not> suitable B page minvalue s) \<or>
     n * 2 ^ k = 2 ^ D \<and> (\<forall>s. t \<le> s \<longrightarrow> \<not> suitable B page minvalue s)"

lemma div_pow_iff: "x div 2 ^ k = n \<longleftrightarrow> n * 2 ^ k \<le> x \<and> x < (n + 1) * 2 ^ k" for x n :: nat
proof
  assume "x div 2 ^ k = n"
  then show "n * 2 ^ k \<le> x \<and> x < (n + 1) * 2 ^ k"
    using div_times_less_eq_dividend [of x "2 ^ k"] dividend_less_div_times [of "2 ^ k" x] by simp
next
  assume "n * 2 ^ k \<le> x \<and> x < (n + 1) * 2 ^ k"
  then show "x div 2 ^ k = n" by (intro div_nat_eqI) (simp_all add: mult.commute)
qed

lemma node_val_suitable:
  assumes "fsm_ok B page" "fsm_layout B D" "0 < minvalue" "k \<le> D" "2 ^ (D - k) \<le> n" "n < 2 * 2 ^ (D - k)"
  shows "minvalue \<le> node_val B (fp_nodes page) (n - 1) \<longleftrightarrow>
    (\<exists>s. suitable B page minvalue s \<and> n * 2 ^ k \<le> 2 ^ D + s \<and> 2 ^ D + s < (n + 1) * 2 ^ k)"
  using node_val_ge [OF assms] unfolding div_pow_iff suitable_def by blast

lemma up_searched_step:
  assumes ok: "fsm_ok B page" "fsm_layout B D" "0 < minvalue" and k: "k < D"
    and n: "2 * 2 ^ (D - Suc k) \<le> n" "n < 2 * (2 * 2 ^ (D - Suc k))"
    and low: "\<not> minvalue \<le> node_val B (fp_nodes page) (n - 1)"
    and inv: "up_searched B D page minvalue t n k"
    and m: "m = (if n + 1 = 2 * (2 * 2 ^ (D - Suc k)) then 2 ^ (D - Suc k) else (n + 1) div 2)"
  shows "up_searched B D page minvalue t m (Suc k)"
proof -
  define j where "j = D - Suc k"
  have D: "D = j + Suc k" using k by (simp add: j_def)
  have p: "(2::nat) ^ D = 2 ^ j * (2 * 2 ^ k)" by (simp add: D power_add)
  have none: "\<not> suitable B page minvalue s" if "n * 2 ^ k \<le> 2 ^ D + s" "2 ^ D + s < (n + 1) * 2 ^ k" for s
    using low node_val_suitable [OF ok, of k n] n that k
    by (simp add: D) (metis (no_types, lifting))
  show ?thesis
  proof (cases "n + 1 = 2 * (2 * 2 ^ j)")
    case True
    then have m2: "m * 2 ^ Suc k = 2 ^ D" using m by (simp add: p j_def)
    have e: "(n + 1) * 2 ^ k = 2 * 2 ^ D" using True by (simp add: p)
    have "\<not> suitable B page minvalue s" if "t \<le> s" for s
    proof (cases "s < LeafNodesPerPage B")
      case s: True
      then have "s < 2 ^ D" using ok(2) unfolding fsm_layout_def by linarith
      then have "2 ^ D + s < (n + 1) * 2 ^ k" using e by simp
      then show ?thesis using none [of s] inv that unfolding up_searched_def by (meson not_le)
    qed (simp add: suitable_def)
    then show ?thesis using m2 by (simp add: up_searched_def)
  next
    case False
    then have m2: "m = (n + 1) div 2" using m by (simp add: j_def)
    show ?thesis
    proof (cases "even n")
      case True
      then have m3: "m * 2 ^ Suc k = n * 2 ^ k" using m2 by auto
      show ?thesis using inv unfolding up_searched_def m3 .
    next
      case odd: False
      then have m3: "m * 2 ^ Suc k = (n + 1) * 2 ^ k" using m2 by (auto elim!: oddE)
      have "n * 2 ^ k \<noteq> 2 ^ D"
      proof
        assume "n * 2 ^ k = 2 ^ D"
        then have "n * 2 ^ k = (2 ^ j * 2) * 2 ^ k" by (simp add: p)
        then have "n = 2 ^ j * 2" by (metis mult_cancel2 power_not_zero zero_neq_numeral)
        then show False using odd by simp
      qed
      then have a: "2 ^ D + t \<le> n * 2 ^ k" "\<forall>s. t \<le> s \<and> 2 ^ D + s < n * 2 ^ k \<longrightarrow> \<not> suitable B page minvalue s"
        using inv unfolding up_searched_def by simp_all
      have "2 ^ D + t \<le> (n + 1) * 2 ^ k" using a(1) by simp
      moreover have "\<forall>s. t \<le> s \<and> 2 ^ D + s < (n + 1) * 2 ^ k \<longrightarrow> \<not> suitable B page minvalue s"
        using a(2) none by (meson not_le)
      ultimately show ?thesis unfolding up_searched_def m3 by blast
    qed
  qed
qed

lemma node_bound:
  assumes "fsm_layout B D" "0 < k" "k \<le> D" "n < 2 * 2 ^ (D - k)"
  shows "n - 1 < NonLeafNodesPerPage B" "n - 1 < NodesPerPage B"
proof -
  obtain i where k: "k = Suc i" using assms(2) by (cases k) auto
  have "2 * (2::nat) ^ (D - k) = 2 ^ (D - i)"
    using assms(3) k by (simp flip: power_Suc add: Suc_diff_Suc)
  also have "\<dots> \<le> 2 ^ D" by (intro power_increasing) simp_all
  finally show "n - 1 < NonLeafNodesPerPage B" "n - 1 < NodesPerPage B"
    using assms(1,4) unfolding fsm_layout_def by linarith+
qed

lemma search_up_correct:
  assumes ok: "fsm_ok B page" "fsm_layout B D" "0 < minvalue" and some: "suitable B page minvalue s0"
    and "k \<le> D" "2 ^ (D - k) \<le> n" "n < 2 * 2 ^ (D - k)" "n - 1 < NodesPerPage B"
    and "up_searched B D page minvalue t n k"
  shows "\<exists>k' n'. search_up (fp_nodes page) minvalue (n - 1) = n' - 1 \<and> k' \<le> D \<and> 2 ^ (D - k') \<le> n' \<and>
    n' < 2 * 2 ^ (D - k') \<and> n' - 1 < NodesPerPage B \<and> up_searched B D page minvalue t n' k' \<and>
    minvalue \<le> node_val B (fp_nodes page) (n' - 1)"
  using assms(5-)
proof (induction "D - k" arbitrary: k n)
  case 0
  then have k: "k = D" and n: "n = 1" by simp_all
  have "s0 < 2 ^ D" using some ok(2) unfolding suitable_def fsm_layout_def by linarith
  then have "minvalue \<le> node_val B (fp_nodes page) (n - 1)"
    using node_val_suitable [OF ok, of D 1] some k n by auto
  moreover have "search_up (fp_nodes page) minvalue (n - 1) = n - 1" by (simp add: n search_up.simps)
  ultimately show ?case using 0 by blast
next
  case (Suc j)
  then have k: "k < D" and j: "D - Suc k = j" by auto
  have d: "2 ^ (D - k) = 2 * (2::nat) ^ j" using Suc.hyps(2) by (metis power_Suc)
  have n: "2 * 2 ^ j \<le> n" "n < 2 * (2 * 2 ^ j)" using Suc.prems(2,3) d by simp_all
  have pos: "0 < n - 1" using n(1) by (cases "2 ^ j :: nat") simp_all
  have nv: "node_val B (fp_nodes page) (n - 1) = fp_nodes page ! (n - 1)"
    using Suc.prems(4) by (simp add: node_val_def)
  show ?case
  proof (cases "minvalue \<le> node_val B (fp_nodes page) (n - 1)")
    case True
    then have "search_up (fp_nodes page) minvalue (n - 1) = n - 1"
      using pos nv by (subst search_up.simps) simp
    then show ?thesis using True Suc.prems by blast
  next
    case False
    define m where "m = (if n + 1 = 2 * (2 * 2 ^ j) then 2 ^ j else (n + 1) div 2)"
    have step: "search_up (fp_nodes page) minvalue (n - 1) = search_up (fp_nodes page) minvalue (m - 1)"
      using pos nv False climb [OF n] by (subst search_up.simps) (simp add: m_def)
    have m: "2 ^ j \<le> m" "m < 2 * 2 ^ j"
      using n by (auto simp: m_def)
    have inv: "up_searched B D page minvalue t m (Suc k)"
      using up_searched_step [OF ok k _ _ False Suc.prems(5), unfolded j, OF n m_def] .
    have "m - 1 < NodesPerPage B" using node_bound [OF ok(2), of "Suc k" m] k m j by simp
    then show ?thesis
      unfolding step using Suc.hyps(1) [of "Suc k" m] k j m inv by simp
  qed
qed

lemma search_down_correct:
  assumes ok: "fsm_ok B page" "fsm_layout B D" "0 < minvalue"
    and "k \<le> D" "2 ^ (D - k) \<le> n" "n < 2 * 2 ^ (D - k)" "n - 1 < NodesPerPage B"
    and "minvalue \<le> node_val B (fp_nodes page) (n - 1)"
  shows "\<exists>s. search_down B (fp_nodes page) minvalue (n - 1) = Some (NonLeafNodesPerPage B + s) \<and>
    suitable B page minvalue s \<and> n * 2 ^ k \<le> 2 ^ D + s \<and> 2 ^ D + s < (n + 1) * 2 ^ k \<and>
    (\<forall>s'. n * 2 ^ k \<le> 2 ^ D + s' \<and> s' < s \<longrightarrow> \<not> suitable B page minvalue s')"
  using assms(4-)
proof (induction k arbitrary: n)
  case 0
  have lay: "NonLeafNodesPerPage B = 2 ^ D - 1" "(32::nat) \<le> 2 ^ D" using ok(2) by (simp_all add: fsm_layout_def)
  define s where "s = n - 2 ^ D"
  have n: "n = 2 ^ D + s" "n - 1 = NonLeafNodesPerPage B + s" using 0 lay by (simp_all add: s_def)
  have "search_down B (fp_nodes page) minvalue (n - 1) = Some (n - 1)"
    unfolding n(2) by (subst search_down.simps) simp
  moreover have "suitable B page minvalue s"
    using node_val_suitable [OF ok, of 0 n] 0 n(1) by (auto simp: le_less_Suc_eq)
  ultimately show ?case using n by (intro exI [of _ s]) auto
next
  case (Suc k)
  have d: "2 * 2 ^ (D - Suc k) = (2::nat) ^ (D - k)"
    using Suc.prems(1) by (simp flip: power_Suc add: Suc_diff_Suc)
  have pos: "0 < n" using Suc.prems(2) by (cases n) simp_all
  note i = node_bound [OF ok(2) zero_less_Suc Suc.prems(1,3)]
  have ch: "leftchild (n - 1) = 2 * n - 1" "2 * n - 1 + 1 = 2 * n + 1 - 1" "rightchild (n - 1) = 2 * n + 1 - 1"
    using pos by (auto simp: leftchild_def rightchild_def)
  have test: "i < NodesPerPage B \<and> minvalue \<le> fp_nodes page ! i \<longleftrightarrow> minvalue \<le> node_val B (fp_nodes page) i" for i
    using ok(3) by (auto simp: node_val_def dest: leD)
  have down: "search_down B (fp_nodes page) minvalue (n - 1) =
      (if minvalue \<le> node_val B (fp_nodes page) (2 * n - 1) then search_down B (fp_nodes page) minvalue (2 * n - 1)
       else if minvalue \<le> node_val B (fp_nodes page) (2 * n + 1 - 1)
         then search_down B (fp_nodes page) minvalue (2 * n + 1 - 1) else None)"
    by (subst search_down.simps) (simp only: Let_def ch test i if_True)
  have lv: "2 ^ (D - k) \<le> 2 * n" "2 * n < 2 * 2 ^ (D - k)" "2 ^ (D - k) \<le> 2 * n + 1" "2 * n + 1 < 2 * 2 ^ (D - k)"
    using Suc.prems d by simp_all
  have e: "n * 2 ^ Suc k = 2 * n * 2 ^ k" "(n + 1) * 2 ^ Suc k = (2 * n + 1 + 1) * 2 ^ k" by simp_all
  show ?case
  proof (cases "minvalue \<le> node_val B (fp_nodes page) (2 * n - 1)")
    case True
    then have "2 * n - 1 < NodesPerPage B" using test by blast
    then obtain s where s: "search_down B (fp_nodes page) minvalue (2 * n - 1) = Some (NonLeafNodesPerPage B + s)"
        "suitable B page minvalue s" "2 * n * 2 ^ k \<le> 2 ^ D + s" "2 ^ D + s < (2 * n + 1) * 2 ^ k"
        "\<forall>s'. 2 * n * 2 ^ k \<le> 2 ^ D + s' \<and> s' < s \<longrightarrow> \<not> suitable B page minvalue s'"
      using Suc.IH [OF _ lv(1,2) _ True] Suc.prems(1) by auto
    have "(2 * n + 1) * 2 ^ k \<le> (2 * n + 1 + 1) * 2 ^ k" by simp
    then have "2 ^ D + s < (2 * n + 1 + 1) * 2 ^ k" using s(4) by (rule order_less_le_trans [rotated])
    then show ?thesis unfolding e down using True s by auto
  next
    case False
    have "fp_nodes page ! (n - 1) = max (node_val B (fp_nodes page) (2 * n - 1)) (node_val B (fp_nodes page) (2 * n + 1 - 1))"
      using ok(1) i(1) unfolding fsm_ok_def node_ok_def ch(1,3) [symmetric] by blast
    moreover have "node_val B (fp_nodes page) (n - 1) = fp_nodes page ! (n - 1)"
      using i(2) by (simp add: node_val_def)
    ultimately have right: "minvalue \<le> node_val B (fp_nodes page) (2 * n + 1 - 1)"
      using Suc.prems(5) False by (simp only: le_max_iff_disj simp_thms)
    then have "2 * n + 1 - 1 < NodesPerPage B" using test by blast
    then obtain s where s: "search_down B (fp_nodes page) minvalue (2 * n + 1 - 1) = Some (NonLeafNodesPerPage B + s)"
        "suitable B page minvalue s" "(2 * n + 1) * 2 ^ k \<le> 2 ^ D + s" "2 ^ D + s < (2 * n + 1 + 1) * 2 ^ k"
        "\<forall>s'. (2 * n + 1) * 2 ^ k \<le> 2 ^ D + s' \<and> s' < s \<longrightarrow> \<not> suitable B page minvalue s'"
      using Suc.IH [OF _ lv(3,4) _ right] Suc.prems(1) by auto
    have left: "\<not> suitable B page minvalue s'" if "2 * n * 2 ^ k \<le> 2 ^ D + s'" "2 ^ D + s' < (2 * n + 1) * 2 ^ k" for s'
      using False node_val_suitable [OF ok _ lv(1,2)] Suc.prems(1) that by (metis Suc_leD)
    have "2 * n * 2 ^ k \<le> (2 * n + 1) * 2 ^ k" by simp
    then have lo: "2 * n * 2 ^ k \<le> 2 ^ D + s" using s(3) by (rule order_trans)
    have none: "\<forall>s'. 2 * n * 2 ^ k \<le> 2 ^ D + s' \<and> s' < s \<longrightarrow> \<not> suitable B page minvalue s'"
      using s(5) left by (meson not_le)
    show ?thesis unfolding e down using False right s(1,2,4) lo none by auto
  qed
qed

text \<open>The reference: a linear scan of the slots from the target, around the end of the page.\<close>

definition first_suitable :: "nat \<Rightarrow> FSMPageData \<Rightarrow> uint8 \<Rightarrow> nat option" where
  "first_suitable B page minvalue =
     (let t = search_target B page in
      find (\<lambda>s. minvalue \<le> fsm_get_avail B page s) ([t..<LeafNodesPerPage B] @ [0..<t]))"

lemma find_append_None: "find P xs = None \<Longrightarrow> find P (xs @ ys) = find P ys"
  by (induction xs) (auto split: if_splits)

lemma find_append_Some: "find P xs = Some x \<Longrightarrow> find P (xs @ ys) = Some x"
  by (induction xs) (auto split: if_splits)

lemma find_upt_Some:
  assumes "a \<le> s" "s < b" "P s" "\<And>i. a \<le> i \<Longrightarrow> i < s \<Longrightarrow> \<not> P i"
  shows "find P [a..<b] = Some s"
proof -
  have "[a..<b] = [a..<s] @ s # [Suc s..<b]"
    using assms(1,2) by (metis le_add_diff_inverse less_imp_le_nat upt_add_eq_append upt_conv_Cons)
  moreover have "find P [a..<s] = None" using assms(4) by (auto simp: find_None_iff)
  ultimately show ?thesis using assms(3) by (simp add: find_append_None)
qed

lemma search_target_less: "fsm_blcksz B \<Longrightarrow> search_target B page < LeafNodesPerPage B"
  using tree_bounds(5) [of B] by (auto simp: search_target_def Let_def)

lemma first_suitableI:
  assumes "fsm_blcksz B" "suitable B page minvalue s" "t = search_target B page"
    "t \<le> s \<and> (\<forall>s'. t \<le> s' \<and> s' < s \<longrightarrow> \<not> suitable B page minvalue s') \<or>
     s < t \<and> (\<forall>s'. t \<le> s' \<or> s' < s \<longrightarrow> \<not> suitable B page minvalue s')"
  shows "first_suitable B page minvalue = Some s"
  using assms(4)
proof (elim disjE conjE)
  let ?P = "\<lambda>s. minvalue \<le> fsm_get_avail B page s"
  have t: "t < LeafNodesPerPage B" using search_target_less [OF assms(1)] assms(3) by simp
  have s: "s < LeafNodesPerPage B" "?P s" using assms(2) by (simp_all add: suitable_def)
  {
    assume "t \<le> s" "\<forall>s'. t \<le> s' \<and> s' < s \<longrightarrow> \<not> suitable B page minvalue s'"
    then have "find ?P [t..<LeafNodesPerPage B] = Some s"
      using s by (intro find_upt_Some) (auto simp: suitable_def)
    then show ?thesis
      unfolding first_suitable_def assms(3) [symmetric] Let_def by (rule find_append_Some)
  next
    assume st: "s < t" and none: "\<forall>s'. t \<le> s' \<or> s' < s \<longrightarrow> \<not> suitable B page minvalue s'"
    have "find ?P [t..<LeafNodesPerPage B] = None" using none by (auto simp: find_None_iff suitable_def)
    moreover have "find ?P [0..<t] = Some s"
      using st none t s by (intro find_upt_Some) (auto simp: suitable_def)
    ultimately show ?thesis
      unfolding first_suitable_def assms(3) [symmetric] Let_def by (simp add: find_append_None)
  }
qed

lemma search_finds_first:
  assumes "fsm_blcksz B" "fsm_ok B page" "minvalue \<le> fp_nodes page ! 0"
  shows "\<exists>s. search_down B (fp_nodes page) minvalue
      (search_up (fp_nodes page) minvalue (search_target B page + NonLeafNodesPerPage B)) =
        Some (NonLeafNodesPerPage B + s) \<and> suitable B page minvalue s \<and> first_suitable B page minvalue = Some s"
proof -
  define t where "t = search_target B page"
  have t: "t < LeafNodesPerPage B" using search_target_less [OF assms(1)] by (simp add: t_def)
  note b = tree_bounds [OF assms(1)]
  show ?thesis
  proof (cases "minvalue = 0")
    case True
    have "search_up (fp_nodes page) minvalue (t + NonLeafNodesPerPage B) = NonLeafNodesPerPage B + t"
      using b(1) True by (subst search_up.simps) simp
    moreover have "search_down B (fp_nodes page) minvalue (NonLeafNodesPerPage B + t) = Some (NonLeafNodesPerPage B + t)"
      by (subst search_down.simps) simp
    moreover have "suitable B page minvalue t" using t True by (simp add: suitable_def)
    moreover from this have "first_suitable B page minvalue = Some t"
      using assms(1) by (intro first_suitableI [OF _ _ t_def]) auto
    ultimately show ?thesis by (auto simp: t_def)
  next
    case False
    then have pos: "0 < minvalue" by (simp add: word_gt_0)
    obtain D where D: "fsm_layout B D" using fsm_layout_exists [OF assms(1)] ..
    obtain s0 where s0: "suitable B page minvalue s0"
      using root_ge [OF assms(1,2) pos] assms(3) by (auto simp: suitable_def)
    let ?n = "2 ^ D + t"
    have n: "t + NonLeafNodesPerPage B = ?n - 1" "?n < 2 * 2 ^ D" "?n - 1 < NodesPerPage B"
      using D t unfolding fsm_layout_def by linarith+
    have "up_searched B D page minvalue t ?n 0" by (auto simp: up_searched_def)
    then obtain k' n' where up: "search_up (fp_nodes page) minvalue (?n - 1) = n' - 1" "k' \<le> D"
        "2 ^ (D - k') \<le> n'" "n' < 2 * 2 ^ (D - k')" "n' - 1 < NodesPerPage B"
        "up_searched B D page minvalue t n' k'" "minvalue \<le> node_val B (fp_nodes page) (n' - 1)"
      using search_up_correct [OF assms(2) D pos s0, of 0 ?n t] n by auto
    obtain s where s: "search_down B (fp_nodes page) minvalue (n' - 1) = Some (NonLeafNodesPerPage B + s)"
        "suitable B page minvalue s" "n' * 2 ^ k' \<le> 2 ^ D + s" "2 ^ D + s < (n' + 1) * 2 ^ k'"
        "\<forall>s'. n' * 2 ^ k' \<le> 2 ^ D + s' \<and> s' < s \<longrightarrow> \<not> suitable B page minvalue s'"
      using search_down_correct [OF assms(2) D pos up(2-5,7)] by blast
    have "t \<le> s \<and> (\<forall>s'. t \<le> s' \<and> s' < s \<longrightarrow> \<not> suitable B page minvalue s') \<or>
        s < t \<and> (\<forall>s'. t \<le> s' \<or> s' < s \<longrightarrow> \<not> suitable B page minvalue s')"
      using up(6) unfolding up_searched_def
    proof (elim disjE conjE)
      assume a: "2 ^ D + t \<le> n' * 2 ^ k'"
        "\<forall>s'. t \<le> s' \<and> 2 ^ D + s' < n' * 2 ^ k' \<longrightarrow> \<not> suitable B page minvalue s'"
      have "t \<le> s" using order_trans [OF a(1) s(3)] by simp
      then show ?thesis using a(2) s(5) by (meson not_le)
    next
      assume "n' * 2 ^ k' = 2 ^ D" "\<forall>s'. t \<le> s' \<longrightarrow> \<not> suitable B page minvalue s'"
      then show ?thesis using s(2,5) by (metis le_add1 not_le)
    qed
    then have "first_suitable B page minvalue = Some s"
      using first_suitableI [OF assms(1) s(2) t_def] by simp
    then show ?thesis using s(1,2) up(1) n(1) by (auto simp: t_def)
  qed
qed

lemma fsm_search_avail_ok:
  assumes "fsm_blcksz B" "fsm_ok B page"
  shows "fsm_search_avail B page minvalue advancenext =
    Some (case first_suitable B page minvalue of
        None \<Rightarrow> (-1, page)
      | Some s \<Rightarrow> (int s, page\<lparr>fp_next_slot := int s + (if advancenext then 1 else 0)\<rparr>))"
proof (cases "fp_nodes page ! 0 < minvalue")
  case True
  then have pos: "0 < minvalue" using word_gt_0 by fastforce
  have t: "search_target B page < LeafNodesPerPage B" using search_target_less [OF assms(1)] .
  have "\<not> suitable B page minvalue s" for s
    using root_ge [OF assms pos] True by (auto simp: suitable_def dest: leD)
  then have "first_suitable B page minvalue = None"
    using t by (auto simp: first_suitable_def Let_def find_None_iff suitable_def)
  then show ?thesis using True by (subst fsm_search_avail.simps) simp
next
  case False
  then obtain s where s: "search_down B (fp_nodes page) minvalue
      (search_up (fp_nodes page) minvalue (search_target B page + NonLeafNodesPerPage B)) =
        Some (NonLeafNodesPerPage B + s)" "suitable B page minvalue s" "first_suitable B page minvalue = Some s"
    using search_finds_first [OF assms] by (auto simp: not_less)
  have "s < 2 ^ 16" using s(2) tree_bounds(4) [OF assms(1)] by (simp add: suitable_def)
  then have "int s mod 65536 = int s" by simp
  then show ?thesis using False s by (subst fsm_search_avail.simps) (simp add: Let_def)
qed

lemma search_down_sound:
  assumes "search_down B nodes minvalue n0 = Some n" "n0 < NodesPerPage B"
    "NonLeafNodesPerPage B \<le> n0 \<Longrightarrow> minvalue \<le> nodes ! n0"
  shows "NonLeafNodesPerPage B \<le> n \<and> n < NodesPerPage B \<and> minvalue \<le> nodes ! n"
  using assms
proof (induction B nodes minvalue n0 rule: search_down.induct)
  case (1 B nodes minvalue n0)
  show ?case
    using 1(1,2) [OF _ refl] 1(3-) by (subst (asm) search_down.simps) (auto simp: Let_def split: if_splits)
qed

lemma search_up_bound:
  assumes "search_up nodes minvalue n0 = n"
  shows "n \<le> n0 \<and> (n = 0 \<or> minvalue \<le> nodes ! n)"
  using assms
proof (induction nodes minvalue n0 rule: search_up.induct)
  case (1 nodes minvalue n0)
  show ?case
  proof (cases "n0 > 0 \<and> \<not> minvalue \<le> nodes ! n0")
    case True
    then have "search_up nodes minvalue (parentof (rightneighbor n0)) = n"
      using 1(2) by (subst (asm) search_up.simps) simp
    then show ?thesis using 1(1) True rightneighbor_climbs [of n0] by fastforce
  next
    case False
    then have "n = n0" using 1(2) by (subst (asm) search_up.simps) (auto split: if_splits)
    then show ?thesis using False by auto
  qed
qed

lemma find_SomeD: "find P xs = Some x \<Longrightarrow> x \<in> set xs \<and> P x"
  by (induction xs) (auto split: if_splits)

lemma first_suitableD:
  assumes "fsm_blcksz B" "first_suitable B page minvalue = Some s"
  shows "suitable B page minvalue s"
  using find_SomeD [OF assms(2) [unfolded first_suitable_def Let_def]] search_target_less [OF assms(1), of page]
  by (auto simp: suitable_def)

lemma fsm_search_avail_sound:
  assumes "fsm_blcksz B" "fsm_shape B page"
  shows "\<exists>slot page'. fsm_search_avail B page minvalue advancenext = Some (slot, page') \<and> fsm_shape B page' \<and>
    (fsm_ok B page \<longrightarrow> fsm_ok B page') \<and>
    (\<forall>s < LeafNodesPerPage B. fsm_get_avail B page' s = fsm_get_avail B page s) \<and>
    (slot = -1 \<or> 0 \<le> slot \<and> suitable B page minvalue (nat slot))"
proof -
  have fine: ?thesis if "fsm_search_avail B page minvalue advancenext = fsm_search_avail B p minvalue advancenext"
      "fsm_ok B p" "\<forall>s. fsm_get_avail B p s = fsm_get_avail B page s" for p
  proof (cases "first_suitable B p minvalue")
    case None
    then show ?thesis using that fsm_search_avail_ok [OF assms(1) that(2)] by (auto simp: fsm_ok_def)
  next
    case (Some s)
    then have "suitable B p minvalue s" using first_suitableD [OF assms(1)] by blast
    then show ?thesis
      using that Some fsm_search_avail_ok [OF assms(1) that(2), of minvalue advancenext]
      by (simp add: fsm_ok_def fsm_shape_def suitable_def fsm_get_avail_def)
  qed
  let ?up = "search_up (fp_nodes page) minvalue (search_target B page + NonLeafNodesPerPage B)"
  note b = tree_bounds [OF assms(1)]
  consider "fp_nodes page ! 0 < minvalue"
    | "\<not> fp_nodes page ! 0 < minvalue" "search_down B (fp_nodes page) minvalue ?up = None"
    | n where "\<not> fp_nodes page ! 0 < minvalue" "search_down B (fp_nodes page) minvalue ?up = Some n"
    by (cases "search_down B (fp_nodes page) minvalue ?up") auto
  then show ?thesis
  proof cases
    case 1
    then show ?thesis using assms(2) by (subst fsm_search_avail.simps) simp
  next
    case 2
    have "fsm_search_avail B page minvalue advancenext =
        fsm_search_avail B (snd (fsm_rebuild_page B page)) minvalue advancenext"
      using 2 by (subst fsm_search_avail.simps) simp
    then show ?thesis using fsm_rebuild_page_correct(1,2) [OF assms] by (intro fine) auto
  next
    case (3 n)
    have up: "?up \<le> search_target B page + NonLeafNodesPerPage B" "?up = 0 \<or> minvalue \<le> fp_nodes page ! ?up"
      using search_up_bound [OF refl] by blast+
    have "?up < NodesPerPage B" using up(1) search_target_less [OF assms(1), of page] b by simp
    moreover have "minvalue \<le> fp_nodes page ! ?up" using up(2) 3(1) by (auto simp: not_less)
    ultimately have n: "NonLeafNodesPerPage B \<le> n" "n < NodesPerPage B" "minvalue \<le> fp_nodes page ! n"
      using search_down_sound [OF 3(2)] by blast+
    define s where "s = n - NonLeafNodesPerPage B"
    have s: "suitable B page minvalue s" using n b by (simp add: s_def suitable_def fsm_get_avail_def)
    have "int s mod 65536 = int s" using s b(4) by (simp add: suitable_def)
    then show ?thesis
      using 3 s assms(2) unfolding s_def
      by (subst fsm_search_avail.simps) (simp add: Let_def fsm_shape_def fsm_ok_def fsm_get_avail_def)
  qed
qed

section \<open>What a page of the free space map promises\<close>

text \<open>
  C32: Every update of a page keeps the tree consistent, and stores what it should: \<open>fsm_set_avail\<close>
  changes the one slot, \<open>fsm_truncate_avail\<close> clears the slots from the given one on, and both report
  whether the page changed. \<open>fsm_rebuild_page\<close> makes any page consistent without changing a slot, and
  even on a page that is not consistent the root covers the value just set.
\<close>

theorem fsm_page_updates:
  assumes "fsm_blcksz B" "fsm_shape B page" "slot < LeafNodesPerPage B"
  shows "(let (changed, page') = fsm_set_avail B page slot v in
      fsm_shape B page' \<and> (fsm_ok B page \<longrightarrow> fsm_ok B page') \<and> v \<le> fsm_get_max_avail page' \<and>
      (\<forall>s < LeafNodesPerPage B. fsm_get_avail B page' s = (if s = slot then v else fsm_get_avail B page s)) \<and>
      (changed \<longleftrightarrow> page' \<noteq> page)) \<and>
    (let (changed, page') = fsm_truncate_avail B page slot in
      fsm_shape B page' \<and> (fsm_ok B page \<longrightarrow> fsm_ok B page') \<and>
      (\<forall>s < LeafNodesPerPage B. fsm_get_avail B page' s = (if slot \<le> s then 0 else fsm_get_avail B page s)) \<and>
      (changed \<longleftrightarrow> page' \<noteq> page)) \<and>
    (let (changed, page') = fsm_rebuild_page B page in
      fsm_ok B page' \<and> (\<forall>s. fsm_get_avail B page' s = fsm_get_avail B page s) \<and> (changed \<longleftrightarrow> page' \<noteq> page) \<and>
      (changed \<longleftrightarrow> \<not> fsm_ok B page))"
  using fsm_set_avail_correct [OF assms, where v = v] fsm_truncate_avail_correct [OF assms]
    fsm_rebuild_page_correct [OF assms(1,2)]
  by (auto simp: Let_def split_beta)

theorem fsm_page_updates_witness:
  "let page = \<lparr>fp_next_slot = 0, fp_nodes = replicate 36 0\<rparr> in
   fsm_blcksz 64 \<and> fsm_shape 64 page \<and> (3::nat) < LeafNodesPerPage 64 \<and>
   fsm_get_avail 64 (snd (fsm_set_avail 64 page 3 200)) 3 = 200 \<and> fst (fsm_set_avail 64 page 3 200)"
proof -
  let ?page = "\<lparr>fp_next_slot = 0, fp_nodes = replicate 36 0\<rparr>"
  have h: "fsm_blcksz 64" "fsm_shape 64 ?page" "(3::nat) < LeafNodesPerPage 64"
    by (auto simp: fsm_blcksz_def fsm_shape_def LeafNodesPerPage_def NodesPerPage_def NonLeafNodesPerPage_def
        MAXALIGN_def SizeOfPageHeaderData_def image_def intro: bexI [of _ 6])
  have "fsm_get_avail 64 ?page 3 = 0"
    by (simp add: fsm_get_avail_def NonLeafNodesPerPage_def)
  then show ?thesis
    using fsm_page_updates [OF h, of 200] h by (auto simp: Let_def split_beta)
qed

text \<open>
  C30: On a consistent page, the tree search returns what a linear scan returns: the first slot with
  enough space at or after the target, going around the end of the page, and \<open>-1\<close> exactly when no
  slot has enough. The only change to the page is the pointer to the next target.
\<close>

theorem fsm_search_first_suitable:
  assumes "fsm_blcksz B" "fsm_ok B page"
  shows "fsm_search_avail B page minvalue advancenext =
    Some (case first_suitable B page minvalue of
        None \<Rightarrow> (-1, page)
      | Some s \<Rightarrow> (int s, page\<lparr>fp_next_slot := int s + (if advancenext then 1 else 0)\<rparr>))"
  by (rule fsm_search_avail_ok [OF assms])

theorem fsm_search_first_suitable_witness:
  "let page = snd (fsm_rebuild_page 64 \<lparr>fp_next_slot = 3, fp_nodes = replicate 31 0 @ [1, 9, 6, 2, 0]\<rparr>) in
   fsm_blcksz 64 \<and> fsm_ok 64 page \<and> map_option fst (fsm_search_avail 64 page 6 True) = Some 1"
proof -
  let ?raw = "\<lparr>fp_next_slot = 3, fp_nodes = replicate 31 0 @ [1, 9, 6, 2, 0]\<rparr>"
  let ?page = "snd (fsm_rebuild_page 64 ?raw)"
  have B: "fsm_blcksz 64" by (auto simp: fsm_blcksz_def image_def intro: bexI [of _ 6])
  have raw: "fsm_shape 64 ?raw" by (simp add: fsm_shape_def NodesPerPage_def MAXALIGN_def SizeOfPageHeaderData_def)
  note ok = fsm_rebuild_page_correct(1) [OF B raw]
  have "first_suitable 64 ?page 6 = Some 1" by code_simp
  then show ?thesis using fsm_search_first_suitable [OF B ok, of 6 True] B ok by (simp add: Let_def)
qed

text \<open>
  C31: The search ends on every page, however corrupt: it needs at most one repair. It changes no slot,
  and a slot it returns is on the page and has the space that was asked for.
\<close>

theorem fsm_search_terminates:
  assumes "fsm_blcksz B" "fsm_shape B page"
  shows "\<exists>slot page'. fsm_search_avail B page minvalue advancenext = Some (slot, page') \<and> fsm_shape B page' \<and>
    (\<forall>s < LeafNodesPerPage B. fsm_get_avail B page' s = fsm_get_avail B page s) \<and>
    (slot = -1 \<or> 0 \<le> slot \<and> slot < int (LeafNodesPerPage B) \<and> minvalue \<le> fsm_get_avail B page (nat slot))"
  using fsm_search_avail_sound [OF assms, of minvalue advancenext]
  by (auto simp: suitable_def)

theorem fsm_search_terminates_witness:
  "let page = \<lparr>fp_next_slot = -7, fp_nodes = replicate 31 255 @ [1, 9, 6, 2, 0]\<rparr> in
   fsm_blcksz 64 \<and> fsm_shape 64 page \<and> (\<exists>slot page'. fsm_search_avail 64 page 100 False = Some (slot, page'))"
proof -
  let ?page = "\<lparr>fp_next_slot = -7, fp_nodes = replicate 31 255 @ [1, 9, 6, 2, 0]\<rparr>"
  have h: "fsm_blcksz 64" "fsm_shape 64 ?page"
    by (auto simp: fsm_blcksz_def image_def fsm_shape_def NodesPerPage_def MAXALIGN_def SizeOfPageHeaderData_def
        intro: bexI [of _ 6])
  then show ?thesis using fsm_search_terminates [OF h, of 100 False] by (auto simp: Let_def)
qed

end
