(* ===== verification/Freespace.thy ===== *)
theory Freespace
  imports Fsmpage
begin

text \<open>
  The free space map of a relation, \<open>src/backend/storage/freespace/freespace.c\<close>: the categories of
  free space, the logical addresses of its pages and their place in the file, the search through the
  levels with its restarts, recording, truncation and the vacuum of the upper levels, on the pages of
  the theory before.  The fork is the list of its blocks; reading past its end is reported, and a
  write there extends it with empty pages.  The lemmas see the fork as a table of slots,
  \<open>slot_val\<close>, and show each operation on that table: it is at this level that the distinctness of the
  physical blocks matters.  \<open>ideal\<close> gives the value each upper slot should have and vacuuming is shown
  to compute it.  The locale \<open>space_map\<close> states what clients that record and look up rely on.
\<close>

section \<open>Categories of free space\<close>

definition FSM_CATEGORIES :: nat where
  "FSM_CATEGORIES = 256"

definition FSM_CAT_STEP :: "nat \<Rightarrow> nat" where
  "FSM_CAT_STEP B = B div FSM_CATEGORIES"

text \<open>\<open>MaxHeapTupleSize\<close> of \<open>access/htup_details.h\<close>; a line pointer has 4 bytes.\<close>

definition MaxFSMRequestSize :: "nat \<Rightarrow> nat" where
  "MaxFSMRequestSize B = B - MAXALIGN (SizeOfPageHeaderData + 4)"

definition fsm_space_avail_to_cat :: "nat \<Rightarrow> nat \<Rightarrow> uint8" where
  "fsm_space_avail_to_cat B avail =
     (if avail \<ge> MaxFSMRequestSize B then 255
      else let cat = avail div FSM_CAT_STEP B; cat = (if cat > 254 then 254 else cat) in of_nat cat)"

definition fsm_space_cat_to_avail :: "nat \<Rightarrow> uint8 \<Rightarrow> nat" where
  "fsm_space_cat_to_avail B cat = (if cat = 255 then MaxFSMRequestSize B else unat cat * FSM_CAT_STEP B)"

definition fsm_space_needed_to_cat :: "nat \<Rightarrow> nat \<Rightarrow> uint8 result" where
  "fsm_space_needed_to_cat B needed =
     (if needed > MaxFSMRequestSize B then Inl (ERROR ''invalid FSM request size'')
      else if needed = 0 then Inr 1
      else let cat = (needed + FSM_CAT_STEP B - 1) div FSM_CAT_STEP B; cat = (if cat > 255 then 255 else cat)
           in Inr (of_nat cat))"

section \<open>Addresses\<close>

definition SlotsPerFSMPage :: "nat \<Rightarrow> nat" where
  "SlotsPerFSMPage B = LeafNodesPerPage B"

definition FSM_TREE_DEPTH :: "nat \<Rightarrow> nat" where
  "FSM_TREE_DEPTH B = (if SlotsPerFSMPage B \<ge> 1626 then 3 else 4)"

definition FSM_ROOT_LEVEL :: "nat \<Rightarrow> nat" where
  "FSM_ROOT_LEVEL B = FSM_TREE_DEPTH B - 1"

definition FSM_BOTTOM_LEVEL :: nat where
  "FSM_BOTTOM_LEVEL = 0"

record FSMAddress =
  level :: nat
  logpageno :: nat

definition FSM_ROOT_ADDRESS :: "nat \<Rightarrow> FSMAddress" where
  "FSM_ROOT_ADDRESS B = \<lparr>level = FSM_ROOT_LEVEL B, logpageno = 0\<rparr>"

text \<open>The second loop of \<open>fsm_logical_to_physical\<close>.\<close>

fun count_pages :: "nat \<Rightarrow> nat \<Rightarrow> nat \<Rightarrow> nat \<Rightarrow> nat" where
  "count_pages S 0 leafno pages = pages"
| "count_pages S (Suc l) leafno pages = count_pages S l (leafno div S) (pages + (leafno + 1))"

definition fsm_logical_to_physical :: "nat \<Rightarrow> FSMAddress \<Rightarrow> nat" where
  "fsm_logical_to_physical B addr =
     (let leafno = ((\<lambda>leafno. leafno * SlotsPerFSMPage B) ^^ level addr) (logpageno addr);
          pages = count_pages (SlotsPerFSMPage B) (FSM_TREE_DEPTH B) leafno 0;
          pages = pages - level addr
      in pages - 1)"

definition fsm_get_location :: "nat \<Rightarrow> nat \<Rightarrow> FSMAddress \<times> nat" where
  "fsm_get_location B heapblk =
     (\<lparr>level = FSM_BOTTOM_LEVEL, logpageno = heapblk div SlotsPerFSMPage B\<rparr>, heapblk mod SlotsPerFSMPage B)"

text \<open>The result is a \<open>BlockNumber\<close>, so the arithmetic is that of 32-bit unsigned numbers.\<close>

definition fsm_get_heap_blk :: "nat \<Rightarrow> FSMAddress \<Rightarrow> nat \<Rightarrow> nat" where
  "fsm_get_heap_blk B addr slot = (logpageno addr * SlotsPerFSMPage B + slot) mod 2 ^ 32"

definition fsm_get_parent :: "nat \<Rightarrow> FSMAddress \<Rightarrow> FSMAddress \<times> nat" where
  "fsm_get_parent B child =
     (\<lparr>level = level child + 1, logpageno = logpageno child div SlotsPerFSMPage B\<rparr>,
      logpageno child mod SlotsPerFSMPage B)"

definition fsm_get_child :: "nat \<Rightarrow> FSMAddress \<Rightarrow> nat \<Rightarrow> FSMAddress" where
  "fsm_get_child B parent slot =
     \<lparr>level = level parent - 1, logpageno = logpageno parent * SlotsPerFSMPage B + slot\<rparr>"

section \<open>The map of a relation\<close>

text \<open>
  The free space map fork of a relation: the list of its blocks. A block that reads back corrupt is
  replaced by zeros, and a new page is initialised with zeros.
\<close>

type_synonym fsm_fork = "FSMPageData list"

definition new_page :: "nat \<Rightarrow> FSMPageData" where
  "new_page B = \<lparr>fp_next_slot = 0, fp_nodes = replicate (NodesPerPage B) 0\<rparr>"

definition fsm_extend :: "nat \<Rightarrow> fsm_fork \<Rightarrow> nat \<Rightarrow> fsm_fork" where
  "fsm_extend B rel fsm_nblocks = rel @ replicate (fsm_nblocks - length rel) (new_page B)"

text \<open>\<open>fsm_readbuf\<close>: the block of a page, \<open>None\<close> for \<open>InvalidBuffer\<close>, and the fork.\<close>

definition fsm_readbuf :: "nat \<Rightarrow> fsm_fork \<Rightarrow> FSMAddress \<Rightarrow> bool \<Rightarrow> nat option \<times> fsm_fork" where
  "fsm_readbuf B rel addr do_extend =
     (let blkno = fsm_logical_to_physical B addr in
      if blkno \<ge> length rel then
        if do_extend then (Some blkno, fsm_extend B rel (blkno + 1)) else (None, rel)
      else (Some blkno, rel))"

text \<open>\<open>None\<close> stands for a search that does not end.\<close>

definition fsm_set_and_search ::
    "nat \<Rightarrow> fsm_fork \<Rightarrow> FSMAddress \<Rightarrow> nat \<Rightarrow> uint8 \<Rightarrow> uint8 \<Rightarrow> (int \<times> fsm_fork) option" where
  "fsm_set_and_search B rel addr slot newValue minValue =
     (let (buf, rel) = fsm_readbuf B rel addr True; blk = the buf;
          page = snd (fsm_set_avail B (rel ! blk) slot newValue)
      in if minValue \<noteq> 0 then
           case fsm_search_avail B page minValue (level addr = FSM_BOTTOM_LEVEL) of
             None \<Rightarrow> None
           | Some (newslot, page) \<Rightarrow> Some (newslot, rel[blk := page])
         else Some (-1, rel[blk := page]))"

definition InvalidBlockNumber :: nat where
  "InvalidBlockNumber = 0xFFFFFFFF"

text \<open>The search within the page of an address: the slot, the page's maximum, the fork.\<close>

definition search_page :: "nat \<Rightarrow> fsm_fork \<Rightarrow> FSMAddress \<Rightarrow> uint8 \<Rightarrow> (int \<times> uint8 \<times> fsm_fork) option" where
  "search_page B rel addr min_cat =
     (case fsm_readbuf B rel addr False of
        (None, rel) \<Rightarrow> Some (-1, 0, rel)
      | (Some blk, rel) \<Rightarrow>
          (case fsm_search_avail B (rel ! blk) min_cat (level addr = FSM_BOTTOM_LEVEL) of
             None \<Rightarrow> None
           | Some (slot, page) \<Rightarrow>
               Some (slot, if slot = -1 then fsm_get_max_avail page else 0, rel[blk := page])))"

text \<open>The loop of \<open>fsm_search\<close>.\<close>

function fsm_search_loop :: "nat \<Rightarrow> uint8 \<Rightarrow> nat \<Rightarrow> FSMAddress \<Rightarrow> fsm_fork \<Rightarrow> (nat \<times> fsm_fork) option" where
  "fsm_search_loop B min_cat restarts addr rel =
     (case search_page B rel addr min_cat of
        None \<Rightarrow> None
      | Some (slot, max_avail, rel) \<Rightarrow>
          if slot \<noteq> -1 then
            if level addr = FSM_BOTTOM_LEVEL then Some (fsm_get_heap_blk B addr (nat slot), rel)
            else fsm_search_loop B min_cat restarts (fsm_get_child B addr (nat slot)) rel
          else if level addr = FSM_ROOT_LEVEL B then Some (InvalidBlockNumber, rel)
          else
            let (parent, parentslot) = fsm_get_parent B addr in
            case fsm_set_and_search B rel parent parentslot max_avail 0 of
              None \<Rightarrow> None
            | Some (newslot, rel) \<Rightarrow>
                if restarts > 10000 then Some (InvalidBlockNumber, rel)
                else fsm_search_loop B min_cat (restarts + 1) (FSM_ROOT_ADDRESS B) rel)"
  by pat_completeness auto
termination
  by (relation "inv_image (less_than <*lex*> less_than)
        (\<lambda>(B, min_cat, restarts, addr, rel). (10001 - restarts, level addr))")
     (auto simp: fsm_get_child_def FSM_BOTTOM_LEVEL_def)

declare fsm_search_loop.simps [simp del]

definition fsm_search :: "nat \<Rightarrow> fsm_fork \<Rightarrow> uint8 \<Rightarrow> (nat \<times> fsm_fork) option" where
  "fsm_search B rel min_cat = fsm_search_loop B min_cat 0 (FSM_ROOT_ADDRESS B) rel"

section \<open>Vacuuming\<close>

text \<open>The slot that leads to a heap block in the pages of a level, and the page it is in.\<close>

fun fsm_location_at :: "nat \<Rightarrow> nat \<Rightarrow> nat \<Rightarrow> FSMAddress \<times> nat" where
  "fsm_location_at B 0 heapblk = fsm_get_location B heapblk"
| "fsm_location_at B (Suc l) heapblk = fsm_get_parent B (fst (fsm_location_at B l heapblk))"

text \<open>
  The loop over the slots of an upper page, in block \<open>blk\<close>; \<open>child\<close> vacuums the page of a slot and
  returns its maximum and whether it is past the end of the file.
\<close>

fun vacuum_slots :: "nat \<Rightarrow> nat \<Rightarrow> (nat \<Rightarrow> fsm_fork \<Rightarrow> uint8 \<times> bool \<times> fsm_fork) \<Rightarrow> nat list \<Rightarrow> bool \<Rightarrow>
    fsm_fork \<Rightarrow> fsm_fork" where
  "vacuum_slots B blk child [] eof rel = rel"
| "vacuum_slots B blk child (slot # slots) eof rel =
     (let (child_avail, eof, rel) = (if \<not> eof then child slot rel else (0, eof, rel));
          rel = (if fsm_get_avail B (rel ! blk) slot \<noteq> child_avail
                 then rel[blk := snd (fsm_set_avail B (rel ! blk) slot child_avail)] else rel)
      in vacuum_slots B blk child slots eof rel)"

text \<open>\<open>start_slot\<close> and \<open>end_slot + 1\<close>.\<close>

definition vacuum_range :: "nat \<Rightarrow> FSMAddress \<Rightarrow> nat \<Rightarrow> nat \<Rightarrow> nat \<times> nat" where
  "vacuum_range B addr start end' =
     (let (fsm_start, fsm_start_slot) = fsm_location_at B (level addr) start;
          (fsm_end, fsm_end_slot) = fsm_location_at B (level addr) (end' - 1)
      in (if logpageno fsm_start = logpageno addr then fsm_start_slot
          else if logpageno fsm_start > logpageno addr then SlotsPerFSMPage B else 0,
          if logpageno fsm_end = logpageno addr then fsm_end_slot + 1
          else if logpageno fsm_end > logpageno addr then SlotsPerFSMPage B else 0))"

text \<open>\<open>fsm_vacuum_page\<close> for the page \<open>pageno\<close> of a level: the maximum, the end-of-file flag, the fork.\<close>

fun fsm_vacuum_page :: "nat \<Rightarrow> nat \<Rightarrow> nat \<Rightarrow> nat \<Rightarrow> nat \<Rightarrow> fsm_fork \<Rightarrow> uint8 \<times> bool \<times> fsm_fork" where
  "fsm_vacuum_page B start end' 0 pageno rel =
     (case fsm_readbuf B rel \<lparr>level = 0, logpageno = pageno\<rparr> False of
        (None, rel) \<Rightarrow> (0, True, rel)
      | (Some blk, rel) \<Rightarrow>
          (fsm_get_max_avail (rel ! blk), False, rel[blk := (rel ! blk)\<lparr>fp_next_slot := 0\<rparr>]))"
| "fsm_vacuum_page B start end' (Suc l) pageno rel =
     (let addr = \<lparr>level = Suc l, logpageno = pageno\<rparr> in
      case fsm_readbuf B rel addr False of
        (None, rel) \<Rightarrow> (0, True, rel)
      | (Some blk, rel) \<Rightarrow>
          let (start_slot, stop) = vacuum_range B addr start end';
              rel = vacuum_slots B blk
                (\<lambda>slot. fsm_vacuum_page B start end' l (logpageno (fsm_get_child B addr slot)))
                [start_slot..<stop] False rel
          in (fsm_get_max_avail (rel ! blk), False, rel[blk := (rel ! blk)\<lparr>fp_next_slot := 0\<rparr>]))"

section \<open>The public functions\<close>

definition GetPageWithFreeSpace :: "nat \<Rightarrow> fsm_fork \<Rightarrow> nat \<Rightarrow> (nat \<times> fsm_fork) option result" where
  "GetPageWithFreeSpace B rel spaceNeeded =
     (case fsm_space_needed_to_cat B spaceNeeded of
        Inl e \<Rightarrow> Inl e
      | Inr min_cat \<Rightarrow> Inr (fsm_search B rel min_cat))"

definition RecordAndGetPageWithFreeSpace ::
    "nat \<Rightarrow> fsm_fork \<Rightarrow> nat \<Rightarrow> nat \<Rightarrow> nat \<Rightarrow> (nat \<times> fsm_fork) option result" where
  "RecordAndGetPageWithFreeSpace B rel oldPage oldSpaceAvail spaceNeeded =
     (let old_cat = fsm_space_avail_to_cat B oldSpaceAvail in
      case fsm_space_needed_to_cat B spaceNeeded of
        Inl e \<Rightarrow> Inl e
      | Inr search_cat \<Rightarrow>
          let (addr, slot) = fsm_get_location B oldPage in
          Inr (case fsm_set_and_search B rel addr slot old_cat search_cat of
                 None \<Rightarrow> None
               | Some (search_slot, rel) \<Rightarrow>
                   if search_slot \<noteq> -1 then Some (fsm_get_heap_blk B addr (nat search_slot), rel)
                   else fsm_search B rel search_cat))"

definition RecordPageWithFreeSpace :: "nat \<Rightarrow> fsm_fork \<Rightarrow> nat \<Rightarrow> nat \<Rightarrow> fsm_fork option" where
  "RecordPageWithFreeSpace B rel heapBlk spaceAvail =
     (let new_cat = fsm_space_avail_to_cat B spaceAvail; (addr, slot) = fsm_get_location B heapBlk
      in map_option snd (fsm_set_and_search B rel addr slot new_cat 0))"

definition XLogRecordPageWithFreeSpace :: "nat \<Rightarrow> fsm_fork \<Rightarrow> nat \<Rightarrow> nat \<Rightarrow> fsm_fork" where
  "XLogRecordPageWithFreeSpace B rel heapBlk spaceAvail =
     (let new_cat = fsm_space_avail_to_cat B spaceAvail; (addr, slot) = fsm_get_location B heapBlk;
          blkno = fsm_logical_to_physical B addr; rel = fsm_extend B rel (blkno + 1)
      in rel[blkno := snd (fsm_set_avail B (rel ! blkno) slot new_cat)])"

definition GetRecordedFreeSpace :: "nat \<Rightarrow> fsm_fork \<Rightarrow> nat \<Rightarrow> nat" where
  "GetRecordedFreeSpace B rel heapBlk =
     (let (addr, slot) = fsm_get_location B heapBlk in
      case fsm_readbuf B rel addr False of
        (None, rel) \<Rightarrow> 0
      | (Some blk, rel) \<Rightarrow> fsm_space_cat_to_avail B (fsm_get_avail B (rel ! blk) slot))"

text \<open>\<open>rel = []\<close> covers a fork that does not exist: there is nothing to truncate then either.\<close>

definition FreeSpaceMapPrepareTruncateRel :: "nat \<Rightarrow> fsm_fork option \<Rightarrow> nat \<Rightarrow> nat \<times> fsm_fork option" where
  "FreeSpaceMapPrepareTruncateRel B fork nblocks =
     (case fork of
        None \<Rightarrow> (InvalidBlockNumber, None)
      | Some rel \<Rightarrow>
          let (addr, slot) = fsm_get_location B nblocks in
          if slot > 0 then
            case fsm_readbuf B rel addr False of
              (None, rel) \<Rightarrow> (InvalidBlockNumber, Some rel)
            | (Some blk, rel) \<Rightarrow>
                (fsm_logical_to_physical B addr + 1, Some (rel[blk := snd (fsm_truncate_avail B (rel ! blk) slot)]))
          else
            let new_nfsmblocks = fsm_logical_to_physical B addr in
            if length rel \<le> new_nfsmblocks then (InvalidBlockNumber, Some rel) else (new_nfsmblocks, Some rel))"

definition FreeSpaceMapVacuum :: "nat \<Rightarrow> fsm_fork \<Rightarrow> fsm_fork" where
  "FreeSpaceMapVacuum B rel =
     snd (snd (fsm_vacuum_page B 0 InvalidBlockNumber (level (FSM_ROOT_ADDRESS B)) (logpageno (FSM_ROOT_ADDRESS B)) rel))"

definition FreeSpaceMapVacuumRange :: "nat \<Rightarrow> fsm_fork \<Rightarrow> nat \<Rightarrow> nat \<Rightarrow> fsm_fork" where
  "FreeSpaceMapVacuumRange B rel start end' =
     (if end' > start then
        snd (snd (fsm_vacuum_page B start end' (level (FSM_ROOT_ADDRESS B)) (logpageno (FSM_ROOT_ADDRESS B)) rel))
      else rel)"

section \<open>Block sizes\<close>

text \<open>The block sizes \<open>configure\<close> allows.\<close>

definition blcksz_ok :: "nat \<Rightarrow> bool" where
  "blcksz_ok B \<longleftrightarrow> B \<in> {1024, 2048, 4096, 8192, 16384, 32768}"

lemma blcksz_ok_fsm: "blcksz_ok B \<Longrightarrow> fsm_blcksz B"
  unfolding blcksz_ok_def fsm_blcksz_def image_iff
  by (elim insertE emptyE)
     (simp_all add: bexI [of _ 10] bexI [of _ 11] bexI [of _ 12] bexI [of _ 13] bexI [of _ 14] bexI [of _ 15])

lemma fsm_sizes:
  assumes "blcksz_ok B"
  shows "485 \<le> SlotsPerFSMPage B" "SlotsPerFSMPage B \<le> 16357" "2 ^ 32 \<le> SlotsPerFSMPage B ^ FSM_TREE_DEPTH B"
    "3 \<le> FSM_TREE_DEPTH B" "FSM_TREE_DEPTH B \<le> 4" "4 \<le> FSM_CAT_STEP B" "MaxFSMRequestSize B = B - 32"
    "FSM_CAT_STEP B * 256 = B"
  using assms
  by (auto simp: blcksz_ok_def SlotsPerFSMPage_def LeafNodesPerPage_def NodesPerPage_def NonLeafNodesPerPage_def
      MAXALIGN_def SizeOfPageHeaderData_def FSM_TREE_DEPTH_def FSM_CAT_STEP_def FSM_CATEGORIES_def
      MaxFSMRequestSize_def)

section \<open>Categories are conservative\<close>

lemma avail_to_cat_unat:
  "unat (fsm_space_avail_to_cat B avail) =
     (if avail \<ge> MaxFSMRequestSize B then 255 else min 254 (avail div FSM_CAT_STEP B))"
  by (simp add: fsm_space_avail_to_cat_def Let_def unat_of_nat min_def)

lemma cat_enough:
  assumes "blcksz_ok B" "fsm_space_needed_to_cat B needed = Inr c" "c \<le> fsm_space_avail_to_cat B avail"
  shows "needed \<le> avail"
proof (rule ccontr)
  let ?s = "FSM_CAT_STEP B"
  assume lt: "\<not> needed \<le> avail"
  have s: "0 < ?s" using fsm_sizes(6) [OF assms(1)] by simp
  have n: "needed \<le> MaxFSMRequestSize B" "needed \<noteq> 0" using assms(2) lt by (auto simp: fsm_space_needed_to_cat_def split: if_splits)
  then have a: "unat (fsm_space_avail_to_cat B avail) = min 254 (avail div ?s)"
    using lt by (simp add: avail_to_cat_unat)
  have c: "unat c = min 255 ((needed + ?s - 1) div ?s)"
    using assms(2) n by (auto simp: fsm_space_needed_to_cat_def Let_def unat_of_nat min_def split: if_splits)
  have "unat c \<le> unat (fsm_space_avail_to_cat B avail)" using assms(3) by (simp add: word_le_nat_alt)
  then have "(needed + ?s - 1) div ?s \<le> avail div ?s" using a c by (simp add: min_def split: if_splits)
  moreover have "avail div ?s < (needed + ?s - 1) div ?s"
  proof -
    have "(avail + ?s) div ?s \<le> (needed + ?s - 1) div ?s" using lt by (intro div_le_mono) simp
    then show ?thesis using s div_add_self2 [of ?s avail] by simp
  qed
  ultimately show False by simp
qed

section \<open>Addresses\<close>

definition page_rank :: "nat \<Rightarrow> nat \<Rightarrow> nat \<Rightarrow> nat" where
  "page_rank S d q = (\<Sum>i<d. q div S ^ i)"

lemma count_pages_rank: "count_pages S n q a = a + page_rank S n q + n"
proof (induction n arbitrary: q a)
  case (Suc n)
  have "page_rank S (Suc n) q = q + page_rank S n (q div S)"
    unfolding page_rank_def sum.lessThan_Suc_shift by (simp add: div_mult2_eq)
  then show ?case by (simp add: Suc.IH)
qed (simp add: page_rank_def)

lemma scale_pow: "((\<lambda>leafno. leafno * S) ^^ l) p = p * S ^ l" for p S :: nat
  by (induction l) simp_all

lemma physical_rank:
  "fsm_logical_to_physical B \<lparr>level = l, logpageno = p\<rparr> =
     page_rank (SlotsPerFSMPage B) (FSM_TREE_DEPTH B) (p * SlotsPerFSMPage B ^ l) + FSM_TREE_DEPTH B - l - 1"
  by (simp add: fsm_logical_to_physical_def Let_def count_pages_rank scale_pow)

lemma page_rank_mono: "q \<le> q' \<Longrightarrow> page_rank S d q \<le> page_rank S d q'"
  by (auto simp: page_rank_def intro!: sum_mono div_le_mono)

lemma page_rank_Suc:
  assumes "l < d" "S ^ l dvd Suc q"
  shows "page_rank S d q + Suc l \<le> page_rank S d (Suc q)"
proof -
  have "page_rank S d q + Suc l = (\<Sum>i<d. q div S ^ i + (if i \<le> l then 1 else 0))"
  proof -
    have "(\<Sum>i<d. (if i \<le> l then 1 else 0)) = (\<Sum>i \<in> {..l}. (1::nat))"
      using assms(1) by (intro sum.mono_neutral_cong_right) auto
    then show ?thesis by (simp add: page_rank_def sum.distrib)
  qed
  also have "\<dots> \<le> page_rank S d (Suc q)"
    unfolding page_rank_def
  proof (rule sum_mono)
    fix i
    have "Suc q div S ^ i = Suc (q div S ^ i)" if "i \<le> l"
    proof -
      have "S ^ i dvd Suc q" using that assms(2) power_le_dvd by blast
      then show ?thesis by (simp add: div_Suc dvd_imp_mod_0)
    qed
    then show "q div S ^ i + (if i \<le> l then 1 else 0) \<le> Suc q div S ^ i"
      by (auto intro: div_le_mono)
  qed
  finally show ?thesis .
qed

lemma page_rank_less:
  assumes "l < d" "S ^ l dvd q'" "q < q'"
  shows "page_rank S d q + l < page_rank S d q'"
proof -
  obtain r where r: "q' = Suc r" using assms(3) by (cases q') auto
  have "page_rank S d q \<le> page_rank S d r" using assms(3) r by (intro page_rank_mono) simp
  then show ?thesis using page_rank_Suc [of l d S r] assms r by simp
qed

text \<open>The pages are stored in depth-first order: by first leaf page, and upper levels first.\<close>

lemma physical_less:
  assumes "l < FSM_TREE_DEPTH B" "l' < FSM_TREE_DEPTH B"
    "p * SlotsPerFSMPage B ^ l < p' * SlotsPerFSMPage B ^ l' \<or>
     p * SlotsPerFSMPage B ^ l = p' * SlotsPerFSMPage B ^ l' \<and> l' < l"
  shows "fsm_logical_to_physical B \<lparr>level = l, logpageno = p\<rparr> < fsm_logical_to_physical B \<lparr>level = l', logpageno = p'\<rparr>"
  using assms(3)
proof
  assume "p * SlotsPerFSMPage B ^ l < p' * SlotsPerFSMPage B ^ l'"
  then have "page_rank (SlotsPerFSMPage B) (FSM_TREE_DEPTH B) (p * SlotsPerFSMPage B ^ l) + l'
      < page_rank (SlotsPerFSMPage B) (FSM_TREE_DEPTH B) (p' * SlotsPerFSMPage B ^ l')"
    using assms(2) by (intro page_rank_less) simp_all
  then show ?thesis unfolding physical_rank using assms(1,2) by linarith
next
  assume "p * SlotsPerFSMPage B ^ l = p' * SlotsPerFSMPage B ^ l' \<and> l' < l"
  then show ?thesis unfolding physical_rank using assms(1,2) by auto
qed

lemma physical_inj:
  assumes "blcksz_ok B" "level a < FSM_TREE_DEPTH B" "level b < FSM_TREE_DEPTH B"
    "fsm_logical_to_physical B a = fsm_logical_to_physical B b"
  shows "a = b"
proof -
  let ?S = "SlotsPerFSMPage B"
  obtain l p l' p' where ab: "a = \<lparr>level = l, logpageno = p\<rparr>" "b = \<lparr>level = l', logpageno = p'\<rparr>"
    by (metis FSMAddress.surjective old.unit.exhaust)
  have s: "0 < ?S" using fsm_sizes(1) [OF assms(1)] by simp
  have "\<not> p * ?S ^ l < p' * ?S ^ l'" "\<not> p' * ?S ^ l' < p * ?S ^ l"
    using physical_less [of l B l' p p'] physical_less [of l' B l p' p] assms(2-4) ab by auto
  then have q: "p * ?S ^ l = p' * ?S ^ l'" by simp
  then have "l = l'"
    using physical_less [of l B l' p p'] physical_less [of l' B l p' p] assms(2-4) ab by (cases l l' rule: linorder_cases) auto
  then show ?thesis using q s ab by simp
qed

lemma physical_child:
  assumes "0 < l" "l < FSM_TREE_DEPTH B"
  shows "fsm_logical_to_physical B \<lparr>level = l, logpageno = p\<rparr> <
    fsm_logical_to_physical B \<lparr>level = l - 1, logpageno = p * SlotsPerFSMPage B + s\<rparr>"
proof -
  let ?S = "SlotsPerFSMPage B"
  have "(p * ?S + s) * ?S ^ (l - 1) = p * ?S ^ l + s * ?S ^ (l - 1)"
    using assms(1) by (cases l) (simp_all add: algebra_simps)
  then have "p * ?S ^ l < (p * ?S + s) * ?S ^ (l - 1) \<or> p * ?S ^ l = (p * ?S + s) * ?S ^ (l - 1)" by auto
  then show ?thesis using assms by (intro physical_less) auto
qed

lemma location_at:
  "fsm_location_at B l heapblk =
     (\<lparr>level = l, logpageno = heapblk div SlotsPerFSMPage B ^ Suc l\<rparr>,
      heapblk div SlotsPerFSMPage B ^ l mod SlotsPerFSMPage B)"
proof (induction l)
  case 0
  then show ?case by (simp add: fsm_get_location_def FSM_BOTTOM_LEVEL_def)
next
  case (Suc l)
  have "heapblk div SlotsPerFSMPage B ^ Suc l div SlotsPerFSMPage B = heapblk div SlotsPerFSMPage B ^ Suc (Suc l)"
    unfolding power_Suc2 [of _ "Suc l"] by (simp only: div_mult2_eq)
  then show ?case by (simp add: Suc fsm_get_parent_def del: power_Suc)
qed

lemma physical_bound:
  assumes "blcksz_ok B" "l < FSM_TREE_DEPTH B" "heapblk < 2 ^ 32"
  shows "logpageno (fst (fsm_location_at B l heapblk)) * SlotsPerFSMPage B ^ l \<le> heapblk div SlotsPerFSMPage B"
    "fsm_logical_to_physical B (fst (fsm_location_at B l heapblk)) < 2 ^ 26"
proof -
  let ?S = "SlotsPerFSMPage B" and ?q = "logpageno (fst (fsm_location_at B l heapblk)) * SlotsPerFSMPage B ^ l"
  note z = fsm_sizes [OF assms(1)]
  have "heapblk div ?S ^ Suc l = heapblk div ?S div ?S ^ l" by (simp add: div_mult2_eq)
  then show q: "?q \<le> heapblk div ?S" by (simp add: location_at del: power_Suc)
  have "heapblk div ?S \<le> heapblk div 485" using z(1) by (intro div_le_mono2) simp_all
  also have "\<dots> \<le> 2 ^ 32 div 485" using assms(3) by (intro div_le_mono) simp
  finally have Q: "?q \<le> 8855607" using q by simp
  have "page_rank ?S (FSM_TREE_DEPTH B) ?q \<le> (\<Sum>i<FSM_TREE_DEPTH B. ?q)"
    unfolding page_rank_def by (intro sum_mono) simp
  also have "\<dots> \<le> 4 * 8855607" using mult_le_mono [OF z(5) Q] by simp
  finally show "fsm_logical_to_physical B (fst (fsm_location_at B l heapblk)) < 2 ^ 26"
    using z(5) by (simp add: location_at physical_rank del: power_Suc)
qed

section \<open>The map as a table of slots\<close>

text \<open>
  The abstract view of a fork: the value of each slot of each page of each level, \<open>0\<close> where the page
  does not exist.
\<close>

definition page_blk :: "nat \<Rightarrow> nat \<Rightarrow> nat \<Rightarrow> nat" where
  "page_blk B l p = fsm_logical_to_physical B \<lparr>level = l, logpageno = p\<rparr>"

definition slot_val :: "nat \<Rightarrow> fsm_fork \<Rightarrow> nat \<Rightarrow> nat \<Rightarrow> nat \<Rightarrow> uint8" where
  "slot_val B rel l p s = (if page_blk B l p < length rel then fsm_get_avail B (rel ! page_blk B l p) s else 0)"

definition recorded :: "nat \<Rightarrow> fsm_fork \<Rightarrow> nat \<Rightarrow> uint8" where
  "recorded B rel b = slot_val B rel 0 (b div SlotsPerFSMPage B) (b mod SlotsPerFSMPage B)"

definition fork_ok :: "nat \<Rightarrow> fsm_fork \<Rightarrow> bool" where
  "fork_ok B rel \<longleftrightarrow> (\<forall>page \<in> set rel. fsm_shape B page)"

definition fork_consistent :: "nat \<Rightarrow> fsm_fork \<Rightarrow> bool" where
  "fork_consistent B rel \<longleftrightarrow> (\<forall>page \<in> set rel. fsm_ok B page)"

lemma fork_consistent_ok: "fork_consistent B rel \<Longrightarrow> fork_ok B rel"
  by (auto simp: fork_consistent_def fork_ok_def fsm_ok_def)

lemma page_blk_inj:
  "blcksz_ok B \<Longrightarrow> l < FSM_TREE_DEPTH B \<Longrightarrow> l' < FSM_TREE_DEPTH B \<Longrightarrow> page_blk B l p = page_blk B l' p' \<longleftrightarrow> l = l' \<and> p = p'"
  using physical_inj [of B "\<lparr>level = l, logpageno = p\<rparr>" "\<lparr>level = l', logpageno = p'\<rparr>"]
  by (auto simp: page_blk_def)

lemma fork_update:
  assumes "page_blk B l p < length rel" "blcksz_ok B" "l < FSM_TREE_DEPTH B" "l' < FSM_TREE_DEPTH B"
  shows "slot_val B (rel[page_blk B l p := page]) l' p' s =
    (if l' = l \<and> p' = p then fsm_get_avail B page s else slot_val B rel l' p' s)"
  using page_blk_inj [OF assms(2,4,3), of p' p] assms(1) by (auto simp: slot_val_def nth_list_update)

lemma fork_ok_update: "fork_ok B rel \<Longrightarrow> fsm_shape B page \<Longrightarrow> fork_ok B (rel[i := page])"
  using set_update_subset_insert [of rel i page] by (auto simp: fork_ok_def)

lemma fork_consistent_update: "fork_consistent B rel \<Longrightarrow> fsm_ok B page \<Longrightarrow> fork_consistent B (rel[i := page])"
  using set_update_subset_insert [of rel i page] by (auto simp: fork_consistent_def)

lemma new_page_ok: "fsm_blcksz B \<Longrightarrow> fsm_ok B (new_page B)"
  "s < LeafNodesPerPage B \<Longrightarrow> fsm_get_avail B (new_page B) s = 0"
  using tree_bounds [of B]
  by (auto simp: fsm_ok_def fsm_shape_def new_page_def node_ok_def node_val_def fsm_get_avail_def LeafNodesPerPage_def)

lemma fork_extend:
  assumes "blcksz_ok B"
  shows "fork_ok B (fsm_extend B rel n) = fork_ok B rel" "fork_consistent B (fsm_extend B rel n) = fork_consistent B rel"
    "s < SlotsPerFSMPage B \<Longrightarrow> slot_val B (fsm_extend B rel n) l p s = slot_val B rel l p s"
    "length (fsm_extend B rel n) = max n (length rel)"
proof -
  note new = new_page_ok(1) [OF blcksz_ok_fsm [OF assms]]
  show "fork_ok B (fsm_extend B rel n) = fork_ok B rel" "fork_consistent B (fsm_extend B rel n) = fork_consistent B rel"
    using new by (auto simp: fork_ok_def fork_consistent_def fsm_extend_def fsm_ok_def)
  show "s < SlotsPerFSMPage B \<Longrightarrow> slot_val B (fsm_extend B rel n) l p s = slot_val B rel l p s"
    by (auto simp: slot_val_def fsm_extend_def nth_append new_page_ok(2) SlotsPerFSMPage_def)
  show "length (fsm_extend B rel n) = max n (length rel)" by (simp add: fsm_extend_def)
qed

lemma readbuf_extend:
  "fsm_readbuf B rel \<lparr>level = l, logpageno = p\<rparr> True = (Some (page_blk B l p), fsm_extend B rel (page_blk B l p + 1))"
  by (simp add: fsm_readbuf_def Let_def page_blk_def fsm_extend_def)

lemma readbuf_read:
  "fsm_readbuf B rel \<lparr>level = l, logpageno = p\<rparr> False =
     (if page_blk B l p < length rel then Some (page_blk B l p) else None, rel)"
  by (simp add: fsm_readbuf_def Let_def page_blk_def)

section \<open>Writing a slot\<close>

lemma write_slot:
  fixes p :: nat and v :: uint8
  assumes "blcksz_ok B" "fork_ok B rel" "l < FSM_TREE_DEPTH B" "slot < SlotsPerFSMPage B"
  defines "blk \<equiv> page_blk B l p"
  defines "rel0 \<equiv> fsm_extend B rel (blk + 1)"
  defines "rel' \<equiv> rel0[blk := snd (fsm_set_avail B (rel0 ! blk) slot v)]"
  shows "fork_ok B rel'" "fork_consistent B rel \<Longrightarrow> fork_consistent B rel'"
    "length rel' = max (blk + 1) (length rel)"
    "l' < FSM_TREE_DEPTH B \<Longrightarrow> s < SlotsPerFSMPage B \<Longrightarrow>
     slot_val B rel' l' p' s = (if l' = l \<and> p' = p \<and> s = slot then v else slot_val B rel l' p' s)"
    "fsm_shape B (snd (fsm_set_avail B (rel0 ! blk) slot v))"
proof -
  note e = fork_extend [OF assms(1), where rel = rel and n = "blk + 1", folded rel0_def]
  have blk: "blk < length rel0" using e(4) by simp
  have sh: "fsm_shape B (rel0 ! blk)" using e(1) assms(2) blk by (simp add: fork_ok_def)
  have sl: "slot < LeafNodesPerPage B" using assms(4) by (simp add: SlotsPerFSMPage_def)
  note w = fsm_set_avail_correct [OF blcksz_ok_fsm [OF assms(1)] sh sl, where v = v]
  show "fsm_shape B (snd (fsm_set_avail B (rel0 ! blk) slot v))" by (rule w(1))
  show "fork_ok B rel'" unfolding rel'_def using e(1) assms(2) w(1) by (intro fork_ok_update) simp_all
  show "fork_consistent B rel \<Longrightarrow> fork_consistent B rel'"
    unfolding rel'_def using e(2) blk w(4) by (intro fork_consistent_update) (auto simp: fork_consistent_def)
  show "length rel' = max (blk + 1) (length rel)" unfolding rel'_def using e(4) by simp
  assume l': "l' < FSM_TREE_DEPTH B" and s: "s < SlotsPerFSMPage B"
  have "fsm_get_avail B (rel0 ! blk) s = slot_val B rel l p s"
    using e(3) [OF s, of l p] blk by (simp add: slot_val_def [of B rel0] blk_def)
  then show "slot_val B rel' l' p' s = (if l' = l \<and> p' = p \<and> s = slot then v else slot_val B rel l' p' s)"
    using fork_update [of B l p rel0 l'] blk assms(1,3) l' w(2) s e(3) [OF s]
    unfolding rel'_def blk_def by (auto simp: SlotsPerFSMPage_def)
qed

lemma set_and_search_write:
  "fsm_set_and_search B rel \<lparr>level = l, logpageno = p\<rparr> slot v 0 =
     Some (-1, (fsm_extend B rel (page_blk B l p + 1))[page_blk B l p :=
       snd (fsm_set_avail B (fsm_extend B rel (page_blk B l p + 1) ! page_blk B l p) slot v)])"
  by (simp add: fsm_set_and_search_def readbuf_extend Let_def)

section \<open>Reading and recording\<close>

lemma location: "fsm_get_location B b = (\<lparr>level = 0, logpageno = b div SlotsPerFSMPage B\<rparr>, b mod SlotsPerFSMPage B)"
  by (simp add: fsm_get_location_def FSM_BOTTOM_LEVEL_def)

lemma GetRecordedFreeSpace_recorded:
  "GetRecordedFreeSpace B rel b = fsm_space_cat_to_avail B (recorded B rel b)"
  by (simp add: GetRecordedFreeSpace_def location readbuf_read recorded_def slot_val_def fsm_space_cat_to_avail_def)

lemma record_facts:
  assumes "blcksz_ok B" "fork_ok B rel"
  shows "RecordPageWithFreeSpace B rel b avail = Some (XLogRecordPageWithFreeSpace B rel b avail)"
    "fork_ok B (XLogRecordPageWithFreeSpace B rel b avail)"
    "fork_consistent B rel \<Longrightarrow> fork_consistent B (XLogRecordPageWithFreeSpace B rel b avail)"
    "0 < l \<Longrightarrow> l < FSM_TREE_DEPTH B \<Longrightarrow> s < SlotsPerFSMPage B \<Longrightarrow>
     slot_val B (XLogRecordPageWithFreeSpace B rel b avail) l p s = slot_val B rel l p s"
    "recorded B (XLogRecordPageWithFreeSpace B rel b avail) b' =
       (if b' = b then fsm_space_avail_to_cat B avail else recorded B rel b')"
proof -
  let ?S = "SlotsPerFSMPage B" and ?v = "fsm_space_avail_to_cat B avail"
  note z = fsm_sizes [OF assms(1)]
  have d: "0 < FSM_TREE_DEPTH B" and S: "\<And>x. x mod ?S < ?S" using z by simp_all
  note w = write_slot [OF assms d S, where p = "b div ?S" and v = ?v]
  have x: "XLogRecordPageWithFreeSpace B rel b avail =
      (fsm_extend B rel (page_blk B 0 (b div ?S) + 1))[page_blk B 0 (b div ?S) :=
        snd (fsm_set_avail B (fsm_extend B rel (page_blk B 0 (b div ?S) + 1) ! page_blk B 0 (b div ?S)) (b mod ?S) ?v)]"
    by (simp add: XLogRecordPageWithFreeSpace_def location page_blk_def Let_def)
  show "RecordPageWithFreeSpace B rel b avail = Some (XLogRecordPageWithFreeSpace B rel b avail)"
    unfolding x by (simp add: RecordPageWithFreeSpace_def location set_and_search_write)
  show "fork_ok B (XLogRecordPageWithFreeSpace B rel b avail)"
    "fork_consistent B rel \<Longrightarrow> fork_consistent B (XLogRecordPageWithFreeSpace B rel b avail)"
    unfolding x using w by blast+
  show "0 < l \<Longrightarrow> l < FSM_TREE_DEPTH B \<Longrightarrow> s < ?S \<Longrightarrow>
      slot_val B (XLogRecordPageWithFreeSpace B rel b avail) l p s = slot_val B rel l p s"
    unfolding x using w(4) by simp
  have "b' div ?S = b div ?S \<and> b' mod ?S = b mod ?S \<longleftrightarrow> b' = b" by (metis div_mult_mod_eq)
  then show "recorded B (XLogRecordPageWithFreeSpace B rel b avail) b' =
      (if b' = b then ?v else recorded B rel b')"
    unfolding x recorded_def using w(4) [OF d S] by auto
qed

section \<open>Searching the map\<close>

lemma search_page_facts:
  assumes "blcksz_ok B" "fork_ok B rel" "l < FSM_TREE_DEPTH B" "0 < min_cat"
  shows "\<exists>slot m rel'. search_page B rel \<lparr>level = l, logpageno = p\<rparr> min_cat = Some (slot, m, rel') \<and>
    fork_ok B rel' \<and> (fork_consistent B rel \<longrightarrow> fork_consistent B rel') \<and>
    (\<forall>l' < FSM_TREE_DEPTH B. \<forall>p'. \<forall>s < SlotsPerFSMPage B. slot_val B rel' l' p' s = slot_val B rel l' p' s) \<and>
    (slot = -1 \<or> 0 \<le> slot \<and> nat slot < SlotsPerFSMPage B \<and> min_cat \<le> slot_val B rel l p (nat slot)) \<and>
    (fork_consistent B rel \<and> slot = -1 \<longrightarrow> (\<forall>s < SlotsPerFSMPage B. \<not> min_cat \<le> slot_val B rel l p s))"
proof (cases "page_blk B l p < length rel")
  case False
  then show ?thesis using assms by (auto simp: search_page_def readbuf_read slot_val_def dest: leD)
next
  case True
  let ?blk = "page_blk B l p" and ?adv = "l = FSM_BOTTOM_LEVEL"
  note F = blcksz_ok_fsm [OF assms(1)]
  have sh: "fsm_shape B (rel ! ?blk)" using assms(2) True by (simp add: fork_ok_def)
  obtain slot page where s: "fsm_search_avail B (rel ! ?blk) min_cat ?adv = Some (slot, page)" "fsm_shape B page"
      "fsm_ok B (rel ! ?blk) \<longrightarrow> fsm_ok B page"
      "\<forall>s < LeafNodesPerPage B. fsm_get_avail B page s = fsm_get_avail B (rel ! ?blk) s"
      "slot = -1 \<or> 0 \<le> slot \<and> suitable B (rel ! ?blk) min_cat (nat slot)"
    using fsm_search_avail_sound [OF F sh] by blast
  have run: "search_page B rel \<lparr>level = l, logpageno = p\<rparr> min_cat =
      Some (slot, if slot = -1 then fsm_get_max_avail page else 0, rel[?blk := page])"
    using True s(1) by (simp add: search_page_def readbuf_read)
  have none: "\<not> min_cat \<le> slot_val B rel l p i"
    if ok: "fork_consistent B rel" and m: "slot = -1" and i: "i < SlotsPerFSMPage B" for i
  proof -
    have "fsm_ok B (rel ! ?blk)" using ok True by (simp add: fork_consistent_def)
    then have "first_suitable B (rel ! ?blk) min_cat = None"
      using fsm_search_avail_ok [OF F, of "rel ! ?blk" min_cat ?adv] s(1) m by (auto split: option.splits)
    then show ?thesis using True i
      by (force simp: first_suitable_def Let_def find_None_iff slot_val_def SlotsPerFSMPage_def)
  qed
  have same: "slot_val B (rel[?blk := page]) l' p' i = slot_val B rel l' p' i"
    if "l' < FSM_TREE_DEPTH B" "i < SlotsPerFSMPage B" for l' p' i
  proof (cases "l' = l \<and> p' = p")
    case eq: True
    have "fsm_get_avail B page i = fsm_get_avail B (rel ! ?blk) i"
      using s(4) that(2) by (simp add: SlotsPerFSMPage_def)
    then show ?thesis
      unfolding fork_update [OF True assms(1,3) that(1)] using eq True by (simp add: slot_val_def)
  next
    case False
    then show ?thesis unfolding fork_update [OF True assms(1,3) that(1)] by (simp only: if_False)
  qed
  have cons: "fork_consistent B rel \<longrightarrow> fork_consistent B (rel[?blk := page])"
  proof
    assume c: "fork_consistent B rel"
    then have "fsm_ok B (rel ! ?blk)" using True by (simp add: fork_consistent_def)
    then show "fork_consistent B (rel[?blk := page])" using s(3) c by (intro fork_consistent_update) simp_all
  qed
  have slot: "slot = -1 \<or> 0 \<le> slot \<and> nat slot < SlotsPerFSMPage B \<and> min_cat \<le> slot_val B rel l p (nat slot)"
    using s(5) True by (auto simp: suitable_def slot_val_def SlotsPerFSMPage_def)
  show ?thesis using run fork_ok_update [OF assms(2) s(2), of ?blk] cons slot none same by blast
qed

lemma search_page_found:
  assumes "blcksz_ok B" "fork_consistent B rel" "l < FSM_TREE_DEPTH B" "0 < min_cat"
    "s0 < SlotsPerFSMPage B" "min_cat \<le> slot_val B rel l p s0"
  obtains slot m rel' where "search_page B rel \<lparr>level = l, logpageno = p\<rparr> min_cat = Some (slot, m, rel')"
    "slot \<noteq> -1" "nat slot < SlotsPerFSMPage B" "min_cat \<le> slot_val B rel l p (nat slot)" "fork_consistent B rel'"
    "\<forall>l' < FSM_TREE_DEPTH B. \<forall>p'. \<forall>s < SlotsPerFSMPage B. slot_val B rel' l' p' s = slot_val B rel l' p' s"
proof -
  obtain slot m rel' where r: "search_page B rel \<lparr>level = l, logpageno = p\<rparr> min_cat = Some (slot, m, rel')"
      "fork_consistent B rel \<longrightarrow> fork_consistent B rel'"
      "\<forall>l' < FSM_TREE_DEPTH B. \<forall>p'. \<forall>s < SlotsPerFSMPage B. slot_val B rel' l' p' s = slot_val B rel l' p' s"
      "slot = -1 \<or> 0 \<le> slot \<and> nat slot < SlotsPerFSMPage B \<and> min_cat \<le> slot_val B rel l p (nat slot)"
      "fork_consistent B rel \<and> slot = -1 \<longrightarrow> (\<forall>s < SlotsPerFSMPage B. \<not> min_cat \<le> slot_val B rel l p s)"
    using search_page_facts [OF assms(1) fork_consistent_ok [OF assms(2)] assms(3,4), of p] by blast
  then have "slot \<noteq> -1" using assms(2,5,6) by blast
  with r that [of slot m rel'] show ?thesis using assms(2) by blast
qed

text \<open>The parts of the result of a search that do not depend on how it went.\<close>

definition search_result :: "nat \<Rightarrow> fsm_fork \<Rightarrow> uint8 \<Rightarrow> nat \<Rightarrow> fsm_fork \<Rightarrow> bool" where
  "search_result B rel min_cat blk rel' \<longleftrightarrow> fork_ok B rel' \<and> (fork_consistent B rel \<longrightarrow> fork_consistent B rel') \<and>
     (\<forall>b. recorded B rel' b = recorded B rel b) \<and>
     (blk = InvalidBlockNumber \<or> (\<exists>b. blk = b mod 2 ^ 32 \<and> min_cat \<le> recorded B rel b))"

lemma recorded_slot:
  "s < SlotsPerFSMPage B \<Longrightarrow> recorded B rel (p * SlotsPerFSMPage B + s) = slot_val B rel 0 p s"
  by (simp add: recorded_def)

lemma fsm_search_loop_total:
  assumes "blcksz_ok B" "0 < min_cat" "fork_ok B rel" "l < FSM_TREE_DEPTH B"
  shows "\<exists>blk rel'. fsm_search_loop B min_cat restarts \<lparr>level = l, logpageno = p\<rparr> rel = Some (blk, rel') \<and>
    search_result B rel min_cat blk rel'"
  using assms(3,4)
proof (induction "(10001 - restarts) * 5 + l" arbitrary: restarts l p rel rule: less_induct)
  case less
  let ?addr = "\<lparr>level = l, logpageno = p\<rparr>" and ?S = "SlotsPerFSMPage B"
  note z = fsm_sizes [OF assms(1)]
  obtain slot m rel1 where s: "search_page B rel ?addr min_cat = Some (slot, m, rel1)" "fork_ok B rel1"
      "fork_consistent B rel \<longrightarrow> fork_consistent B rel1"
      "\<And>l' p' s. l' < FSM_TREE_DEPTH B \<Longrightarrow> s < ?S \<Longrightarrow> slot_val B rel1 l' p' s = slot_val B rel l' p' s"
      "slot = -1 \<or> 0 \<le> slot \<and> nat slot < ?S \<and> min_cat \<le> slot_val B rel l p (nat slot)"
    using search_page_facts [OF assms(1) less.prems assms(2), of p] by blast
  have d: "0 < FSM_TREE_DEPTH B" and S: "\<And>x. x mod ?S < ?S" using z by simp_all
  have rec: "recorded B rel1 b = recorded B rel b" for b
    unfolding recorded_def using s(4) [OF d S] .
  have trans: "search_result B rel min_cat blk rel'"
    if "search_result B rel2 min_cat blk rel'" "\<forall>b. recorded B rel2 b = recorded B rel b"
      "fork_consistent B rel \<longrightarrow> fork_consistent B rel2" for blk rel' rel2
    using that by (auto simp: search_result_def)
  consider (found) "slot \<noteq> -1" "l = 0" | (down) "slot \<noteq> -1" "0 < l" | (root) "slot = -1" "l = FSM_ROOT_LEVEL B"
    | (up) "slot = -1" "l \<noteq> FSM_ROOT_LEVEL B" by blast
  then show ?case
  proof cases
    case found
    have run: "fsm_search_loop B min_cat restarts ?addr rel = Some ((p * ?S + nat slot) mod 2 ^ 32, rel1)"
      using found s(1) by (subst fsm_search_loop.simps) (simp add: FSM_BOTTOM_LEVEL_def fsm_get_heap_blk_def)
    have "min_cat \<le> recorded B rel (p * ?S + nat slot)" using s(5) found by (simp add: recorded_slot)
    then show ?thesis unfolding run search_result_def using s(2,3) rec by auto
  next
    case down
    have run: "fsm_search_loop B min_cat restarts ?addr rel =
        fsm_search_loop B min_cat restarts \<lparr>level = l - 1, logpageno = p * ?S + nat slot\<rparr> rel1"
      using down s(1) by (subst fsm_search_loop.simps) (simp add: FSM_BOTTOM_LEVEL_def fsm_get_child_def)
    have "\<exists>blk rel'. fsm_search_loop B min_cat restarts \<lparr>level = l - 1, logpageno = p * ?S + nat slot\<rparr> rel1 =
        Some (blk, rel') \<and> search_result B rel1 min_cat blk rel'"
      using down(2) less.prems(2) s(2) by (intro less.hyps) auto
    then show ?thesis unfolding run using trans rec s(3) by blast
  next
    case root
    have "fsm_search_loop B min_cat restarts ?addr rel = Some (InvalidBlockNumber, rel1)"
      using root s(1) by (subst fsm_search_loop.simps) simp
    then show ?thesis using s(2,3) rec by (auto simp: search_result_def)
  next
    case up
    have l: "Suc l < FSM_TREE_DEPTH B" using up(2) less.prems(2) by (simp add: FSM_ROOT_LEVEL_def)
    define rel2 where "rel2 = (fsm_extend B rel1 (page_blk B (Suc l) (p div ?S) + 1))[page_blk B (Suc l) (p div ?S) :=
       snd (fsm_set_avail B (fsm_extend B rel1 (page_blk B (Suc l) (p div ?S) + 1) ! page_blk B (Suc l) (p div ?S))
         (p mod ?S) m)]"
    note w = write_slot [OF assms(1) s(2) l S [of p], where p = "p div ?S" and v = m, folded rel2_def]
    have rec2: "recorded B rel2 b = recorded B rel b" for b
      unfolding recorded_def using w(4) [OF d S] s(4) [OF d S] by simp
    have c2: "fork_consistent B rel \<longrightarrow> fork_consistent B rel2" using s(3) w(2) by blast
    have run: "fsm_search_loop B min_cat restarts ?addr rel = (if restarts > 10000 then Some (InvalidBlockNumber, rel2)
        else fsm_search_loop B min_cat (restarts + 1) \<lparr>level = FSM_ROOT_LEVEL B, logpageno = 0\<rparr> rel2)"
      using up s(1)
      by (subst fsm_search_loop.simps)
         (simp add: fsm_get_parent_def set_and_search_write rel2_def FSM_ROOT_ADDRESS_def)
    show ?thesis
    proof (cases "restarts > 10000")
      case True
      then show ?thesis unfolding run using w(1) rec2 c2 by (auto simp: search_result_def)
    next
      case False
      have "\<exists>blk rel'. fsm_search_loop B min_cat (restarts + 1) \<lparr>level = FSM_ROOT_LEVEL B, logpageno = 0\<rparr> rel2 =
          Some (blk, rel') \<and> search_result B rel2 min_cat blk rel'"
        using False z(4,5) w(1) by (intro less.hyps) (auto simp: FSM_ROOT_LEVEL_def)
      then show ?thesis unfolding run using False trans rec2 c2 by auto
    qed
  qed
qed

lemma fsm_search_loop_found:
  assumes "blcksz_ok B" "0 < min_cat" "fork_consistent B rel" "l < FSM_TREE_DEPTH B"
    and up: "\<And>l p s. Suc l < FSM_TREE_DEPTH B \<Longrightarrow> s < SlotsPerFSMPage B \<Longrightarrow> min_cat \<le> slot_val B rel (Suc l) p s \<Longrightarrow>
      \<exists>s' < SlotsPerFSMPage B. min_cat \<le> slot_val B rel l (p * SlotsPerFSMPage B + s) s'"
    and "s0 < SlotsPerFSMPage B" "min_cat \<le> slot_val B rel l p s0"
  shows "\<exists>b rel'. fsm_search_loop B min_cat restarts \<lparr>level = l, logpageno = p\<rparr> rel = Some (b mod 2 ^ 32, rel') \<and>
    min_cat \<le> recorded B rel b"
  using assms(3-)
proof (induction l arbitrary: p rel s0)
  case 0
  obtain slot m rel1 where s: "search_page B rel \<lparr>level = 0, logpageno = p\<rparr> min_cat = Some (slot, m, rel1)"
      "slot \<noteq> -1" "nat slot < SlotsPerFSMPage B" "min_cat \<le> slot_val B rel 0 p (nat slot)"
    using search_page_found [OF assms(1) 0(1,2) assms(2) 0(4,5)] .
  have "fsm_search_loop B min_cat restarts \<lparr>level = 0, logpageno = p\<rparr> rel =
      Some ((p * SlotsPerFSMPage B + nat slot) mod 2 ^ 32, rel1)"
    using s by (subst fsm_search_loop.simps) (simp add: FSM_BOTTOM_LEVEL_def fsm_get_heap_blk_def)
  then show ?case using s(3,4) recorded_slot by metis
next
  case (Suc l)
  let ?S = "SlotsPerFSMPage B"
  obtain slot m rel1 where s: "search_page B rel \<lparr>level = Suc l, logpageno = p\<rparr> min_cat = Some (slot, m, rel1)"
      "slot \<noteq> -1" "nat slot < ?S" "min_cat \<le> slot_val B rel (Suc l) p (nat slot)" "fork_consistent B rel1"
      "\<forall>l' < FSM_TREE_DEPTH B. \<forall>p'. \<forall>s < ?S. slot_val B rel1 l' p' s = slot_val B rel l' p' s"
    using search_page_found [OF assms(1) Suc.prems(1,2) assms(2) Suc.prems(4,5)] .
  have run: "fsm_search_loop B min_cat restarts \<lparr>level = Suc l, logpageno = p\<rparr> rel =
      fsm_search_loop B min_cat restarts \<lparr>level = l, logpageno = p * ?S + nat slot\<rparr> rel1"
    using s by (subst fsm_search_loop.simps) (simp add: FSM_BOTTOM_LEVEL_def fsm_get_child_def)
  obtain s' where s': "s' < ?S" "min_cat \<le> slot_val B rel l (p * ?S + nat slot) s'"
    using Suc.prems(3) [OF Suc.prems(2) s(3,4)] by blast
  have l: "l < FSM_TREE_DEPTH B" using Suc.prems(2) by simp
  have "\<exists>b rel'. fsm_search_loop B min_cat restarts \<lparr>level = l, logpageno = p * ?S + nat slot\<rparr> rel1 =
      Some (b mod 2 ^ 32, rel') \<and> min_cat \<le> recorded B rel1 b"
  proof (rule Suc.IH [OF s(5) l _ s'(1)])
    show "min_cat \<le> slot_val B rel1 l (p * ?S + nat slot) s'" using s(6) l s' by simp
    fix l' p' s'' assume "Suc l' < FSM_TREE_DEPTH B" "s'' < ?S" "min_cat \<le> slot_val B rel1 (Suc l') p' s''"
    then show "\<exists>s' < ?S. min_cat \<le> slot_val B rel1 l' (p' * ?S + s'') s'"
      using Suc.prems(3) [of l' s'' p'] s(6) by (metis Suc_lessD)
  qed
  moreover have "recorded B rel1 b = recorded B rel b" for b
    unfolding recorded_def using s(6) fsm_sizes(1,4) [OF assms(1)] by simp
  ultimately show ?case unfolding run by simp
qed

section \<open>What vacuuming should store\<close>

text \<open>
  The value each slot should have, given those of the bottom level: the maximum of the slots of the
  page it stands for.
\<close>

fun ideal :: "nat \<Rightarrow> (nat \<Rightarrow> nat \<Rightarrow> uint8) \<Rightarrow> nat \<Rightarrow> nat \<Rightarrow> nat \<Rightarrow> uint8" where
  "ideal S v 0 p s = v p s"
| "ideal S v (Suc l) p s = Max (ideal S v l (p * S + s) ` {..<S})"

lemma ideal_cong:
  assumes "\<And>p s. s < S \<Longrightarrow> v p s = v' p s" "s < S"
  shows "ideal S v l p s = ideal S v' l p s"
  using assms(2)
proof (induction l arbitrary: p s)
  case (Suc l)
  then have "ideal S v l (p * S + s) ` {..<S} = ideal S v' l (p * S + s) ` {..<S}" by (intro image_cong) auto
  then show ?case by simp
qed (simp add: assms(1))

lemma Max_zero: "0 < S \<Longrightarrow> (\<And>s. s < S \<Longrightarrow> f s = 0) \<Longrightarrow> Max (f ` {..<S}) = (0::uint8)" for S :: nat
proof -
  assume "0 < S" "\<And>s. s < S \<Longrightarrow> f s = 0"
  then have "f ` {..<S} = {0}" by (auto simp: image_def intro!: exI [of _ 0])
  then show ?thesis by simp
qed

lemma ideal_zero:
  assumes "0 < S" "\<And>p s. s < S \<Longrightarrow> X \<le> p * S + s \<Longrightarrow> v p s = 0" "X \<le> (p * S + s) * S ^ l" "s < S"
  shows "ideal S v l p s = 0"
  using assms(3,4)
proof (induction l arbitrary: p s)
  case 0
  then show ?case using assms(2) by simp
next
  case (Suc l)
  have "ideal S v l (p * S + s) s' = 0" if "s' < S" for s'
  proof (rule Suc.IH [OF _ that])
    have "(p * S + s) * S ^ Suc l \<le> ((p * S + s) * S + s') * S ^ l" by (simp add: algebra_simps)
    then show "X \<le> ((p * S + s) * S + s') * S ^ l" using Suc.prems(1) by linarith
  qed
  then show ?case using assms(1) by (simp add: Max_zero)
qed

text \<open>The slots that lead only to blocks no relation can have are empty.\<close>

definition map_bounded :: "nat \<Rightarrow> fsm_fork \<Rightarrow> bool" where
  "map_bounded B rel \<longleftrightarrow> (\<forall>l < FSM_TREE_DEPTH B. \<forall>p. \<forall>s < SlotsPerFSMPage B.
     InvalidBlockNumber \<le> (p * SlotsPerFSMPage B + s) * SlotsPerFSMPage B ^ l \<longrightarrow> slot_val B rel l p s = 0)"

lemma map_boundedD:
  "map_bounded B rel \<Longrightarrow> l < FSM_TREE_DEPTH B \<Longrightarrow> s < SlotsPerFSMPage B \<Longrightarrow>
   InvalidBlockNumber \<le> (p * SlotsPerFSMPage B + s) * SlotsPerFSMPage B ^ l \<Longrightarrow> slot_val B rel l p s = 0"
  by (simp add: map_bounded_def)

lemma bounded_ideal:
  assumes "blcksz_ok B" "map_bounded B rel" "s < SlotsPerFSMPage B"
    "InvalidBlockNumber \<le> (p * SlotsPerFSMPage B + s) * SlotsPerFSMPage B ^ l"
  shows "ideal (SlotsPerFSMPage B) (slot_val B rel 0) l p s = 0"
proof (rule ideal_zero [OF _ _ assms(4,3)])
  show "0 < SlotsPerFSMPage B" using fsm_sizes(1) [OF assms(1)] by simp
  show "slot_val B rel 0 p s = 0" if "s < SlotsPerFSMPage B" "InvalidBlockNumber \<le> p * SlotsPerFSMPage B + s" for p s
    using map_boundedD [OF assms(2), of 0 s p] fsm_sizes(4) [OF assms(1)] that by simp
qed

text \<open>The pages below a page that does not exist do not exist either.\<close>

lemma page_blk_mono:
  assumes "l < FSM_TREE_DEPTH B" "l' \<le> l" "p * SlotsPerFSMPage B ^ l \<le> p' * SlotsPerFSMPage B ^ l'"
  shows "page_blk B l p \<le> page_blk B l' p'"
proof (cases "l = l' \<and> p * SlotsPerFSMPage B ^ l = p' * SlotsPerFSMPage B ^ l'")
  case True
  then have "l' = l" "p * SlotsPerFSMPage B ^ l = p' * SlotsPerFSMPage B ^ l'" by auto
  then show ?thesis unfolding page_blk_def physical_rank by (simp only: order_refl)
next
  case False
  then have "p * SlotsPerFSMPage B ^ l < p' * SlotsPerFSMPage B ^ l' \<or>
      p * SlotsPerFSMPage B ^ l = p' * SlotsPerFSMPage B ^ l' \<and> l' < l" using assms(2,3) by linarith
  then have "page_blk B l p < page_blk B l' p'"
    unfolding page_blk_def using assms(1,2) by (intro physical_less) auto
  then show ?thesis by simp
qed

lemma missing_ideal:
  assumes "blcksz_ok B" "l < FSM_TREE_DEPTH B" "\<not> page_blk B l p < length rel" "l' \<le> l"
    "p * SlotsPerFSMPage B ^ l \<le> p' * SlotsPerFSMPage B ^ l'" "s < SlotsPerFSMPage B"
  shows "slot_val B rel l' p' s = 0" "ideal (SlotsPerFSMPage B) (slot_val B rel 0) l' p' s = 0"
proof -
  let ?S = "SlotsPerFSMPage B"
  show "slot_val B rel l' p' s = 0"
    using page_blk_mono [OF assms(2,4,5)] assms(3) by (simp add: slot_val_def)
  have S: "0 < ?S" using fsm_sizes(1) [OF assms(1)] by simp
  show "ideal ?S (slot_val B rel 0) l' p' s = 0"
  proof (rule ideal_zero [OF S, of "p * ?S ^ Suc l"])
    fix p'' s' assume "s' < ?S" "p * ?S ^ Suc l \<le> p'' * ?S + s'"
    then have "p * ?S ^ l * ?S < Suc p'' * ?S" by (simp add: algebra_simps)
    then have "p * ?S ^ l \<le> p'' * ?S ^ 0" by (simp only: mult_less_cancel2) simp
    from page_blk_mono [OF assms(2) _ this] assms(3) show "slot_val B rel 0 p'' s' = 0"
      by (simp add: slot_val_def)
  next
    have "p * ?S ^ Suc l = p * ?S ^ l * ?S" by simp
    also have "\<dots> \<le> p' * ?S ^ l' * ?S" using assms(5) by (rule mult_le_mono1)
    also have "\<dots> \<le> (p' * ?S + s) * ?S ^ l'" by (simp add: algebra_simps)
    finally show "p * ?S ^ Suc l \<le> (p' * ?S + s) * ?S ^ l'" .
  qed (rule assms(6))
qed

text \<open>The root of a consistent page is the maximum of its slots.\<close>

lemma max_avail_Max:
  assumes "blcksz_ok B" "fsm_ok B page"
  shows "fsm_get_max_avail page = Max (fsm_get_avail B page ` {..<SlotsPerFSMPage B})"
proof -
  note F = blcksz_ok_fsm [OF assms(1)]
  have fin: "finite (fsm_get_avail B page ` {..<SlotsPerFSMPage B})" "fsm_get_avail B page ` {..<SlotsPerFSMPage B} \<noteq> {}"
    using fsm_sizes(1) [OF assms(1)] by (auto simp: lessThan_empty_iff)
  have le: "Max (fsm_get_avail B page ` {..<SlotsPerFSMPage B}) \<le> fp_nodes page ! 0"
    using leaf_le_root [OF F assms(2)] fin by (auto simp: SlotsPerFSMPage_def)
  moreover have "fp_nodes page ! 0 \<le> Max (fsm_get_avail B page ` {..<SlotsPerFSMPage B})"
  proof (cases "fp_nodes page ! 0 = 0")
    case False
    then have "0 < fp_nodes page ! 0" by (simp add: word_gt_0)
    from root_ge [OF F assms(2) this] show ?thesis using fin by (auto simp: Max_ge_iff SlotsPerFSMPage_def)
  qed simp
  ultimately show ?thesis by (simp add: fsm_get_max_avail_def)
qed

lemma page_max_slots:
  assumes "blcksz_ok B" "fork_consistent B rel" "page_blk B l p < length rel"
  shows "fsm_get_max_avail (rel ! page_blk B l p) = Max (slot_val B rel l p ` {..<SlotsPerFSMPage B})"
proof -
  have "fsm_ok B (rel ! page_blk B l p)" using assms(2,3) by (simp add: fork_consistent_def)
  moreover have "slot_val B rel l p = fsm_get_avail B (rel ! page_blk B l p)"
    using assms(3) by (auto simp: slot_val_def)
  ultimately show ?thesis using max_avail_Max [OF assms(1)] by simp
qed

lemma reset_next_slot:
  assumes "blcksz_ok B" "fork_consistent B rel" "page_blk B l p < length rel"
  defines "rel' \<equiv> rel[page_blk B l p := (rel ! page_blk B l p)\<lparr>fp_next_slot := 0\<rparr>]"
  shows "fork_consistent B rel'" "slot_val B rel' = slot_val B rel" "length rel' = length rel"
proof -
  have "fsm_ok B (rel ! page_blk B l p)" using assms(2,3) by (simp add: fork_consistent_def)
  then show "fork_consistent B rel'"
    unfolding rel'_def using assms(2) by (intro fork_consistent_update) (simp_all add: fsm_ok_def fsm_shape_def)
  show "slot_val B rel' = slot_val B rel"
  proof (intro ext)
    fix l' p' s
    show "slot_val B rel' l' p' s = slot_val B rel l' p' s"
      using assms(3)
      by (cases "page_blk B l' p' = page_blk B l p") (simp_all add: slot_val_def rel'_def fsm_get_avail_def)
  qed
  show "length rel' = length rel" by (simp add: rel'_def)
qed

section \<open>Vacuuming computes it\<close>

text \<open>Page \<open>p'\<close> of level \<open>l'\<close> is page \<open>p\<close> of level \<open>l\<close> or below it.\<close>

definition in_sub :: "nat \<Rightarrow> nat \<Rightarrow> nat \<Rightarrow> nat \<Rightarrow> nat \<Rightarrow> bool" where
  "in_sub S l p l' p' \<longleftrightarrow> l' \<le> l \<and> p' div S ^ (l - l') = p"

text \<open>The slots that are done when the loop over the slots of page \<open>p\<close> of level \<open>Suc j\<close> is at \<open>k\<close>.\<close>

definition vac_done :: "nat \<Rightarrow> nat \<Rightarrow> nat \<Rightarrow> nat \<Rightarrow> nat \<Rightarrow> nat \<Rightarrow> nat \<Rightarrow> bool" where
  "vac_done S j p k l' p' s \<longleftrightarrow>
     l' \<le> j \<and> p * S \<le> p' div S ^ (j - l') \<and> p' div S ^ (j - l') < p * S + k \<or> l' = Suc j \<and> p' = p \<and> s < k"

text \<open>The fork after the part \<open>done\<close> of the map has been brought up to date.\<close>

definition vacuumed :: "nat \<Rightarrow> fsm_fork \<Rightarrow> (nat \<Rightarrow> nat \<Rightarrow> nat \<Rightarrow> bool) \<Rightarrow> fsm_fork \<Rightarrow> bool" where
  "vacuumed B rel part rel' \<longleftrightarrow> length rel' = length rel \<and> fork_consistent B rel' \<and>
     (\<forall>l < FSM_TREE_DEPTH B. \<forall>p. \<forall>s < SlotsPerFSMPage B. slot_val B rel' l p s =
        (if part l p s then ideal (SlotsPerFSMPage B) (slot_val B rel 0) l p s else slot_val B rel l p s))"

lemma vacuumedD:
  "vacuumed B rel part rel' \<Longrightarrow> l < FSM_TREE_DEPTH B \<Longrightarrow> s < SlotsPerFSMPage B \<Longrightarrow>
   slot_val B rel' l p s = (if part l p s then ideal (SlotsPerFSMPage B) (slot_val B rel 0) l p s else slot_val B rel l p s)"
  by (simp add: vacuumed_def)

lemma vacuumed_ideal:
  assumes "blcksz_ok B" "vacuumed B rel part rel'" "s < SlotsPerFSMPage B"
  shows "ideal (SlotsPerFSMPage B) (slot_val B rel' 0) l p s = ideal (SlotsPerFSMPage B) (slot_val B rel 0) l p s"
proof (rule ideal_cong [OF _ assms(3)])
  fix p s assume "s < SlotsPerFSMPage B"
  then show "slot_val B rel' 0 p s = slot_val B rel 0 p s"
    using vacuumedD [OF assms(2), of 0 s p] fsm_sizes(4) [OF assms(1)] by simp
qed

lemma vacuumed_bounded:
  assumes "blcksz_ok B" "map_bounded B rel" "vacuumed B rel part rel'"
  shows "map_bounded B rel'"
  unfolding map_bounded_def
proof (intro allI impI)
  fix l p s assume "l < FSM_TREE_DEPTH B" "s < SlotsPerFSMPage B"
    "InvalidBlockNumber \<le> (p * SlotsPerFSMPage B + s) * SlotsPerFSMPage B ^ l"
  then show "slot_val B rel' l p s = 0"
    using vacuumedD [OF assms(3), of l s p] bounded_ideal [OF assms(1,2), of s p l] map_boundedD [OF assms(2), of l s p]
    by simp
qed

lemma vacuumed_trans:
  assumes "blcksz_ok B" "vacuumed B rel part rel1" "vacuumed B rel1 part1 rel2"
  shows "vacuumed B rel (\<lambda>l p s. part l p s \<or> part1 l p s) rel2"
  using assms(2,3) vacuumed_ideal [OF assms(1,2)] unfolding vacuumed_def by simp

lemma vacuumed_cong:
  assumes "vacuumed B rel part rel'"
    "\<And>l p s. l < FSM_TREE_DEPTH B \<Longrightarrow> s < SlotsPerFSMPage B \<Longrightarrow> part l p s \<noteq> part' l p s \<Longrightarrow>
      slot_val B rel l p s = ideal (SlotsPerFSMPage B) (slot_val B rel 0) l p s"
  shows "vacuumed B rel part' rel'"
  unfolding vacuumed_def
proof (intro conjI allI impI)
  fix l p s assume ls: "l < FSM_TREE_DEPTH B" "s < SlotsPerFSMPage B"
  then show "slot_val B rel' l p s =
      (if part' l p s then ideal (SlotsPerFSMPage B) (slot_val B rel 0) l p s else slot_val B rel l p s)"
    using vacuumedD [OF assms(1) ls, of p] assms(2) [OF ls, of p] by (cases "part l p s"; cases "part' l p s") simp_all
qed (use assms(1) in \<open>simp_all add: vacuumed_def\<close>)

text \<open>Writing one slot of an existing page.\<close>

lemma vacuumed_write:
  assumes "blcksz_ok B" "fork_consistent B rel" "l < FSM_TREE_DEPTH B" "k < SlotsPerFSMPage B"
    "page_blk B l p < length rel" "m = ideal (SlotsPerFSMPage B) (slot_val B rel 0) l p k" "0 < l"
  defines "rel' \<equiv> if fsm_get_avail B (rel ! page_blk B l p) k \<noteq> m
    then rel[page_blk B l p := snd (fsm_set_avail B (rel ! page_blk B l p) k m)] else rel"
  shows "vacuumed B rel (\<lambda>l' p' s. l' = l \<and> p' = p \<and> s = k) rel'"
proof (cases "fsm_get_avail B (rel ! page_blk B l p) k = m")
  case True
  then have "slot_val B rel l p k = m" using assms(5) by (simp add: slot_val_def)
  then show ?thesis using True assms(2,6) by (auto simp: vacuumed_def rel'_def)
next
  case False
  have e: "fsm_extend B rel (page_blk B l p + 1) = rel" using assms(5) by (simp add: fsm_extend_def)
  note w = write_slot [OF assms(1) fork_consistent_ok [OF assms(2)] assms(3,4), where p = p and v = m, unfolded e]
  show ?thesis
    using False w(2) [OF assms(2)] w(3,4) assms(5,6) by (auto simp: vacuumed_def rel'_def)
qed

text \<open>Nothing is to be done for a page that does not exist.\<close>

lemma vacuumed_missing:
  assumes "blcksz_ok B" "l < FSM_TREE_DEPTH B" "fork_consistent B rel" "\<not> page_blk B l q < length rel"
  shows "vacuumed B rel (\<lambda>l' p' s. in_sub (SlotsPerFSMPage B) l q l' p') rel"
    "Max (ideal (SlotsPerFSMPage B) (slot_val B rel 0) l q ` {..<SlotsPerFSMPage B}) = 0"
proof -
  let ?S = "SlotsPerFSMPage B"
  have eq: "slot_val B rel l' p' s = ideal ?S (slot_val B rel 0) l' p' s"
    if "s < ?S" "in_sub ?S l q l' p'" for l' p' s
  proof -
    have l': "l' \<le> l" "p' div ?S ^ (l - l') = q" using that(2) by (simp_all add: in_sub_def)
    have "q * ?S ^ l = p' div ?S ^ (l - l') * ?S ^ (l - l') * ?S ^ l'"
      using l' by (simp add: mult.assoc flip: power_add)
    also have "\<dots> \<le> p' * ?S ^ l'" by (intro mult_le_mono1) simp
    finally show ?thesis using missing_ideal [OF assms(1,2,4) l'(1) _ that(1), of p'] by simp
  qed
  have "vacuumed B rel (\<lambda>l' p' s. False) rel" using assms(3) by (simp add: vacuumed_def)
  then show "vacuumed B rel (\<lambda>l' p' s. in_sub ?S l q l' p') rel"
    by (rule vacuumed_cong) (use eq in auto)
  show "Max (ideal ?S (slot_val B rel 0) l q ` {..<?S}) = 0"
    using missing_ideal(2) [OF assms(1,2,4) order_refl order_refl] fsm_sizes(1) [OF assms(1)]
    by (intro Max_zero) auto
qed

lemma vacuum_step_child:
  assumes "blcksz_ok B" "j < FSM_TREE_DEPTH B" "k < SlotsPerFSMPage B"
    "vacuumed B rel (\<lambda>l' p' s. in_sub (SlotsPerFSMPage B) j (p * SlotsPerFSMPage B + k) l' p') rel1"
    "fork_consistent B rel" "Suc j < FSM_TREE_DEPTH B" "page_blk B (Suc j) p < length rel"
    "m = Max (ideal (SlotsPerFSMPage B) (slot_val B rel 0) j (p * SlotsPerFSMPage B + k) ` {..<SlotsPerFSMPage B})"
  defines "rel2 \<equiv> if fsm_get_avail B (rel1 ! page_blk B (Suc j) p) k \<noteq> m
    then rel1[page_blk B (Suc j) p := snd (fsm_set_avail B (rel1 ! page_blk B (Suc j) p) k m)] else rel1"
  shows "vacuumed B rel (\<lambda>l' p' s. in_sub (SlotsPerFSMPage B) j (p * SlotsPerFSMPage B + k) l' p' \<or>
    l' = Suc j \<and> p' = p \<and> s = k) rel2"
proof -
  have c: "fork_consistent B rel1" "page_blk B (Suc j) p < length rel1"
    using assms(4,7) by (simp_all add: vacuumed_def)
  have m: "m = ideal (SlotsPerFSMPage B) (slot_val B rel1 0) (Suc j) p k"
    unfolding vacuumed_ideal [OF assms(1,4,3)] by (simp add: assms(8))
  show ?thesis
    unfolding rel2_def
    by (rule vacuumed_trans [OF assms(1,4) vacuumed_write [OF assms(1) c(1) assms(6,3) c(2) m]]) simp
qed

lemma vacuum_slots_correct:
  assumes B: "blcksz_ok B" and j: "Suc j < FSM_TREE_DEPTH B" and blk: "page_blk B (Suc j) p < length rel0"
    and bnd: "map_bounded B rel0" and stop: "stop \<le> SlotsPerFSMPage B"
    and child: "\<And>k rel. k < SlotsPerFSMPage B \<Longrightarrow> fork_consistent B rel \<Longrightarrow> map_bounded B rel \<Longrightarrow>
      \<exists>rel'. child k rel =
        (Max (ideal (SlotsPerFSMPage B) (slot_val B rel 0) j (p * SlotsPerFSMPage B + k) ` {..<SlotsPerFSMPage B}),
         \<not> page_blk B j (p * SlotsPerFSMPage B + k) < length rel, rel') \<and>
        vacuumed B rel (\<lambda>l' p' s. in_sub (SlotsPerFSMPage B) j (p * SlotsPerFSMPage B + k) l' p') rel'"
    and "k \<le> stop" "vacuumed B rel0 (vac_done (SlotsPerFSMPage B) j p k) rel"
    and "eof \<longrightarrow> \<not> page_blk B j (p * SlotsPerFSMPage B + k) < length rel0"
  shows "vacuumed B rel0 (vac_done (SlotsPerFSMPage B) j p stop)
    (vacuum_slots B (page_blk B (Suc j) p) child [k..<stop] eof rel)"
  using assms(7-)
proof (induction "stop - k" arbitrary: k eof rel)
  case 0
  then show ?case by simp
next
  case (Suc n)
  let ?S = "SlotsPerFSMPage B" and ?blk = "page_blk B (Suc j) p"
  have k: "k < stop" "k < ?S" using Suc.hyps(2) stop by simp_all
  have j': "j < FSM_TREE_DEPTH B" using j by simp
  have c: "fork_consistent B rel" "length rel = length rel0" "map_bounded B rel" "?blk < length rel"
    using Suc.prems(2) vacuumed_bounded [OF B bnd] blk by (auto simp: vacuumed_def)
  let ?m = "Max (ideal ?S (slot_val B rel 0) j (p * ?S + k) ` {..<?S})"
  let ?eof = "\<not> page_blk B j (p * ?S + k) < length rel0"
  obtain rel1 where r1: "(if \<not> eof then child k rel else (0, eof, rel)) = (?m, ?eof, rel1)"
      "vacuumed B rel (\<lambda>l' p' s. in_sub ?S j (p * ?S + k) l' p') rel1"
  proof (cases eof)
    case False
    then show ?thesis using child [OF k(2) c(1,3)] c(2) that by auto
  next
    case True
    then have miss: "\<not> page_blk B j (p * ?S + k) < length rel" using Suc.prems(3) c(2) by simp
    then show ?thesis using vacuumed_missing [OF B j' c(1) miss] True Suc.prems(3) that by simp
  qed
  define rel2 where "rel2 = (if fsm_get_avail B (rel1 ! ?blk) k \<noteq> ?m
    then rel1[?blk := snd (fsm_set_avail B (rel1 ! ?blk) k ?m)] else rel1)"
  have "vacuumed B rel (\<lambda>l' p' s. in_sub ?S j (p * ?S + k) l' p' \<or> l' = Suc j \<and> p' = p \<and> s = k) rel2"
    unfolding rel2_def by (rule vacuum_step_child [OF B j' k(2) r1(2) c(1) j c(4) refl])
  from vacuumed_trans [OF B Suc.prems(2) this]
  have v2: "vacuumed B rel0 (vac_done ?S j p (Suc k)) rel2"
    by (rule vacuumed_cong) (auto simp: vac_done_def in_sub_def)
  have "page_blk B j (p * ?S + k) \<le> page_blk B j (p * ?S + Suc k)"
    by (intro page_blk_mono [OF j']) simp_all
  then have eof2: "?eof \<longrightarrow> \<not> page_blk B j (p * ?S + Suc k) < length rel0" by simp
  have "vacuum_slots B ?blk child [k..<stop] eof rel = vacuum_slots B ?blk child [Suc k..<stop] ?eof rel2"
    using k(1) r1(1) unfolding rel2_def by (simp add: upt_conv_Cons Let_def split_beta)
  then show ?case using Suc.hyps(1) [OF _ _ v2 eof2] Suc.hyps(2) k(1) by simp
qed

lemma full_range:
  assumes "blcksz_ok B"
  obtains stop where "vacuum_range B \<lparr>level = l, logpageno = p\<rparr> 0 InvalidBlockNumber = (0, stop)"
    "stop \<le> SlotsPerFSMPage B"
    "\<And>s. stop \<le> s \<Longrightarrow> s < SlotsPerFSMPage B \<Longrightarrow> InvalidBlockNumber \<le> (p * SlotsPerFSMPage B + s) * SlotsPerFSMPage B ^ l"
proof -
  let ?S = "SlotsPerFSMPage B" and ?last = "InvalidBlockNumber - 1"
  define w where "w = ?last div ?S ^ l"
  have S: "0 < ?S" using fsm_sizes(1) [OF assms] by simp
  define stop where "stop = (if w div ?S = p then w mod ?S + 1 else if w div ?S > p then ?S else 0)"
  have "?last div ?S ^ Suc l = w div ?S" by (simp add: w_def power_Suc2 div_mult2_eq del: power_Suc)
  then have r: "vacuum_range B \<lparr>level = l, logpageno = p\<rparr> 0 InvalidBlockNumber = (0, stop)"
    by (simp add: vacuum_range_def location_at stop_def w_def del: power_Suc)
  have ws: "w = w div ?S * ?S + w mod ?S" by simp
  have less: "w < p * ?S + s" if "stop \<le> s" "s < ?S" for s
  proof (cases "w div ?S" p rule: linorder_cases)
    case less
    then have "Suc (w div ?S) * ?S \<le> p * ?S" by (intro mult_le_mono1) simp
    moreover have "w mod ?S < ?S" using S by simp
    moreover have "Suc (w div ?S) * ?S = w div ?S * ?S + ?S" by simp
    ultimately show ?thesis using ws by linarith
  next
    case equal
    then have "w mod ?S < s" using that by (simp add: stop_def)
    then show ?thesis using ws equal by (metis add_less_cancel_left)
  next
    case greater
    then show ?thesis using that by (simp add: stop_def)
  qed
  have "InvalidBlockNumber \<le> (p * ?S + s) * ?S ^ l" if "stop \<le> s" "s < ?S" for s
  proof -
    have "?last < (p * ?S + s) * ?S ^ l"
      using less [OF that] S unfolding w_def by (simp add: div_less_iff_less_mult)
    then show ?thesis by simp
  qed
  moreover have "stop \<le> ?S" using S by (auto simp: stop_def Suc_le_eq)
  ultimately show ?thesis using r by (intro that) auto
qed

text \<open>What the loop leaves out leads to no block.\<close>

lemma unfinished_part:
  assumes "blcksz_ok B" "stop \<le> SlotsPerFSMPage B"
    "\<And>s. stop \<le> s \<Longrightarrow> s < SlotsPerFSMPage B \<Longrightarrow>
      InvalidBlockNumber \<le> (p * SlotsPerFSMPage B + s) * SlotsPerFSMPage B ^ Suc j"
    "s < SlotsPerFSMPage B"
    "vac_done (SlotsPerFSMPage B) j p stop l' p' s \<noteq> in_sub (SlotsPerFSMPage B) (Suc j) p l' p'"
  shows "InvalidBlockNumber \<le> (p' * SlotsPerFSMPage B + s) * SlotsPerFSMPage B ^ l'"
proof -
  let ?S = "SlotsPerFSMPage B"
  have S: "0 < ?S" using fsm_sizes(1) [OF assms(1)] by simp
  have dd: "p' div ?S ^ (j - l') div ?S = p' div ?S ^ (Suc j - l')" if "l' \<le> j"
    using that by (simp add: Suc_diff_le power_Suc2 div_mult2_eq del: power_Suc)
  have div: "q div ?S = p \<longleftrightarrow> p * ?S \<le> q \<and> q < p * ?S + ?S" for q
  proof
    assume "q div ?S = p"
    then show "p * ?S \<le> q \<and> q < p * ?S + ?S"
      using div_times_less_eq_dividend [of q ?S] dividend_less_div_times [OF S, of q] by auto
  next
    assume "p * ?S \<le> q \<and> q < p * ?S + ?S"
    then show "q div ?S = p" by (intro div_nat_eqI) (simp_all add: mult.commute)
  qed
  consider (top) "l' = Suc j" "p' = p" "stop \<le> s"
    | (low) "l' \<le> j" "p * ?S + stop \<le> p' div ?S ^ (j - l')" "p' div ?S ^ (j - l') < p * ?S + ?S"
  proof (cases "l' \<le> j")
    case True
    let ?q = "p' div ?S ^ (j - l')"
    have "vac_done ?S j p stop l' p' s \<longleftrightarrow> p * ?S \<le> ?q \<and> ?q < p * ?S + stop"
      using True by (auto simp: vac_done_def)
    moreover have "in_sub ?S (Suc j) p l' p' \<longleftrightarrow> p * ?S \<le> ?q \<and> ?q < p * ?S + ?S"
      using True unfolding in_sub_def dd [OF True, symmetric] div by simp
    ultimately have "p * ?S + stop \<le> ?q \<and> ?q < p * ?S + ?S" using assms(2,5) by linarith
    then show ?thesis using that(2) True by blast
  next
    case False
    then have "l' = Suc j \<and> p' = p \<and> stop \<le> s" using assms(5) by (auto simp: vac_done_def in_sub_def le_Suc_eq)
    then show ?thesis using that(1) by blast
  qed
  then show ?thesis
  proof cases
    case top
    then show ?thesis using assms(3,4) by simp
  next
    case low
    let ?q = "p' div ?S ^ (j - l')"
    have "InvalidBlockNumber \<le> (p * ?S + (?q - p * ?S)) * ?S ^ Suc j"
      using low by (intro assms(3)) linarith+
    also have "p * ?S + (?q - p * ?S) = ?q" using low(2) by simp
    also have "?q * ?S ^ Suc j = ?q * ?S ^ (j - l') * ?S * ?S ^ l'"
      using low(1) by (simp add: mult.assoc flip: power_add)
    also have "\<dots> \<le> p' * ?S * ?S ^ l'" by (intro mult_le_mono1) simp
    also have "\<dots> \<le> (p' * ?S + s) * ?S ^ l'" by (intro mult_le_mono1) simp
    finally show ?thesis .
  qed
qed

lemma vacuum_page_correct:
  assumes "blcksz_ok B" "l < FSM_TREE_DEPTH B" "fork_consistent B rel" "map_bounded B rel"
  shows "\<exists>rel'. fsm_vacuum_page B 0 InvalidBlockNumber l p rel =
      (Max (ideal (SlotsPerFSMPage B) (slot_val B rel 0) l p ` {..<SlotsPerFSMPage B}),
       \<not> page_blk B l p < length rel, rel') \<and>
    vacuumed B rel (\<lambda>l' p' s. in_sub (SlotsPerFSMPage B) l p l' p') rel'"
  using assms(2-)
proof (induction l arbitrary: p rel)
  case 0
  let ?S = "SlotsPerFSMPage B"
  show ?case
  proof (cases "page_blk B 0 p < length rel")
    case True
    note r = reset_next_slot [OF assms(1) 0(2) True]
    have "ideal ?S (slot_val B rel 0) 0 p ` {..<?S} = slot_val B rel 0 p ` {..<?S}" by simp
    then show ?thesis
      using True r page_max_slots [OF assms(1) 0(2) True] by (simp add: readbuf_read vacuumed_def in_sub_def)
  next
    case False
    then show ?thesis using vacuumed_missing [OF assms(1) 0(1,2) False] by (simp add: readbuf_read)
  qed
next
  case (Suc j)
  let ?S = "SlotsPerFSMPage B" and ?blk = "page_blk B (Suc j) p"
  show ?case
  proof (cases "?blk < length rel")
    case True
    obtain stop where stop: "vacuum_range B \<lparr>level = Suc j, logpageno = p\<rparr> 0 InvalidBlockNumber = (0, stop)"
        "stop \<le> ?S" "\<And>s. stop \<le> s \<Longrightarrow> s < ?S \<Longrightarrow> InvalidBlockNumber \<le> (p * ?S + s) * ?S ^ Suc j"
      using full_range [OF assms(1)] by blast
    define child where "child = (\<lambda>slot. fsm_vacuum_page B 0 InvalidBlockNumber j
        (logpageno (fsm_get_child B \<lparr>level = Suc j, logpageno = p\<rparr> slot)))"
    define rel1 where "rel1 = vacuum_slots B ?blk child [0..<stop] False rel"
    have "vacuumed B rel (vac_done ?S j p stop) rel1"
      unfolding rel1_def
    proof (rule vacuum_slots_correct [OF assms(1) Suc.prems(1) True Suc.prems(3) stop(2)])
      have "\<not> vac_done ?S j p 0 l' p' s" for l' p' s by (auto simp: vac_done_def)
      then show "vacuumed B rel (vac_done ?S j p 0) rel" using Suc.prems(2) by (simp add: vacuumed_def)
      fix k rel' assume "k < ?S" "fork_consistent B rel'" "map_bounded B rel'"
      then show "\<exists>rel''. child k rel' = (Max (ideal ?S (slot_val B rel' 0) j (p * ?S + k) ` {..<?S}),
          \<not> page_blk B j (p * ?S + k) < length rel', rel'') \<and>
          vacuumed B rel' (\<lambda>l' p' s. in_sub ?S j (p * ?S + k) l' p') rel''"
        using Suc.IH [of rel' "p * ?S + k"] Suc.prems(1) by (simp add: child_def fsm_get_child_def)
    qed simp_all
    then have v1: "vacuumed B rel (\<lambda>l' p' s. in_sub ?S (Suc j) p l' p') rel1"
    proof (rule vacuumed_cong)
      fix l' p' s assume l': "l' < FSM_TREE_DEPTH B" and s: "s < ?S"
        and "vac_done ?S j p stop l' p' s \<noteq> in_sub ?S (Suc j) p l' p'"
      then have "InvalidBlockNumber \<le> (p' * ?S + s) * ?S ^ l'" using unfinished_part [OF assms(1) stop(2,3)] by blast
      then show "slot_val B rel l' p' s = ideal ?S (slot_val B rel 0) l' p' s"
        using map_boundedD [OF Suc.prems(3) l' s] bounded_ideal [OF assms(1) Suc.prems(3) s] by simp
    qed
    have c: "fork_consistent B rel1" "length rel1 = length rel" using v1 by (simp_all add: vacuumed_def)
    have b1: "?blk < length rel1" using c(2) True by simp
    note r = reset_next_slot [OF assms(1) c(1) b1]
    have "slot_val B rel1 (Suc j) p ` {..<?S} = ideal ?S (slot_val B rel 0) (Suc j) p ` {..<?S}"
      using vacuumedD [OF v1 Suc.prems(1)] by (intro image_cong) (simp_all add: in_sub_def)
    then have "fsm_get_max_avail (rel1 ! ?blk) = Max (ideal ?S (slot_val B rel 0) (Suc j) p ` {..<?S})"
      using page_max_slots [OF assms(1) c(1) b1] by simp
    moreover have "vacuumed B rel (\<lambda>l' p' s. in_sub ?S (Suc j) p l' p')
        (rel1[?blk := (rel1 ! ?blk)\<lparr>fp_next_slot := 0\<rparr>])"
      using v1 r by (simp add: vacuumed_def)
    moreover have "fsm_vacuum_page B 0 InvalidBlockNumber (Suc j) p rel =
        (fsm_get_max_avail (rel1 ! ?blk), False, rel1[?blk := (rel1 ! ?blk)\<lparr>fp_next_slot := 0\<rparr>])"
      using True stop(1) by (simp add: readbuf_read rel1_def child_def Let_def)
    ultimately show ?thesis using True by simp
  next
    case False
    then show ?thesis using vacuumed_missing [OF assms(1) Suc.prems(1,2) False] by (simp add: readbuf_read Let_def)
  qed
qed

section \<open>After a vacuum\<close>

text \<open>Every slot of a map of any size is below the root page.\<close>

lemma in_root:
  assumes "blcksz_ok B" "l < FSM_TREE_DEPTH B" "s < SlotsPerFSMPage B"
    "(p * SlotsPerFSMPage B + s) * SlotsPerFSMPage B ^ l < InvalidBlockNumber"
  shows "in_sub (SlotsPerFSMPage B) (FSM_ROOT_LEVEL B) 0 l p"
proof -
  let ?S = "SlotsPerFSMPage B"
  note z = fsm_sizes [OF assms(1)]
  have l: "l \<le> FSM_ROOT_LEVEL B" "FSM_TREE_DEPTH B = FSM_ROOT_LEVEL B - l + Suc l"
    using assms(2) by (simp_all add: FSM_ROOT_LEVEL_def)
  have "p * (?S * ?S ^ l) \<le> (p * ?S + s) * ?S ^ l" by (simp add: algebra_simps)
  also have "\<dots> < ?S ^ FSM_TREE_DEPTH B" using assms(4) z(3) by (simp add: InvalidBlockNumber_def)
  also have "\<dots> = ?S ^ (FSM_ROOT_LEVEL B - l) * (?S * ?S ^ l)" by (subst l(2)) (simp only: power_add power_Suc)
  finally have "p < ?S ^ (FSM_ROOT_LEVEL B - l)" by (rule mult_right_less_imp_less) simp
  then show ?thesis using l(1) by (simp add: in_sub_def)
qed

lemma FreeSpaceMapVacuum_correct:
  assumes "blcksz_ok B" "fork_consistent B rel" "map_bounded B rel"
  shows "vacuumed B rel (\<lambda>l p s. True) (FreeSpaceMapVacuum B rel)"
proof -
  let ?S = "SlotsPerFSMPage B"
  have r: "FSM_ROOT_LEVEL B < FSM_TREE_DEPTH B" using fsm_sizes(4) [OF assms(1)] by (simp add: FSM_ROOT_LEVEL_def)
  obtain rel' where rel': "fsm_vacuum_page B 0 InvalidBlockNumber (FSM_ROOT_LEVEL B) 0 rel =
      (Max (ideal ?S (slot_val B rel 0) (FSM_ROOT_LEVEL B) 0 ` {..<?S}), \<not> page_blk B (FSM_ROOT_LEVEL B) 0 < length rel, rel')"
      "vacuumed B rel (\<lambda>l p s. in_sub ?S (FSM_ROOT_LEVEL B) 0 l p) rel'"
    using vacuum_page_correct [OF assms(1) r assms(2,3)] by blast
  have "vacuumed B rel (\<lambda>l p s. True) rel'"
    using rel'(2)
  proof (rule vacuumed_cong)
    fix l p s assume l: "l < FSM_TREE_DEPTH B" and s: "s < ?S" and "in_sub ?S (FSM_ROOT_LEVEL B) 0 l p \<noteq> True"
    then have "InvalidBlockNumber \<le> (p * ?S + s) * ?S ^ l" using in_root [OF assms(1) l s] by (meson not_le)
    then show "slot_val B rel l p s = ideal ?S (slot_val B rel 0) l p s"
      using map_boundedD [OF assms(3) l s] bounded_ideal [OF assms(1,3) s] by simp
  qed
  then show ?thesis by (simp add: FreeSpaceMapVacuum_def FSM_ROOT_ADDRESS_def rel'(1))
qed

lemma ideal_ge:
  assumes "0 < S" "c \<le> ideal S v (Suc l) p s"
  shows "\<exists>s' < S. c \<le> ideal S v l (p * S + s) s'"
proof -
  have "finite (ideal S v l (p * S + s) ` {..<S})" "ideal S v l (p * S + s) ` {..<S} \<noteq> {}"
    using assms(1) by (auto simp: lessThan_empty_iff)
  then show ?thesis using assms(2) by (auto simp: Max_ge_iff)
qed

lemma leaf_le_ideal:
  assumes "s < S" "s' < S" "(p' * S + s') div S ^ l = p * S + s"
  shows "v p' s' \<le> ideal S v l p s"
  using assms
proof (induction l arbitrary: p s)
  case 0
  then have "p' * S + s' = p * S + s" by simp
  then have "(p' * S + s') div S = (p * S + s) div S" "(p' * S + s') mod S = (p * S + s) mod S" by simp_all
  then have "p' = p" "s' = s" using 0(1,2) by simp_all
  then show ?case by simp
next
  case (Suc l)
  let ?q = "(p' * S + s') div S ^ l"
  have q: "?q div S = p * S + s" using Suc.prems(3) by (simp add: power_Suc2 div_mult2_eq del: power_Suc)
  then have e: "?q = (p * S + s) * S + ?q mod S" by (metis div_mult_mod_eq)
  have S: "?q mod S < S" using Suc.prems(1) by simp
  have "v p' s' \<le> ideal S v l (p * S + s) (?q mod S)" by (rule Suc.IH [OF S Suc.prems(2) e])
  also have "\<dots> \<le> ideal S v (Suc l) p s" using S by simp
  finally show ?case .
qed

section \<open>The contract of a free space map\<close>

text \<open>
  What a client that records the free space of blocks relies on: a lookup returns what was last
  recorded for the block, as far as \<open>keep\<close> retains it.
\<close>

locale space_map =
  fixes inv :: "'f \<Rightarrow> bool" and lookup :: "'f \<Rightarrow> 'b \<Rightarrow> nat" and store :: "'f \<Rightarrow> 'b \<Rightarrow> nat \<Rightarrow> 'f"
    and keep :: "nat \<Rightarrow> nat"
  assumes store_inv: "inv f \<Longrightarrow> inv (store f b a)"
    and lookup_store: "inv f \<Longrightarrow> lookup (store f b a) b' = (if b' = b then keep a else lookup f b')"
begin

lemma store_all_inv: "inv f \<Longrightarrow> inv (fold (\<lambda>(b, a) f. store f b a) h f)"
  by (induction h arbitrary: f) (auto simp: store_inv)

lemma lookup_history:
  "inv f \<Longrightarrow> lookup (fold (\<lambda>(b, a) f. store f b a) h f) b =
     (case map_of (rev h) b of None \<Rightarrow> lookup f b | Some a \<Rightarrow> keep a)"
  by (induction h arbitrary: f)
     (auto simp: store_inv lookup_store map_of_append map_add_def split: option.splits)

end

text \<open>Recording in normal operation and in WAL replay.\<close>

interpretation normal: space_map "\<lambda>f. blcksz_ok B \<and> fork_ok B f" "GetRecordedFreeSpace B"
    "\<lambda>f b a. the (RecordPageWithFreeSpace B f b a)" "\<lambda>a. fsm_space_cat_to_avail B (fsm_space_avail_to_cat B a)" for B
  by unfold_locales (auto simp: record_facts GetRecordedFreeSpace_recorded)

interpretation replay: space_map "\<lambda>f. blcksz_ok B \<and> fork_ok B f" "GetRecordedFreeSpace B"
    "XLogRecordPageWithFreeSpace B" "\<lambda>a. fsm_space_cat_to_avail B (fsm_space_avail_to_cat B a)" for B
  by unfold_locales (auto simp: record_facts GetRecordedFreeSpace_recorded)

lemma keep_le:
  assumes "blcksz_ok B"
  shows "fsm_space_cat_to_avail B (fsm_space_avail_to_cat B a) \<le> a"
proof (cases "MaxFSMRequestSize B \<le> a")
  case True
  then show ?thesis by (simp add: fsm_space_avail_to_cat_def fsm_space_cat_to_avail_def)
next
  case False
  let ?c = "fsm_space_avail_to_cat B a"
  have u: "unat ?c = min 254 (a div FSM_CAT_STEP B)" using False by (simp add: avail_to_cat_unat)
  then have "?c \<noteq> 255" by auto
  then have "fsm_space_cat_to_avail B ?c = unat ?c * FSM_CAT_STEP B" by (simp add: fsm_space_cat_to_avail_def)
  also have "\<dots> \<le> a div FSM_CAT_STEP B * FSM_CAT_STEP B" using u by (intro mult_le_mono1) simp
  finally show ?thesis by (meson div_times_less_eq_dividend le_trans)
qed

lemma needed_cat:
  assumes "blcksz_ok B" "needed \<le> MaxFSMRequestSize B"
  obtains c where "fsm_space_needed_to_cat B needed = Inr c" "0 < c"
proof (cases "needed = 0")
  case True
  then show ?thesis using that [of 1] by (simp add: fsm_space_needed_to_cat_def)
next
  case False
  let ?s = "FSM_CAT_STEP B"
  define n where "n = (needed + ?s - 1) div ?s"
  have s: "0 < ?s" using fsm_sizes(6) [OF assms(1)] by simp
  then have "?s div ?s \<le> n" unfolding n_def using False by (intro div_le_mono) simp
  then have n: "0 < n" using s by simp
  define c :: uint8 where "c = of_nat (if n > 255 then 255 else n)"
  have "unat c = min 255 n" by (simp add: c_def unat_of_nat min_def)
  then have "0 < c" using n by (simp add: word_less_nat_alt)
  moreover have "fsm_space_needed_to_cat B needed = Inr c"
    using False assms(2) by (simp add: fsm_space_needed_to_cat_def Let_def n_def c_def)
  ultimately show ?thesis using that by blast
qed

lemma record_bounded:
  assumes "blcksz_ok B" "fork_ok B rel" "map_bounded B rel" "b < InvalidBlockNumber"
  shows "map_bounded B (XLogRecordPageWithFreeSpace B rel b a)"
  unfolding map_bounded_def
proof (intro allI impI)
  let ?S = "SlotsPerFSMPage B"
  fix l p s assume l: "l < FSM_TREE_DEPTH B" "s < ?S" "InvalidBlockNumber \<le> (p * ?S + s) * ?S ^ l"
  show "slot_val B (XLogRecordPageWithFreeSpace B rel b a) l p s = 0"
  proof (cases "l = 0")
    case True
    then have "p * ?S + s \<noteq> b" using l(3) assms(4) by auto
    then have "recorded B (XLogRecordPageWithFreeSpace B rel b a) (p * ?S + s) = recorded B rel (p * ?S + s)"
      using record_facts(5) [OF assms(1,2)] by simp
    then show ?thesis using map_boundedD [OF assms(3) l] True l(2) by (simp add: recorded_slot)
  next
    case False
    then show ?thesis using record_facts(4) [OF assms(1,2)] map_boundedD [OF assms(3) l] l by simp
  qed
qed

lemma recorded_bounded:
  assumes "blcksz_ok B" "map_bounded B rel" "0 < c" "c \<le> recorded B rel b"
  shows "b < InvalidBlockNumber"
proof (rule ccontr)
  let ?S = "SlotsPerFSMPage B"
  assume "\<not> b < InvalidBlockNumber"
  then have "recorded B rel b = 0"
    unfolding recorded_def using fsm_sizes(1,4) [OF assms(1)] by (intro map_boundedD [OF assms(2)]) simp_all
  then show False using assms(3,4) by (auto dest: leD)
qed

lemma search_result_block:
  assumes "blcksz_ok B" "map_bounded B rel" "0 < c" "search_result B rel c blk rel'"
  shows "blk = InvalidBlockNumber \<or> blk < InvalidBlockNumber \<and> c \<le> recorded B rel blk"
proof -
  have "b mod 2 ^ 32 = b" if "c \<le> recorded B rel b" for b
    using recorded_bounded [OF assms(1-3) that] by (simp add: InvalidBlockNumber_def)
  then show ?thesis using assms(4) recorded_bounded [OF assms(1-3)] by (auto simp: search_result_def)
qed

lemma fsm_search_total:
  assumes "blcksz_ok B" "0 < c" "fork_ok B rel"
  shows "\<exists>blk rel'. fsm_search B rel c = Some (blk, rel') \<and> search_result B rel c blk rel'"
proof -
  have "FSM_ROOT_LEVEL B < FSM_TREE_DEPTH B" using fsm_sizes(4) [OF assms(1)] by (simp add: FSM_ROOT_LEVEL_def)
  then show ?thesis
    unfolding fsm_search_def FSM_ROOT_ADDRESS_def by (rule fsm_search_loop_total [OF assms])
qed

lemma record_and_get:
  assumes "blcksz_ok B" "0 < c" "fork_ok B rel" "fsm_space_needed_to_cat B needed = Inr c"
  shows "\<exists>blk rel'. RecordAndGetPageWithFreeSpace B rel old avail needed = Inr (Some (blk, rel')) \<and>
    search_result B (XLogRecordPageWithFreeSpace B rel old avail) c blk rel'"
proof -
  let ?S = "SlotsPerFSMPage B" and ?cat = "fsm_space_avail_to_cat B avail"
  let ?blk = "page_blk B 0 (old div ?S)"
  note z = fsm_sizes [OF assms(1)]
  have c: "c \<noteq> 0" using assms(2) by auto
  have d: "0 < FSM_TREE_DEPTH B" "old mod ?S < ?S" using z by simp_all
  define rel0 where "rel0 = fsm_extend B rel (?blk + 1)"
  define page where "page = snd (fsm_set_avail B (rel0 ! ?blk) (old mod ?S) ?cat)"
  define rel1 where "rel1 = rel0[?blk := page]"
  have rel1: "XLogRecordPageWithFreeSpace B rel old avail = rel1"
    by (simp add: XLogRecordPageWithFreeSpace_def location page_blk_def Let_def rel1_def rel0_def page_def)
  have ok1: "fork_ok B rel1" using record_facts(2) [OF assms(1,3)] rel1 by metis
  have blk: "?blk < length rel1" using fork_extend(4) [OF assms(1)] by (simp add: rel1_def rel0_def)
  have page: "rel1 ! ?blk = page" using blk by (simp add: rel1_def)
  have "search_page B rel1 \<lparr>level = 0, logpageno = old div ?S\<rparr> c =
      (case fsm_search_avail B page c True of None \<Rightarrow> None
       | Some (slot, page') \<Rightarrow> Some (slot, if slot = -1 then fsm_get_max_avail page' else 0, rel1[?blk := page']))"
    using blk page by (simp add: search_page_def readbuf_read FSM_BOTTOM_LEVEL_def)
  moreover obtain slot m rel2 where s: "search_page B rel1 \<lparr>level = 0, logpageno = old div ?S\<rparr> c = Some (slot, m, rel2)"
      "fork_ok B rel2" "fork_consistent B rel1 \<longrightarrow> fork_consistent B rel2"
      "\<forall>l' < FSM_TREE_DEPTH B. \<forall>p'. \<forall>s < ?S. slot_val B rel2 l' p' s = slot_val B rel1 l' p' s"
      "slot = -1 \<or> 0 \<le> slot \<and> nat slot < ?S \<and> c \<le> slot_val B rel1 0 (old div ?S) (nat slot)"
    using search_page_facts [OF assms(1) ok1 d(1) assms(2), of "old div ?S"] by blast
  ultimately obtain page' where p': "fsm_search_avail B page c True = Some (slot, page')" "rel2 = rel1[?blk := page']"
    by (auto split: option.splits prod.splits)
  have set: "fsm_set_and_search B rel \<lparr>level = 0, logpageno = old div ?S\<rparr> (old mod ?S) ?cat c = Some (slot, rel2)"
    using c p'
    by (simp add: fsm_set_and_search_def readbuf_extend Let_def FSM_BOTTOM_LEVEL_def page_def rel1_def rel0_def)
  have rec: "recorded B rel2 b = recorded B rel1 b" for b unfolding recorded_def using s(4) z by simp
  show ?thesis
  proof (cases "slot = -1")
    case True
    obtain blk rel' where "fsm_search B rel2 c = Some (blk, rel')" "search_result B rel2 c blk rel'"
      using fsm_search_total [OF assms(1,2) s(2)] by blast
    then show ?thesis
      using True set assms(4) rec s(3) rel1
      by (auto simp: RecordAndGetPageWithFreeSpace_def location search_result_def)
  next
    case False
    have "c \<le> recorded B rel1 (old div ?S * ?S + nat slot)" using s(5) False by (simp add: recorded_slot)
    then show ?thesis
      using False set assms(4) rec s(2,3) rel1
      by (auto simp: RecordAndGetPageWithFreeSpace_def location search_result_def fsm_get_heap_blk_def)
  qed
qed

lemma slots_8192: "SlotsPerFSMPage 8192 = 4069"
  by (simp add: SlotsPerFSMPage_def LeafNodesPerPage_def NodesPerPage_def NonLeafNodesPerPage_def MAXALIGN_def
      SizeOfPageHeaderData_def)

lemma categories_8192:
  "fsm_space_needed_to_cat 8192 100 = Inr 4" "fsm_space_avail_to_cat 8192 130 = 4"
  "fsm_space_avail_to_cat 8192 100 = 3" "fsm_space_cat_to_avail 8192 3 = 96" "fsm_space_avail_to_cat 8192 4000 = 125"
  by (simp_all add: fsm_space_needed_to_cat_def fsm_space_avail_to_cat_def fsm_space_cat_to_avail_def
      MaxFSMRequestSize_def MAXALIGN_def SizeOfPageHeaderData_def FSM_CAT_STEP_def FSM_CATEGORIES_def)

lemma empty_fork: "fork_ok B []" "fork_consistent B []" "map_bounded B []" "recorded B [] b = 0"
  by (simp_all add: fork_ok_def fork_consistent_def map_bounded_def slot_val_def recorded_def)

lemma needed_cat_pos:
  assumes "blcksz_ok B" "fsm_space_needed_to_cat B needed = Inr c"
  shows "0 < c"
proof -
  have "needed \<le> MaxFSMRequestSize B" using assms(2) by (auto simp: fsm_space_needed_to_cat_def split: if_splits)
  then show ?thesis using needed_cat [OF assms(1)] assms(2) by (metis Inr_inject)
qed

lemma vacuum_then_search:
  assumes "blcksz_ok B" "fork_consistent B rel" "map_bounded B rel" "0 < c"
  shows "\<exists>blk rel'. fsm_search B (FreeSpaceMapVacuum B rel) c = Some (blk, rel') \<and>
    (\<forall>b. recorded B rel' b = recorded B rel b) \<and>
    (if \<exists>b. c \<le> recorded B rel b then blk < InvalidBlockNumber \<and> c \<le> recorded B rel blk
     else blk = InvalidBlockNumber)"
proof -
  let ?S = "SlotsPerFSMPage B" and ?rel = "FreeSpaceMapVacuum B rel" and ?r = "FSM_ROOT_LEVEL B"
  note z = fsm_sizes [OF assms(1)]
  note v = FreeSpaceMapVacuum_correct [OF assms(1-3)]
  have r: "?r < FSM_TREE_DEPTH B" and S: "0 < ?S" "\<And>x. x mod ?S < ?S" using z by (simp_all add: FSM_ROOT_LEVEL_def)
  have val: "slot_val B ?rel l p s = ideal ?S (slot_val B rel 0) l p s" if "l < FSM_TREE_DEPTH B" "s < ?S" for l p s
    using vacuumedD [OF v that] by simp
  have rec: "recorded B ?rel b = recorded B rel b" for b
    unfolding recorded_def using val [of 0] S z(4) by simp
  have ok: "fork_consistent B ?rel" using v by (simp add: vacuumed_def)
  have bnd: "map_bounded B ?rel" using vacuumed_bounded [OF assms(1,3) v] .
  obtain blk rel' where s: "fsm_search B ?rel c = Some (blk, rel')" "search_result B ?rel c blk rel'"
    using fsm_search_total [OF assms(1,4) fork_consistent_ok [OF ok]] by blast
  note block = search_result_block [OF assms(1) bnd assms(4) s(2)]
  show ?thesis
  proof (cases "\<exists>b. c \<le> recorded B rel b")
    case True
    then obtain b where b: "c \<le> recorded B rel b" ..
    have "b < InvalidBlockNumber" using recorded_bounded [OF assms(1,3,4) b] .
    then have lt: "b < ?S * ?S ^ ?r" using z(3,4) by (simp add: InvalidBlockNumber_def FSM_ROOT_LEVEL_def flip: power_Suc)
    let ?s = "b div ?S ^ ?r"
    have sr: "?s < ?S" using lt S(1) by (simp add: div_less_iff_less_mult)
    have "slot_val B rel 0 (b div ?S) (b mod ?S) \<le> ideal ?S (slot_val B rel 0) ?r 0 ?s"
      using sr S by (intro leaf_le_ideal) simp_all
    then have start: "c \<le> slot_val B ?rel ?r 0 ?s" using b val [OF r sr] by (simp add: recorded_def)
    have up: "\<exists>s' < ?S. c \<le> slot_val B ?rel l (p * ?S + s) s'"
      if "Suc l < FSM_TREE_DEPTH B" "s < ?S" "c \<le> slot_val B ?rel (Suc l) p s" for l p s
    proof -
      have "c \<le> ideal ?S (slot_val B rel 0) (Suc l) p s" using val [OF that(1,2)] that(3) by simp
      then obtain s' where "s' < ?S" "c \<le> ideal ?S (slot_val B rel 0) l (p * ?S + s) s'"
        using ideal_ge [OF S(1)] by blast
      then show ?thesis using val [of l s'] that(1) by auto
    qed
    obtain b' rel'' where "fsm_search B ?rel c = Some (b' mod 2 ^ 32, rel'')" "c \<le> recorded B ?rel b'"
      using fsm_search_loop_found [OF assms(1,4) ok r up sr start, of 0]
      unfolding fsm_search_def FSM_ROOT_ADDRESS_def by auto
    moreover from this have "b' < InvalidBlockNumber" using recorded_bounded [OF assms(1) bnd assms(4)] by blast
    ultimately have "blk < InvalidBlockNumber" using s(1) by (simp add: InvalidBlockNumber_def)
    then show ?thesis using s block rec True by (auto simp: search_result_def)
  next
    case False
    then show ?thesis using s block rec by (auto simp: search_result_def)
  qed
qed

section \<open>What the free space map promises\<close>

text \<open>
  C35: Rounding is on the safe side: a page whose recorded category satisfies a request has the space,
  the amount read back never exceeds what was recorded, and a page with the largest amount that can be
  requested satisfies every request. A request is refused exactly when it exceeds that amount.
\<close>

theorem fsm_categories_safe:
  assumes "blcksz_ok B"
  shows "fsm_space_cat_to_avail B (fsm_space_avail_to_cat B avail) \<le> avail \<and>
    (case fsm_space_needed_to_cat B needed of
       Inl e \<Rightarrow> e = ERROR ''invalid FSM request size'' \<and> MaxFSMRequestSize B < needed
     | Inr c \<Rightarrow> 0 < c \<and> needed \<le> MaxFSMRequestSize B \<and>
         (c \<le> fsm_space_avail_to_cat B avail \<longrightarrow> needed \<le> avail) \<and>
         (MaxFSMRequestSize B \<le> avail \<longrightarrow> c \<le> fsm_space_avail_to_cat B avail))"
proof (cases "needed \<le> MaxFSMRequestSize B")
  case True
  obtain c where c: "fsm_space_needed_to_cat B needed = Inr c" "0 < c" using needed_cat [OF assms True] .
  have "uint c < 2 ^ 8" using unsigned_less [of c] by simp
  then have "c \<le> 255" by (simp add: word_le_def)
  then show ?thesis
    using c True keep_le [OF assms] cat_enough [OF assms c(1)] by (simp add: fsm_space_avail_to_cat_def)
next
  case False
  then show ?thesis using keep_le [OF assms] by (simp add: fsm_space_needed_to_cat_def)
qed

theorem fsm_categories_safe_witness:
  "blcksz_ok 8192 \<and> fsm_space_needed_to_cat 8192 100 = Inr 4 \<and> fsm_space_avail_to_cat 8192 130 = 4 \<and>
   fsm_space_cat_to_avail 8192 (fsm_space_avail_to_cat 8192 130) \<le> 130"
proof -
  have B: "blcksz_ok 8192" by (simp add: blcksz_ok_def)
  show ?thesis using fsm_categories_safe [OF B, of 130 100] B categories_8192 by simp
qed

text \<open>
  C34: The logical addresses fit together. The location of a heap block leads back to the block, a child's
  parent is the page and slot it came from, and two pages of the map never share a physical block. For
  every heap block, the intermediate values and the physical blocks of all the pages above it stay
  far below the limits of \<open>int\<close> and \<open>BlockNumber\<close>.
\<close>

theorem fsm_addressing:
  assumes "blcksz_ok B"
  shows "(heapblk < 2 ^ 32 \<longrightarrow> (let (addr, slot) = fsm_get_location B heapblk in
      fsm_get_heap_blk B addr slot = heapblk \<and> slot < SlotsPerFSMPage B)) \<and>
    (0 < level a \<and> slot < SlotsPerFSMPage B \<longrightarrow> fsm_get_parent B (fsm_get_child B a slot) = (a, slot)) \<and>
    (level a < FSM_TREE_DEPTH B \<and> level b < FSM_TREE_DEPTH B \<and>
       fsm_logical_to_physical B a = fsm_logical_to_physical B b \<longrightarrow> a = b) \<and>
    (heapblk < 2 ^ 32 \<and> l < FSM_TREE_DEPTH B \<longrightarrow>
      (let addr = fst (fsm_location_at B l heapblk) in
       logpageno addr * SlotsPerFSMPage B ^ l < 2 ^ 31 \<and> fsm_logical_to_physical B addr < 2 ^ 26))"
proof -
  note z = fsm_sizes [OF assms]
  have "heapblk div SlotsPerFSMPage B \<le> heapblk div 485" using z(1) by (intro div_le_mono2) simp_all
  moreover have "heapblk < 2 ^ 32 \<Longrightarrow> heapblk div 485 < 2 ^ 31" by simp
  ultimately have "heapblk < 2 ^ 32 \<Longrightarrow> heapblk div SlotsPerFSMPage B < 2 ^ 31" by linarith
  then show ?thesis
    using physical_inj [OF assms, of a b] physical_bound [OF assms, of l heapblk] z(1)
    by (auto simp: location fsm_get_heap_blk_def fsm_get_parent_def fsm_get_child_def Let_def)
qed

theorem fsm_addressing_witness:
  "blcksz_ok 8192 \<and> fsm_get_location 8192 100000 = (\<lparr>level = 0, logpageno = 24\<rparr>, 2344) \<and>
   fsm_get_heap_blk 8192 \<lparr>level = 0, logpageno = 24\<rparr> 2344 = 100000 \<and>
   fsm_get_parent 8192 (fsm_get_child 8192 \<lparr>level = 1, logpageno = 0\<rparr> 24) = (\<lparr>level = 1, logpageno = 0\<rparr>, 24)"
proof -
  have B: "blcksz_ok 8192" by (simp add: blcksz_ok_def)
  have l: "fsm_get_location 8192 100000 = (\<lparr>level = 0, logpageno = 24\<rparr>, 2344)" "24 < SlotsPerFSMPage 8192"
    by (simp_all add: location slots_8192)
  then show ?thesis
    using fsm_addressing [OF B, of 100000 "\<lparr>level = 1, logpageno = 0\<rparr>" 24] B by (auto simp: Let_def)
qed

text \<open>
  C29: Whatever has been recorded, in normal operation or in WAL replay, which leave the same map, reading a
  block's free space returns what was recorded last for that block, rounded down to its category, and
  what the map held before where nothing was recorded.
\<close>

theorem recorded_space_history:
  assumes "blcksz_ok B" "fork_ok B rel"
  shows "GetRecordedFreeSpace B (fold (\<lambda>(b, a) f. the (RecordPageWithFreeSpace B f b a)) h rel) b =
      (case map_of (rev h) b of
         None \<Rightarrow> GetRecordedFreeSpace B rel b
       | Some a \<Rightarrow> fsm_space_cat_to_avail B (fsm_space_avail_to_cat B a)) \<and>
    fork_ok B (fold (\<lambda>(b, a) f. the (RecordPageWithFreeSpace B f b a)) h rel) \<and>
    RecordPageWithFreeSpace B rel b a = Some (XLogRecordPageWithFreeSpace B rel b a)"
  using normal.lookup_history [of B rel h b] normal.store_all_inv [of B rel h] record_facts(1) [OF assms] assms by simp

theorem recorded_space_history_witness:
  "blcksz_ok 8192 \<and> fork_ok 8192 [] \<and>
   GetRecordedFreeSpace 8192 (fold (\<lambda>(b, a) f. the (RecordPageWithFreeSpace 8192 f b a))
     [(9, 500), (100000, 4000), (9, 100)] []) 9 = 96"
proof -
  have B: "blcksz_ok 8192" "fork_ok 8192 []" by (simp_all add: blcksz_ok_def fork_ok_def)
  show ?thesis
    using recorded_space_history [OF B, where h = "[(9, 500), (100000, 4000), (9, 100)]" and b = 9 and a = 0] B categories_8192 by simp
qed

text \<open>
  C28: Both ways to ask for a page return, for every map whose pages have their full size, whatever
  its nodes and search hints hold: the number of restarts is bounded.  They return
  \<open>InvalidBlockNumber\<close>, or the block of a slot that has the category the request needs; the block number
  of the slot is reduced to 32 bits.  In a map that holds nothing for block numbers no relation can
  have (\<open>map_bounded\<close>, which recording keeps), the block returned is a valid block number whose
  recorded category is large enough, so that a block whose space was recorded truthfully has room for
  the request.  Searching changes nothing that was recorded; the combined form also records the old
  page's space.
\<close>

theorem free_page_has_space:
  assumes "blcksz_ok B" "fork_ok B rel" "fsm_space_needed_to_cat B needed = Inr c"
  shows "(\<exists>blk rel'. GetPageWithFreeSpace B rel needed = Inr (Some (blk, rel')) \<and> fork_ok B rel' \<and>
      (\<forall>b. recorded B rel' b = recorded B rel b) \<and>
      (blk = InvalidBlockNumber \<or> (\<exists>b. blk = b mod 2 ^ 32 \<and> c \<le> recorded B rel b)) \<and>
      (map_bounded B rel \<longrightarrow>
         blk = InvalidBlockNumber \<or> blk < InvalidBlockNumber \<and> c \<le> recorded B rel blk)) \<and>
    (\<exists>blk rel'. RecordAndGetPageWithFreeSpace B rel old avail needed = Inr (Some (blk, rel')) \<and> fork_ok B rel' \<and>
      (\<forall>b. recorded B rel' b = (if b = old then fsm_space_avail_to_cat B avail else recorded B rel b)) \<and>
      (blk = InvalidBlockNumber \<or> (\<exists>b. blk = b mod 2 ^ 32 \<and> c \<le> recorded B rel' b)) \<and>
      (map_bounded B rel \<and> old < InvalidBlockNumber \<longrightarrow>
         blk = InvalidBlockNumber \<or> blk < InvalidBlockNumber \<and> c \<le> recorded B rel' blk))"
proof -
  have pos: "0 < c"
    using needed_cat_pos [OF assms(1,3)] .
  obtain blk rel' where g: "fsm_search B rel c = Some (blk, rel')" "search_result B rel c blk rel'"
    using fsm_search_total [OF assms(1) pos assms(2)] by blast
  obtain blk2 rel2 where r: "RecordAndGetPageWithFreeSpace B rel old avail needed = Inr (Some (blk2, rel2))"
      "search_result B (XLogRecordPageWithFreeSpace B rel old avail) c blk2 rel2"
    using record_and_get [OF assms(1) pos assms(2,3)] by blast
  note b = search_result_block [OF assms(1) _ pos g(2)]
  note b2 = search_result_block [OF assms(1) record_bounded [OF assms(1,2)] pos r(2)]
  have "\<exists>blk rel'. GetPageWithFreeSpace B rel needed = Inr (Some (blk, rel')) \<and> fork_ok B rel' \<and>
      (\<forall>b. recorded B rel' b = recorded B rel b) \<and>
      (blk = InvalidBlockNumber \<or> (\<exists>b. blk = b mod 2 ^ 32 \<and> c \<le> recorded B rel b)) \<and>
      (map_bounded B rel \<longrightarrow>
         blk = InvalidBlockNumber \<or> blk < InvalidBlockNumber \<and> c \<le> recorded B rel blk)"
    using g b assms(3) by (auto simp: GetPageWithFreeSpace_def search_result_def)
  moreover have "RecordAndGetPageWithFreeSpace B rel old avail needed = Inr (Some (blk2, rel2)) \<and> fork_ok B rel2 \<and>
      (\<forall>b. recorded B rel2 b = (if b = old then fsm_space_avail_to_cat B avail else recorded B rel b)) \<and>
      (blk2 = InvalidBlockNumber \<or> (\<exists>b. blk2 = b mod 2 ^ 32 \<and> c \<le> recorded B rel2 b)) \<and>
      (map_bounded B rel \<and> old < InvalidBlockNumber \<longrightarrow>
         blk2 = InvalidBlockNumber \<or> blk2 < InvalidBlockNumber \<and> c \<le> recorded B rel2 blk2)"
    using r b2 record_facts(5) [OF assms(1,2)] by (simp add: search_result_def)
  ultimately show ?thesis by blast
qed

theorem free_page_has_space_witness:
  "let rel = XLogRecordPageWithFreeSpace 8192 [] 7 4000 in
   blcksz_ok 8192 \<and> fork_ok 8192 rel \<and> map_bounded 8192 rel \<and> fsm_space_needed_to_cat 8192 100 = Inr 4 \<and>
   (\<exists>blk rel'. GetPageWithFreeSpace 8192 rel 100 = Inr (Some (blk, rel')) \<and>
     (blk = InvalidBlockNumber \<or> blk < InvalidBlockNumber \<and> 4 \<le> recorded 8192 rel blk))"
proof -
  let ?rel = "XLogRecordPageWithFreeSpace 8192 [] 7 4000"
  have B: "blcksz_ok 8192" "(7::nat) < InvalidBlockNumber" by (simp_all add: blcksz_ok_def InvalidBlockNumber_def)
  have h: "fork_ok 8192 ?rel" "map_bounded 8192 ?rel"
    using record_facts(2) [OF B(1) empty_fork(1)] record_bounded [OF B(1) empty_fork(1,3) B(2)] by blast+
  note c = categories_8192(1)
  show ?thesis unfolding Let_def using free_page_has_space [OF B(1) h(1) c, of 7 0] B(1) h c by blast
qed

text \<open>
  C27: After \<open>FreeSpaceMapVacuum\<close> the map is exact: asking for a page returns a block whose recorded
  category is large enough exactly when there is one, and \<open>InvalidBlockNumber\<close> otherwise. Neither the
  vacuum nor the search changes what is recorded for a block.
\<close>

theorem vacuum_makes_search_exact:
  assumes "blcksz_ok B" "fork_consistent B rel" "map_bounded B rel" "fsm_space_needed_to_cat B needed = Inr c"
  shows "\<exists>blk rel'. GetPageWithFreeSpace B (FreeSpaceMapVacuum B rel) needed = Inr (Some (blk, rel')) \<and>
    (\<forall>b. recorded B rel' b = recorded B rel b) \<and>
    (if \<exists>b. c \<le> recorded B rel b then blk < InvalidBlockNumber \<and> c \<le> recorded B rel blk
     else blk = InvalidBlockNumber)"
  using vacuum_then_search [OF assms(1-3) needed_cat_pos [OF assms(1,4)]] assms(4)
  by (simp add: GetPageWithFreeSpace_def)

theorem vacuum_makes_search_exact_witness:
  "let rel = XLogRecordPageWithFreeSpace 8192 [] 100000 4000 in
   blcksz_ok 8192 \<and> fork_consistent 8192 rel \<and> map_bounded 8192 rel \<and>
   (\<exists>rel'. GetPageWithFreeSpace 8192 (FreeSpaceMapVacuum 8192 rel) 100 = Inr (Some (100000, rel')))"
proof -
  let ?rel = "XLogRecordPageWithFreeSpace 8192 [] 100000 4000"
  have B: "blcksz_ok 8192" "(100000::nat) < InvalidBlockNumber" by (simp_all add: blcksz_ok_def InvalidBlockNumber_def)
  have h: "fork_consistent 8192 ?rel" "map_bounded 8192 ?rel"
    using record_facts(3) [OF B(1) empty_fork(1,2)] record_bounded [OF B(1) empty_fork(1,3) B(2)] by blast+
  have c: "fsm_space_needed_to_cat 8192 100 = Inr 4" "(4::uint8) \<le> fsm_space_avail_to_cat 8192 4000"
    by (simp_all add: categories_8192)
  have rec: "recorded 8192 ?rel b = (if b = 100000 then fsm_space_avail_to_cat 8192 4000 else 0)" for b
    using record_facts(5) [OF B(1) empty_fork(1)] empty_fork(4) by simp
  then have "\<exists>b. 4 \<le> recorded 8192 ?rel b" and only: "4 \<le> recorded 8192 ?rel b \<Longrightarrow> b = 100000" for b
    using c(2) by (auto split: if_splits)
  then obtain blk rel' where "GetPageWithFreeSpace 8192 (FreeSpaceMapVacuum 8192 ?rel) 100 = Inr (Some (blk, rel'))"
      "4 \<le> recorded 8192 ?rel blk"
    using vacuum_makes_search_exact [OF B(1) h c(1)] by auto
  then show ?thesis using only B(1) h unfolding Let_def by blast
qed

lemma page_blk_bottom_less:
  assumes "blcksz_ok B"
  shows "page_blk B 0 p < page_blk B 0 p' \<longleftrightarrow> p < p'"
proof -
  have d: "0 < FSM_TREE_DEPTH B" using fsm_sizes(4) [OF assms] by simp
  show ?thesis
    using physical_less [OF d d, of p p'] physical_less [OF d d, of p' p]
    by (cases p p' rule: linorder_cases) (auto simp: page_blk_def)
qed

lemma recorded_take:
  "recorded B (take n rel) b = (if page_blk B 0 (b div SlotsPerFSMPage B) < n then recorded B rel b else 0)"
  by (simp add: recorded_def slot_val_def)

lemma block_less_iff:
  fixes S :: nat
  assumes "0 < S"
  shows "b < n \<longleftrightarrow> b div S < n div S \<or> b div S = n div S \<and> b mod S < n mod S"
proof (cases "b div S" "n div S" rule: linorder_cases)
  case less
  then show ?thesis using div_le_mono [of n b S] by (auto simp: not_le [symmetric])
next
  case equal
  then show ?thesis using div_mult_mod_eq [of b S] div_mult_mod_eq [of n S] by (metis add_less_cancel_left less_irrefl)
next
  case greater
  then have "\<not> b \<le> n" using div_le_mono [of b n S] by auto
  then show ?thesis using greater by simp
qed

text \<open>
  C33: Truncating the map. When the heap shrinks to \<open>nblocks\<close> blocks and the fork is cut to the length
  \<open>FreeSpaceMapPrepareTruncateRel\<close> returns, or left alone when that is \<open>InvalidBlockNumber\<close>, the map
  has forgotten the blocks from \<open>nblocks\<close> on and nothing else.
\<close>

theorem fsm_truncation:
  assumes "blcksz_ok B" "fork_ok B rel" "nblocks < 2 ^ 32"
  shows "\<exists>n rel'. FreeSpaceMapPrepareTruncateRel B (Some rel) nblocks = (n, Some rel') \<and> fork_ok B rel' \<and>
    (\<forall>b. recorded B (if n = InvalidBlockNumber then rel' else take n rel') b =
       (if b < nblocks then recorded B rel b else 0))"
proof -
  let ?S = "SlotsPerFSMPage B"
  let ?q = "nblocks div ?S" and ?s = "nblocks mod ?S"
  let ?blk = "page_blk B 0 ?q"
  note z = fsm_sizes [OF assms(1)]
  have d: "0 < FSM_TREE_DEPTH B" and S: "0 < ?S" "?s < ?S" using z by simp_all
  have small: "?blk < 2 ^ 26"
    using physical_bound(2) [OF assms(1) d assms(3)] by (simp add: location_at page_blk_def)
  have inv: "?blk + 1 \<noteq> InvalidBlockNumber" "?blk \<noteq> InvalidBlockNumber" using small by (simp_all add: InvalidBlockNumber_def)
  note iff = block_less_iff [OF S(1), of _ nblocks]
  have le: "page_blk B 0 p \<le> ?blk \<longleftrightarrow> p \<le> ?q" for p using page_blk_bottom_less [OF assms(1), of ?q p] by (simp add: not_less [symmetric])
  show ?thesis
  proof (cases "?blk < length rel")
    case False
    have "recorded B rel b = 0" if "\<not> b < nblocks" for b
    proof -
      have "?q \<le> b div ?S" using that by (intro div_le_mono) simp
      then have "?blk \<le> page_blk B 0 (b div ?S)"
        using page_blk_bottom_less [OF assms(1), of "b div ?S" ?q] by (simp add: not_less [symmetric])
      then show ?thesis using False by (simp add: recorded_def slot_val_def)
    qed
    moreover have "FreeSpaceMapPrepareTruncateRel B (Some rel) nblocks = (InvalidBlockNumber, Some rel)"
      using False by (auto simp: FreeSpaceMapPrepareTruncateRel_def location readbuf_read page_blk_def Let_def)
    ultimately show ?thesis using assms(2) by auto
  next
    case True
    show ?thesis
    proof (cases "?s > 0")
      case pos: True
      define page where "page = snd (fsm_truncate_avail B (rel ! ?blk) ?s)"
      have sh: "fsm_shape B (rel ! ?blk)" using assms(2) True by (simp add: fork_ok_def)
      note t = fsm_truncate_avail_correct [OF blcksz_ok_fsm [OF assms(1)] sh, of ?s, folded page_def SlotsPerFSMPage_def]
      have run: "FreeSpaceMapPrepareTruncateRel B (Some rel) nblocks = (?blk + 1, Some (rel[?blk := page]))"
        using True pos by (simp add: FreeSpaceMapPrepareTruncateRel_def location readbuf_read page_blk_def Let_def page_def)
      have "recorded B (take (?blk + 1) (rel[?blk := page])) b = (if b < nblocks then recorded B rel b else 0)" for b
      proof -
        have r: "recorded B (rel[?blk := page]) b = (if b div ?S = ?q then fsm_get_avail B page (b mod ?S) else recorded B rel b)"
          unfolding recorded_def using fork_update [OF True assms(1) d d] by simp
        have "fsm_get_avail B page (b mod ?S) = (if ?s \<le> b mod ?S then 0 else fsm_get_avail B (rel ! ?blk) (b mod ?S))"
          using t(2) S by simp
        moreover have "b div ?S = ?q \<Longrightarrow> recorded B rel b = fsm_get_avail B (rel ! ?blk) (b mod ?S)"
          using True by (simp add: recorded_def slot_val_def)
        ultimately show ?thesis
          unfolding recorded_take r iff using le [of "b div ?S"] by (auto simp: less_Suc_eq_le)
      qed
      then show ?thesis using run inv(1) fork_ok_update [OF assms(2) t(1)] S by auto
    next
      case zero: False
      have run: "FreeSpaceMapPrepareTruncateRel B (Some rel) nblocks = (?blk, Some rel)"
        using True zero by (simp add: FreeSpaceMapPrepareTruncateRel_def location readbuf_read page_blk_def Let_def)
      have "recorded B (take ?blk rel) b = (if b < nblocks then recorded B rel b else 0)" for b
        unfolding recorded_take iff page_blk_bottom_less [OF assms(1)] using zero by simp
      then show ?thesis using run inv(2) assms(2) by auto
    qed
  qed
qed

theorem fsm_truncation_witness:
  "let rel = XLogRecordPageWithFreeSpace 8192 [] 100000 4000 in
   blcksz_ok 8192 \<and> fork_ok 8192 rel \<and>
   (\<exists>n rel'. FreeSpaceMapPrepareTruncateRel 8192 (Some rel) 50000 = (n, Some rel') \<and>
     recorded 8192 (if n = InvalidBlockNumber then rel' else take n rel') 100000 = 0 \<and> recorded 8192 rel 100000 = 125)"
proof -
  let ?rel = "XLogRecordPageWithFreeSpace 8192 [] 100000 4000"
  have B: "blcksz_ok 8192" "(50000::nat) < 2 ^ 32" by (simp_all add: blcksz_ok_def)
  have h: "fork_ok 8192 ?rel" "recorded 8192 ?rel 100000 = 125"
    using record_facts(2,5) [OF B(1) empty_fork(1)] categories_8192(5) by simp_all
  then show ?thesis using fsm_truncation [OF B(1) h(1) B(2)] B(1) unfolding Let_def by fastforce
qed

end
