(* ===== verification/Encode.thy ===== *)
theory Encode
  imports Prelude
begin

text \<open>
  The conversions of binary data to text, \<open>src/backend/utils/adt/encode.c\<close>, behind the SQL functions
  \<open>encode\<close> and \<open>decode\<close>: hexadecimal, base64 and escape, each with its estimate of the length of its
  output.  A conversion is a function from the bytes it reads to the bytes it writes; lengths are
  natural numbers, since a value is below one gigabyte and no length computed from it comes near
  \<open>2^64\<close>.  The locale \<open>codec\<close> states the contract of an entry of \<open>enclist\<close>; it is interpreted on the
  three entries, and the properties follow for whatever entry the name selects.  The comparison of names,
  \<open>src/port/pgstrcasecmp.c\<close>, depends on the \<open>isupper\<close> and \<open>tolower\<close> of the C library for letters above
  127, which are a parameter.
\<close>

unbundle bit_operations_syntax

section \<open>Bytes and tables\<close>

text \<open>Strings of the source as bytes; \<open>char\<close> is taken as unsigned.\<close>

definition bytes_of :: "string \<Rightarrow> uint8 list" where
  "bytes_of s = map of_char s"

definition is_space :: "uint8 \<Rightarrow> bool" where
  "is_space c \<longleftrightarrow> c = 32 \<or> c = 10 \<or> c = 9 \<or> c = 13"

definition IS_HIGHBIT_SET :: "uint8 \<Rightarrow> bool" where
  "IS_HIGHBIT_SET c \<longleftrightarrow> c AND 0x80 \<noteq> 0"

section \<open>Hexadecimal\<close>

definition hextbl :: "uint8 list" where
  "hextbl = bytes_of ''0123456789abcdef''"

definition hexlookup :: "int list" where
  "hexlookup =
    [-1, -1, -1, -1, -1, -1, -1, -1, -1, -1, -1, -1, -1, -1, -1, -1,
     -1, -1, -1, -1, -1, -1, -1, -1, -1, -1, -1, -1, -1, -1, -1, -1,
     -1, -1, -1, -1, -1, -1, -1, -1, -1, -1, -1, -1, -1, -1, -1, -1,
     0, 1, 2, 3, 4, 5, 6, 7, 8, 9, -1, -1, -1, -1, -1, -1,
     -1, 10, 11, 12, 13, 14, 15, -1, -1, -1, -1, -1, -1, -1, -1, -1,
     -1, -1, -1, -1, -1, -1, -1, -1, -1, -1, -1, -1, -1, -1, -1, -1,
     -1, 10, 11, 12, 13, 14, 15, -1, -1, -1, -1, -1, -1, -1, -1, -1,
     -1, -1, -1, -1, -1, -1, -1, -1, -1, -1, -1, -1, -1, -1, -1, -1]"

fun hex_encode :: "uint8 list \<Rightarrow> uint8 list" where
  "hex_encode [] = []"
| "hex_encode (c # src) = hextbl ! unat (drop_bit 4 c AND 0xF) # hextbl ! unat (c AND 0xF) # hex_encode src"

definition get_hex :: "uint8 \<Rightarrow> uint8 option" where
  "get_hex c = (let res = (if c < 127 then hexlookup ! unat c else -1)
     in if res \<ge> 0 then Some (of_int res) else None)"

fun hex_decode :: "uint8 list \<Rightarrow> uint8 list result" where
  "hex_decode [] = Inr []"
| "hex_decode (c # s) =
     (if is_space c then hex_decode s
      else case get_hex c of
        None \<Rightarrow> Inl (ERROR ''invalid hexadecimal digit'')
      | Some v1 \<Rightarrow>
          (case s of
             [] \<Rightarrow> Inl (ERROR ''invalid hexadecimal data: odd number of digits'')
           | c2 # s \<Rightarrow>
               (case get_hex c2 of
                  None \<Rightarrow> Inl (ERROR ''invalid hexadecimal digit'')
                | Some v2 \<Rightarrow> map_sum id ((#) (push_bit 4 v1 OR v2)) (hex_decode s))))"

definition hex_enc_len :: "uint8 list \<Rightarrow> nat result" where
  "hex_enc_len src = Inr (length src * 2)"

definition hex_dec_len :: "uint8 list \<Rightarrow> nat result" where
  "hex_dec_len src = Inr (length src div 2)"

section \<open>Base64\<close>

definition base64_tbl :: "uint8 list" where
  "base64_tbl = bytes_of ''ABCDEFGHIJKLMNOPQRSTUVWXYZabcdefghijklmnopqrstuvwxyz0123456789+/''"

definition b64lookup :: "int list" where
  "b64lookup =
    [-1, -1, -1, -1, -1, -1, -1, -1, -1, -1, -1, -1, -1, -1, -1, -1,
     -1, -1, -1, -1, -1, -1, -1, -1, -1, -1, -1, -1, -1, -1, -1, -1,
     -1, -1, -1, -1, -1, -1, -1, -1, -1, -1, -1, 62, -1, -1, -1, 63,
     52, 53, 54, 55, 56, 57, 58, 59, 60, 61, -1, -1, -1, -1, -1, -1,
     -1, 0, 1, 2, 3, 4, 5, 6, 7, 8, 9, 10, 11, 12, 13, 14,
     15, 16, 17, 18, 19, 20, 21, 22, 23, 24, 25, -1, -1, -1, -1, -1,
     -1, 26, 27, 28, 29, 30, 31, 32, 33, 34, 35, 36, 37, 38, 39, 40,
     41, 42, 43, 44, 45, 46, 47, 48, 49, 50, 51, -1, -1, -1, -1, -1]"

definition b64 :: "uint32 \<Rightarrow> nat \<Rightarrow> uint8" where
  "b64 buf n = base64_tbl ! unat (drop_bit n buf AND 0x3f)"

text \<open>
  The loop of \<open>pg_base64_encode\<close>. \<open>out\<close> is what has been written, so that \<open>p\<close> is its length; the
  result is the state after the loop.
\<close>

fun base64_encode_loop :: "uint8 list \<Rightarrow> int \<Rightarrow> uint32 \<Rightarrow> nat \<Rightarrow> uint8 list \<Rightarrow> int \<times> uint32 \<times> uint8 list" where
  "base64_encode_loop [] pos buf lend out = (pos, buf, out)"
| "base64_encode_loop (c # s) pos buf lend out =
     (let buf = buf OR push_bit (nat pos * 8) (ucast c); pos = pos - 1;
          (pos, buf, out) = (if pos < 0 then (2, 0, out @ [b64 buf 18, b64 buf 12, b64 buf 6, b64 buf 0])
                             else (pos, buf, out));
          (lend, out) = (if length out \<ge> lend then (length out + 1 + 76, out @ [10]) else (lend, out))
      in base64_encode_loop s pos buf lend out)"

definition pg_base64_encode :: "uint8 list \<Rightarrow> uint8 list" where
  "pg_base64_encode src =
     (let (pos, buf, out) = base64_encode_loop src 2 0 76 []
      in if pos \<noteq> 2 then out @ [b64 buf 18, b64 buf 12, if pos = 0 then b64 buf 6 else 61, 61] else out)"

text \<open>
  The loop of \<open>pg_base64_decode\<close>: \<open>end\<close> is \<open>e\<close>.  The value of a symbol is \<open>None\<close> when it is
  invalid; bytes above 126 fail the test on \<open>c\<close> whether \<open>char\<close> is signed or not.
\<close>

definition b64_value :: "uint8 \<Rightarrow> uint32 option" where
  "b64_value c = (let b = (if c > 0 \<and> c < 127 then b64lookup ! unat c else -1)
     in if b < 0 then None else Some (of_int b))"

definition base64_flush :: "uint32 \<Rightarrow> nat \<Rightarrow> uint8 list" where
  "base64_flush buf e =
     ucast (drop_bit 16 buf AND 255) #
     (if e = 0 \<or> e > 1 then [ucast (drop_bit 8 buf AND 255)] else []) @
     (if e = 0 \<or> e > 2 then [ucast (buf AND 255)] else [])"

text \<open>The value of a symbol and the new \<open>end\<close>.\<close>

definition base64_symbol :: "uint8 \<Rightarrow> nat \<Rightarrow> nat \<Rightarrow> (uint32 \<times> nat) result" where
  "base64_symbol c pos e =
     (if c = 61
      then if e = 0
           then if pos = 2 then Inr (0, 1) else if pos = 3 then Inr (0, 2)
                else Inl (ERROR ''unexpected \"=\" while decoding base64 sequence'')
           else Inr (0, e)
      else case b64_value c of
             None \<Rightarrow> Inl (ERROR ''invalid symbol found while decoding base64 sequence'')
           | Some b \<Rightarrow> Inr (b, e))"

fun base64_decode_loop :: "uint8 list \<Rightarrow> uint32 \<Rightarrow> nat \<Rightarrow> nat \<Rightarrow> uint8 list \<Rightarrow> (nat \<times> uint8 list) result" where
  "base64_decode_loop [] buf pos e out = Inr (pos, out)"
| "base64_decode_loop (c # s) buf pos e out =
     (if is_space c then base64_decode_loop s buf pos e out
      else
        case base64_symbol c pos e of
          Inl err \<Rightarrow> Inl err
        | Inr (b, e) \<Rightarrow>
            let buf = push_bit 6 buf + b; pos = pos + 1 in
            if pos = 4 then base64_decode_loop s 0 0 e (out @ base64_flush buf e)
            else base64_decode_loop s buf pos e out)"

definition pg_base64_decode :: "uint8 list \<Rightarrow> uint8 list result" where
  "pg_base64_decode src =
     (case base64_decode_loop src 0 0 0 [] of
        Inl err \<Rightarrow> Inl err
      | Inr (pos, out) \<Rightarrow> if pos \<noteq> 0 then Inl (ERROR ''invalid base64 end sequence'') else Inr out)"

definition pg_base64_enc_len :: "uint8 list \<Rightarrow> nat result" where
  "pg_base64_enc_len src = Inr ((length src + 2) div 3 * 4 + length src div (76 * 3 div 4))"

definition pg_base64_dec_len :: "uint8 list \<Rightarrow> nat result" where
  "pg_base64_dec_len src = Inr (length src * 3 div 4)"

section \<open>Escape\<close>

fun esc_encode :: "uint8 list \<Rightarrow> uint8 list" where
  "esc_encode [] = []"
| "esc_encode (c # src) =
     (if c = 0 \<or> IS_HIGHBIT_SET c
      then 92 # (drop_bit 6 c + 48) # ((drop_bit 3 c AND 7) + 48) # ((c AND 7) + 48) # esc_encode src
      else if c = 92 then 92 # 92 # esc_encode src
      else c # esc_encode src)"

text \<open>A backslash and three octal digits, and what follows.\<close>

definition octal :: "uint8 list \<Rightarrow> bool" where
  "octal src \<longleftrightarrow> 3 < length src \<and> 48 \<le> src ! 1 \<and> src ! 1 \<le> 51 \<and> 48 \<le> src ! 2 \<and> src ! 2 \<le> 55 \<and>
     48 \<le> src ! 3 \<and> src ! 3 \<le> 55"

function esc_decode :: "uint8 list \<Rightarrow> uint8 list result" where
  "esc_decode src =
     (if src = [] then Inr []
      else if src ! 0 \<noteq> 92 then map_sum id ((#) (src ! 0)) (esc_decode (drop 1 src))
      else if octal src then
        map_sum id ((#) (push_bit 3 (push_bit 3 (src ! 1 - 48) + (src ! 2 - 48)) + (src ! 3 - 48)))
          (esc_decode (drop 4 src))
      else if 1 < length src \<and> src ! 1 = 92 then map_sum id ((#) 92) (esc_decode (drop 2 src))
      else Inl (ERROR ''invalid input syntax for type bytea''))"
  by pat_completeness auto
termination
  by (relation "measure length") auto

fun esc_enc_len_loop :: "uint8 list \<Rightarrow> nat" where
  "esc_enc_len_loop [] = 0"
| "esc_enc_len_loop (c # src) =
     (if c = 0 \<or> IS_HIGHBIT_SET c then 4 else if c = 92 then 2 else 1) + esc_enc_len_loop src"

definition esc_enc_len :: "uint8 list \<Rightarrow> nat result" where
  "esc_enc_len src = Inr (esc_enc_len_loop src)"

function esc_dec_len :: "uint8 list \<Rightarrow> nat result" where
  "esc_dec_len src =
     (if src = [] then Inr 0
      else if src ! 0 \<noteq> 92 then map_sum id Suc (esc_dec_len (drop 1 src))
      else if octal src then map_sum id Suc (esc_dec_len (drop 4 src))
      else if 1 < length src \<and> src ! 1 = 92 then map_sum id Suc (esc_dec_len (drop 2 src))
      else Inl (ERROR ''invalid input syntax for type bytea''))"
  by pat_completeness auto
termination
  by (relation "measure length") auto

declare esc_decode.simps [simp del] esc_dec_len.simps [simp del]

section \<open>The SQL functions\<close>

record pg_encoding =
  encode_len :: "uint8 list \<Rightarrow> nat result"
  decode_len :: "uint8 list \<Rightarrow> nat result"
  encode :: "uint8 list \<Rightarrow> uint8 list"
  decode :: "uint8 list \<Rightarrow> uint8 list result"

definition hex_encoding :: pg_encoding where
  "hex_encoding =
     \<lparr>encode_len = hex_enc_len, decode_len = hex_dec_len, encode = hex_encode, decode = hex_decode\<rparr>"

definition base64_encoding :: pg_encoding where
  "base64_encoding =
     \<lparr>encode_len = pg_base64_enc_len, decode_len = pg_base64_dec_len,
      encode = pg_base64_encode, decode = pg_base64_decode\<rparr>"

definition escape_encoding :: pg_encoding where
  "escape_encoding =
     \<lparr>encode_len = esc_enc_len, decode_len = esc_dec_len, encode = esc_encode, decode = esc_decode\<rparr>"

definition enclist :: "(string \<times> pg_encoding) list" where
  "enclist = [(''hex'', hex_encoding), (''base64'', base64_encoding), (''escape'', escape_encoding)]"

text \<open>
  \<open>pg_strcasecmp\<close> of \<open>src/port/pgstrcasecmp.c\<close>, on strings without their final zero byte.  \<open>lower\<close> is what
  \<open>tolower\<close> of the locale makes of an upper-case letter above 127.
\<close>

definition fold_case :: "(uint8 \<Rightarrow> uint8) \<Rightarrow> uint8 \<Rightarrow> uint8" where
  "fold_case lower ch = (if 65 \<le> ch \<and> ch \<le> 90 then ch + 32 else if IS_HIGHBIT_SET ch then lower ch else ch)"

fun pg_strcasecmp :: "(uint8 \<Rightarrow> uint8) \<Rightarrow> uint8 list \<Rightarrow> uint8 list \<Rightarrow> int" where
  "pg_strcasecmp lower [] [] = 0"
| "pg_strcasecmp lower [] (b # bs) = 0 - uint (fold_case lower b)"
| "pg_strcasecmp lower (a # as) [] = uint (fold_case lower a)"
| "pg_strcasecmp lower (a # as) (b # bs) =
     (let (ch1, ch2) = (if a \<noteq> b then (fold_case lower a, fold_case lower b) else (a, b)) in
      if ch1 \<noteq> ch2 then uint ch1 - uint ch2 else if ch1 = 0 then 0 else pg_strcasecmp lower as bs)"

definition pg_find_encoding :: "(uint8 \<Rightarrow> uint8) \<Rightarrow> uint8 list \<Rightarrow> pg_encoding option" where
  "pg_find_encoding lower name =
     map_option snd (find (\<lambda>(n, enc). pg_strcasecmp lower (bytes_of n) name = 0) enclist)"

definition MaxAllocSize :: nat where
  "MaxAllocSize = 0x3fffffff"

text \<open>\<open>binary_encode\<close> and \<open>binary_decode\<close> once the encoding is known.\<close>

definition encode_with :: "pg_encoding \<Rightarrow> uint8 list \<Rightarrow> uint8 list result" where
  "encode_with enc data =
     (case encode_len enc data of
        Inl e \<Rightarrow> Inl e
      | Inr resultlen \<Rightarrow>
          if resultlen > MaxAllocSize - 4 then Inl (ERROR ''result of encoding conversion is too large'')
          else let res = encode enc data in
            if length res > resultlen then Inl (FATAL ''overflow - encode estimate too small'') else Inr res)"

definition decode_with :: "pg_encoding \<Rightarrow> uint8 list \<Rightarrow> uint8 list result" where
  "decode_with enc data =
     (case decode_len enc data of
        Inl e \<Rightarrow> Inl e
      | Inr resultlen \<Rightarrow>
          if resultlen > MaxAllocSize - 4 then Inl (ERROR ''result of decoding conversion is too large'')
          else case decode enc data of
            Inl e \<Rightarrow> Inl e
          | Inr res \<Rightarrow>
              if length res > resultlen then Inl (FATAL ''overflow - decode estimate too small'') else Inr res)"

definition binary_encode :: "(uint8 \<Rightarrow> uint8) \<Rightarrow> uint8 list \<Rightarrow> uint8 list \<Rightarrow> uint8 list result" where
  "binary_encode lower data name =
     (case pg_find_encoding lower name of
        None \<Rightarrow> Inl (ERROR ''unrecognized encoding'')
      | Some enc \<Rightarrow> encode_with enc data)"

definition binary_decode :: "(uint8 \<Rightarrow> uint8) \<Rightarrow> uint8 list \<Rightarrow> uint8 list \<Rightarrow> uint8 list result" where
  "binary_decode lower data name =
     (case pg_find_encoding lower name of
        None \<Rightarrow> Inl (ERROR ''unrecognized encoding'')
      | Some enc \<Rightarrow> decode_with enc data)"

section \<open>The contract of an encoding\<close>

locale codec =
  fixes e :: pg_encoding
  assumes round_trip: "decode e (encode e xs) = Inr xs"
    and encode_estimate: "\<exists>n. encode_len e xs = Inr n \<and> length (encode e xs) \<le> n"
    and decode_estimate: "decode e ys = Inr xs \<Longrightarrow> decode_len e ys = Inr n \<Longrightarrow> length xs \<le> n"
    and decode_errors: "decode e ys = Inl err \<Longrightarrow> \<exists>m. err = ERROR m" "decode_len e ys = Inl err \<Longrightarrow> \<exists>m. err = ERROR m"
    and encoded_estimate: "encode_len e xs = Inr n \<Longrightarrow> \<exists>m \<le> n. decode_len e (encode e xs) = Inr m"
begin

lemma encode_with_result:
  "\<exists>n. encode_len e xs = Inr n \<and>
     encode_with e xs = (if n > MaxAllocSize - 4 then Inl (ERROR ''result of encoding conversion is too large'')
       else Inr (encode e xs))"
proof -
  obtain n where "encode_len e xs = Inr n" "length (encode e xs) \<le> n" using encode_estimate [of xs] by blast
  then show ?thesis by (simp add: encode_with_def Let_def)
qed

lemma encode_decode:
  assumes "encode_with e xs = Inr ys"
  shows "decode_with e ys = Inr xs"
proof -
  obtain n where n: "encode_len e xs = Inr n" "\<not> n > MaxAllocSize - 4" "ys = encode e xs"
    using encode_with_result [of xs] assms by (metis Inl_Inr_False Inr_inject)
  obtain m where m: "m \<le> n" "decode_len e ys = Inr m" using encoded_estimate [OF n(1)] n(3) by auto
  have "length xs \<le> m" using decode_estimate [OF round_trip] m(2) n(3) by blast
  then show ?thesis using m n round_trip by (simp add: decode_with_def)
qed

lemma decode_with_errors: "decode_with e ys = Inl err \<Longrightarrow> \<exists>m. err = ERROR m"
  using decode_errors(1) [of ys] decode_errors(2) [of ys]
  by (auto simp: decode_with_def dest: decode_estimate [THEN leD] split: sum.splits if_splits)

end

lemma map_sum_InrE: "map_sum id f r = Inr y \<Longrightarrow> (\<And>x. r = Inr x \<Longrightarrow> y = f x \<Longrightarrow> P) \<Longrightarrow> P"
  by (cases r) auto

lemma map_sum_InlE: "map_sum id f r = Inl e \<Longrightarrow> (r = Inl e \<Longrightarrow> P) \<Longrightarrow> P"
  by (cases r) auto

section \<open>Hexadecimal\<close>

lemma hex_digits: "n < 16 \<Longrightarrow> get_hex (hextbl ! n) = Some (of_nat n) \<and> \<not> is_space (hextbl ! n)"
proof -
  have "list_all (\<lambda>n. get_hex (hextbl ! n) = Some (of_nat n) \<and> \<not> is_space (hextbl ! n)) [0..<16]" by code_simp
  then show "n < 16 \<Longrightarrow> get_hex (hextbl ! n) = Some (of_nat n) \<and> \<not> is_space (hextbl ! n)"
    by (simp add: list_all_iff)
qed

lemma unat_and_mask: "unat (w AND 15) < 16" for w :: uint8
proof -
  have "w AND 15 = take_bit 4 w" by (simp add: take_bit_eq_mask mask_numeral)
  then show ?thesis using take_bit_nat_less_exp [of 4 "unat w"] by (simp add: unsigned_take_bit_eq)
qed

lemma hex_digit_and:
  "get_hex (hextbl ! unat (w AND 15)) = Some (w AND 15)" "\<not> is_space (hextbl ! unat (w AND 15))" for w :: uint8
  using hex_digits [OF unat_and_mask [of w]] by simp_all

lemma nibbles: "push_bit 4 (drop_bit 4 c AND 15) OR (c AND 15) = c" for c :: uint8
proof -
  have m: "(15::uint8) = mask 4" by (simp add: mask_numeral)
  show ?thesis unfolding m
    by (rule bit_word_eqI) (auto simp: bit_push_bit_iff bit_and_iff bit_or_iff bit_drop_bit_eq bit_mask_iff)
qed

lemma hex_round_trip: "hex_decode (hex_encode xs) = Inr xs"
  by (induction xs) (simp_all add: hex_digit_and nibbles [simplified])

lemma hex_decode_length: "hex_decode ys = Inr xs \<Longrightarrow> length xs \<le> length ys div 2"
proof (induction ys arbitrary: xs rule: hex_decode.induct)
  case (2 c s)
  show ?case
  proof (cases "is_space c")
    case True
    then have "length xs \<le> length s div 2" using 2 by simp
    also have "\<dots> \<le> length (c # s) div 2" by (intro div_le_mono) simp
    finally show ?thesis .
  next
    case False
    then obtain v1 c2 s2 v2 zs where s: "get_hex c = Some v1" "s = c2 # s2" "get_hex c2 = Some v2"
        "hex_decode s2 = Inr zs" "xs = (push_bit 4 v1 OR v2) # zs"
      using 2(3) by (auto split: option.splits list.splits elim!: map_sum_InrE)
    then have "length zs \<le> length s2 div 2" using 2(2) False by blast
    then show ?thesis using s by simp
  qed
qed simp

lemma hex_decode_errors: "hex_decode ys = Inl err \<Longrightarrow> \<exists>m. err = ERROR m"
proof (induction ys rule: hex_decode.induct)
  case (2 c s)
  show ?case
  proof (cases "is_space c")
    case True
    then show ?thesis using 2 by simp
  next
    case False
    then show ?thesis using 2(2) [OF False] 2(3) by (auto split: option.splits list.splits elim!: map_sum_InlE)
  qed
qed simp

lemma hex_encode_length: "length (hex_encode xs) = length xs * 2"
  by (induction xs) simp_all

section \<open>Base64\<close>

lemma b64_table:
  "length base64_tbl = 64" "list_all (\<lambda>c. \<not> is_space c \<and> c \<noteq> 61) base64_tbl"
  "map b64_value base64_tbl = map (\<lambda>n. Some (of_nat n)) [0..<64]"
  by (simp_all add: base64_tbl_def bytes_of_def is_space_def b64_value_def b64lookup_def upt_rec)

lemma b64_digits:
  assumes "n < 64"
  shows "b64_value (base64_tbl ! n) = Some (of_nat n) \<and> \<not> is_space (base64_tbl ! n) \<and> base64_tbl ! n \<noteq> 61"
proof -
  have "map b64_value base64_tbl ! n = map (\<lambda>n. Some (of_nat n)) [0..<64] ! n" by (simp only: b64_table(3))
  then show ?thesis using assms b64_table(1,2) by (simp add: list_all_length)
qed

lemma b64_symbol:
  "b64_value (b64 buf n) = Some (drop_bit n buf AND 63)" "\<not> is_space (b64 buf n)" "b64 buf n \<noteq> 61"
proof -
  have "drop_bit n buf AND 63 = take_bit 6 (drop_bit n buf)" by (simp add: take_bit_eq_mask mask_numeral)
  then have "unat (drop_bit n buf AND 63) < 64"
    using take_bit_nat_less_exp [of 6 "unat (drop_bit n buf)"] by (simp add: unsigned_take_bit_eq)
  from b64_digits [OF this] show "b64_value (b64 buf n) = Some (drop_bit n buf AND 63)"
    "\<not> is_space (b64 buf n)" "b64 buf n \<noteq> 61" by (simp_all add: b64_def)
qed

lemma mask6: "(63::uint32) = mask 6" and mask8: "(255::uint32) = mask 8"
  by (simp_all add: mask_numeral)

lemma shift_add: "push_bit 6 x + (y AND mask 6) = push_bit 6 x OR (y AND mask 6)" for x y :: uint32
  by (rule disjunctive_add) (auto simp: bit_push_bit_iff bit_and_iff bit_mask_iff)

lemmas bit_iffs = bit_push_bit_iff bit_and_iff bit_or_iff bit_drop_bit_eq bit_mask_iff

text \<open>Four symbols hold 24 bits.\<close>

definition join4 :: "uint32 \<Rightarrow> uint32 \<Rightarrow> uint32 \<Rightarrow> uint32 \<Rightarrow> uint32" where
  "join4 i1 i2 i3 i4 = push_bit 6 (push_bit 6 (push_bit 6 (push_bit 6 0 + i1) + i2) + i3) + i4"

lemma join4_or:
  "join4 (w AND 63) (x AND 63) (y AND 63) (z AND 63) =
   push_bit 6 (push_bit 6 (push_bit 6 (w AND mask 6) OR (x AND mask 6)) OR (y AND mask 6)) OR (z AND mask 6)"
  by (simp only: join4_def mask6 push_bit_of_0 add_0 shift_add)

lemma join4_split:
  assumes "\<And>n. 24 \<le> n \<Longrightarrow> \<not> bit g n"
  shows "join4 (drop_bit 18 g AND 63) (drop_bit 12 g AND 63) (drop_bit 6 g AND 63) (drop_bit 0 g AND 63) = g"
  unfolding join4_or
proof (rule bit_word_eqI)
  fix n assume "n < LENGTH(32)"
  then have n: "n < 32" by simp
  consider "n < 6" | "6 \<le> n" "n < 12" | "12 \<le> n" "n < 18" | "18 \<le> n" "n < 24" | "24 \<le> n" by linarith
  then show "bit (push_bit 6 (push_bit 6 (push_bit 6 (drop_bit 18 g AND mask 6) OR (drop_bit 12 g AND mask 6)) OR
      (drop_bit 6 g AND mask 6)) OR (drop_bit 0 g AND mask 6)) n = bit g n"
  proof cases
    case 1
    then show ?thesis by (simp add: bit_iffs)
  next
    case 2
    then have "n = 6 + (n - 6)" "n - 6 < 6" by simp_all
    then show ?thesis using 2 by (simp add: bit_iffs)
  next
    case 3
    then have "n - 12 < 6" by linarith
    then show ?thesis using 3 by (auto simp: bit_iffs)
  next
    case 4
    then have "n - 18 < 6" by linarith
    then show ?thesis using 4 by (auto simp: bit_iffs)
  next
    case 5
    then show ?thesis using assms by (simp add: bit_iffs)
  qed
qed

definition group3 :: "uint8 \<Rightarrow> uint8 \<Rightarrow> uint8 \<Rightarrow> uint32" where
  "group3 a b c = push_bit 16 (ucast a) OR push_bit 8 (ucast b) OR ucast c"

lemma group3_bit: "bit (group3 a b c) n \<longleftrightarrow>
    16 \<le> n \<and> n < 24 \<and> bit a (n - 16) \<or> 8 \<le> n \<and> n < 16 \<and> bit b (n - 8) \<or> n < 8 \<and> bit c n"
proof -
  have z: "bit x m \<Longrightarrow> m < 8" for x :: uint8 and m using bit_imp_le_length [of x m] by simp
  have "n - 16 < 8 \<Longrightarrow> n < 24" "n - 8 < 8 \<Longrightarrow> n < 16" by auto
  then show ?thesis
    using z [of a "n - 16"] z [of b "n - 8"] z [of c n]
    by (auto simp: group3_def bit_iffs bit_ucast_iff)
qed

lemma ucast_bits: "bit (ucast x :: uint8) n \<longleftrightarrow> n < 8 \<and> bit x n" for x :: uint32
  by (auto simp: bit_ucast_iff)

lemma flush_group: "base64_flush (group3 a b c) e =
    a # (if e = 0 \<or> e > 1 then [b] else []) @ (if e = 0 \<or> e > 2 then [c] else [])"
proof -
  have "ucast (drop_bit 16 (group3 a b c) AND 255) = a" "ucast (drop_bit 8 (group3 a b c) AND 255) = b"
      "ucast (group3 a b c AND 255) = c"
    unfolding mask8 by (rule bit_word_eqI; simp add: ucast_bits bit_iffs group3_bit)+
  then show ?thesis by (simp add: base64_flush_def)
qed

lemma join4_group: "join4 (drop_bit 18 (group3 a b c) AND 63) (drop_bit 12 (group3 a b c) AND 63)
    (drop_bit 6 (group3 a b c) AND 63) (drop_bit 0 (group3 a b c) AND 63) = group3 a b c"
  by (rule join4_split) (simp add: group3_bit)

lemma decode_symbol:
  "base64_decode_loop (b64 g n # s) buf pos e out =
     (let buf = push_bit 6 buf + (drop_bit n g AND 63) in
      if pos = 3 then base64_decode_loop s 0 0 e (out @ base64_flush buf e)
      else base64_decode_loop s buf (Suc pos) e out)"
  by (simp add: b64_symbol base64_symbol_def Let_def)

lemma decode_pad:
  "base64_decode_loop (61 # s) buf 2 0 out = base64_decode_loop s (push_bit 6 buf) 3 1 out"
  "base64_decode_loop (61 # s) buf 3 0 out = base64_decode_loop s 0 0 2 (out @ base64_flush (push_bit 6 buf) 2)"
  "0 < e \<Longrightarrow> base64_decode_loop (61 # s) buf 3 e out = base64_decode_loop s 0 0 e (out @ base64_flush (push_bit 6 buf) e)"
  by (simp_all add: is_space_def base64_symbol_def)

lemma decode_newline: "base64_decode_loop (10 # s) buf pos e out = base64_decode_loop s buf pos e out"
  by (simp add: is_space_def)

declare base64_decode_loop.simps(2) [simp del]

definition quad :: "uint32 \<Rightarrow> uint8 list" where
  "quad g = [b64 g 18, b64 g 12, b64 g 6, b64 g 0]"

lemma decode_quad:
  "base64_decode_loop (quad (group3 a b c) @ s) 0 0 0 out = base64_decode_loop s 0 0 0 (out @ [a, b, c])"
  using join4_group [of a b c]
  by (simp add: quad_def decode_symbol Let_def join4_def flush_group)

lemma low_symbol: "drop_bit n (group3 a b 0) AND 63 = 0" if "n + 6 \<le> 8"
proof -
  have "\<not> bit (drop_bit n (group3 a b 0) AND mask 6) i" for i using that by (auto simp: bit_iffs group3_bit)
  then show ?thesis unfolding mask6 by (intro bit_word_eqI) simp
qed

lemma low_symbol2: "drop_bit n (group3 a 0 0) AND 63 = 0" if "n + 6 \<le> 16"
proof -
  have "\<not> bit (drop_bit n (group3 a 0 0) AND mask 6) i" for i using that by (auto simp: bit_iffs group3_bit)
  then show ?thesis unfolding mask6 by (intro bit_word_eqI) simp
qed

lemma decode_tail1:
  "base64_decode_loop [b64 (group3 a 0 0) 18, b64 (group3 a 0 0) 12, 61, 61] 0 0 0 out = Inr (0, out @ [a])"
  using join4_group [of a 0 0] low_symbol2 [of 6 a] low_symbol2 [of 0 a]
  by (simp add: decode_symbol decode_pad Let_def join4_def flush_group numeral_2_eq_2 [symmetric])

lemma decode_tail2:
  "base64_decode_loop [b64 (group3 a b 0) 18, b64 (group3 a b 0) 12, b64 (group3 a b 0) 6, 61] 0 0 0 out =
   Inr (0, out @ [a, b])"
  using join4_group [of a b 0] low_symbol [of 0 a b]
  by (simp add: decode_symbol decode_pad Let_def join4_def flush_group numeral_3_eq_3 [symmetric])

text \<open>What is written after the loop.\<close>

definition base64_finish :: "int \<times> uint32 \<times> uint8 list \<Rightarrow> uint8 list" where
  "base64_finish st = (let (pos, buf, out) = st in
     if pos \<noteq> 2 then out @ [b64 buf 18, b64 buf 12, if pos = 0 then b64 buf 6 else 61, 61] else out)"

lemma encode_finish: "pg_base64_encode src = base64_finish (base64_encode_loop src 2 0 76 [])"
  by (simp add: pg_base64_encode_def base64_finish_def)

lemma encode_three:
  assumes "length out < lend"
  shows "base64_encode_loop (a # b # c # s) 2 0 lend out =
    (let out = out @ quad (group3 a b c) in
     if length out \<ge> lend then base64_encode_loop s 2 0 (length out + 1 + 76) (out @ [10])
     else base64_encode_loop s 2 0 lend out)"
proof -
  have "nat 2 * 8 = 16" "nat 1 * 8 = 8" "nat 0 * 8 = 0" by simp_all
  then show ?thesis using assms by (simp only: base64_encode_loop.simps) (simp add: group3_def or.assoc quad_def Let_def)
qed

lemma base64_loop_correct:
  assumes "lend = length out + 4 * r" "0 < r" "r \<le> 19"
  shows "\<exists>ext. base64_finish (base64_encode_loop src 2 0 lend out) = out @ ext \<and>
    (\<forall>d. base64_decode_loop ext 0 0 0 d = Inr (0, d @ src)) \<and>
    length ext = (length src + 2) div 3 * 4 + ((19 - r) * 3 + length src) div 57"
  using assms
proof (induction src arbitrary: lend out r rule: length_induct)
  case (1 src)
  have small: "((19 - r) * 3 + length src) div 57 = 0" if "length src \<le> 2"
    using that "1.prems"(2) by (intro div_less) linarith
  consider "src = []" | a where "src = [a]" | a b where "src = [a, b]" | a b c s where "src = a # b # c # s"
    by (metis neq_Nil_conv)
  then show ?case
  proof cases
    case 1
    then show ?thesis using small by (simp add: base64_finish_def)
  next
    case (2 a)
    have "nat 2 * 8 = 16" by simp
    then show ?thesis using 2 small "1.prems" decode_tail1 [of a, unfolded group3_def]
      by (simp add: base64_finish_def)
  next
    case (3 a b)
    have "nat 2 * 8 = 16" "nat 1 * 8 = 8" by simp_all
    then show ?thesis using 3 small "1.prems" decode_tail2 [of a b, unfolded group3_def]
      by (simp add: base64_finish_def)
  next
    case (4 a b c s)
    let ?out = "out @ quad (group3 a b c)"
    have len: "length s < length src" "length ?out = length out + 4" using 4 by (simp_all add: quad_def)
    have q: "(length src + 2) div 3 = Suc ((length s + 2) div 3)" using 4 by simp
    show ?thesis
    proof (cases "r = 1")
      case True
      have run: "base64_encode_loop src 2 0 lend out = base64_encode_loop s 2 0 (length ?out + 1 + 76) (?out @ [10])"
        using encode_three [of out lend a b c s] 4 True "1.prems" len(2) by (simp add: Let_def)
      obtain ext where ext: "base64_finish (base64_encode_loop s 2 0 (length ?out + 1 + 76) (?out @ [10])) = (?out @ [10]) @ ext"
          "\<forall>d. base64_decode_loop ext 0 0 0 d = Inr (0, d @ s)"
          "length ext = (length s + 2) div 3 * 4 + ((19 - 19) * 3 + length s) div 57"
        using "1.IH" [rule_format, OF len(1), of "length ?out + 1 + 76" "?out @ [10]" 19] by auto
      have "((19 - r) * 3 + length src) div 57 = Suc (length s div 57)" using True 4 by simp
      then have "length (quad (group3 a b c) @ 10 # ext) = (length src + 2) div 3 * 4 + ((19 - r) * 3 + length src) div 57"
        using ext(3) q by (simp add: quad_def)
      moreover have "\<forall>d. base64_decode_loop (quad (group3 a b c) @ 10 # ext) 0 0 0 d = Inr (0, d @ src)"
        using ext(2) 4 by (simp add: decode_quad decode_newline)
      ultimately show ?thesis using ext(1) run by (intro exI [of _ "quad (group3 a b c) @ 10 # ext"]) simp
    next
      case False
      have run: "base64_encode_loop src 2 0 lend out = base64_encode_loop s 2 0 lend ?out"
        using encode_three [of out lend a b c s] 4 False "1.prems" len(2) by (simp add: Let_def)
      obtain ext where ext: "base64_finish (base64_encode_loop s 2 0 lend ?out) = ?out @ ext"
          "\<forall>d. base64_decode_loop ext 0 0 0 d = Inr (0, d @ s)"
          "length ext = (length s + 2) div 3 * 4 + ((19 - (r - 1)) * 3 + length s) div 57"
      proof -
        have "lend = length ?out + 4 * (r - 1)" "0 < r - 1" "r - 1 \<le> 19" using "1.prems" False len(2) by simp_all
        then show ?thesis using "1.IH" [rule_format, OF len(1)] that by blast
      qed
      have "(19 - r) * 3 + length src = (19 - (r - 1)) * 3 + length s" using "1.prems" False 4 by simp
      then have "length (quad (group3 a b c) @ ext) = (length src + 2) div 3 * 4 + ((19 - r) * 3 + length src) div 57"
        using ext(3) q by (simp add: quad_def)
      moreover have "\<forall>d. base64_decode_loop (quad (group3 a b c) @ ext) 0 0 0 d = Inr (0, d @ src)"
        using ext(2) 4 by (simp add: decode_quad)
      ultimately show ?thesis using ext(1) run by (intro exI [of _ "quad (group3 a b c) @ ext"]) simp
    qed
  qed
qed

lemma base64_flush_length: "length (base64_flush buf e) \<le> 3"
  by (simp add: base64_flush_def)

lemma base64_decode_bound:
  "base64_decode_loop src buf pos e out = Inr (pos', out') \<Longrightarrow>
   4 * length out' + 3 * pos' \<le> 4 * length out + 3 * pos + 3 * length src"
proof (induction src arbitrary: buf pos e out)
  case (Cons c s)
  show ?case
  proof (cases "is_space c")
    case True
    then show ?thesis using Cons by (fastforce simp: base64_decode_loop.simps(2))
  next
    case False
    obtain b e2 where "base64_symbol c pos e = Inr (b, e2)"
      using Cons.prems False by (cases "base64_symbol c pos e") (auto simp: base64_decode_loop.simps(2))
    then have r: "base64_decode_loop (c # s) buf pos e out =
        (let buf = push_bit 6 buf + b in if pos = 3 then base64_decode_loop s 0 0 e2 (out @ base64_flush buf e2)
         else base64_decode_loop s buf (Suc pos) e2 out)"
      using False by (simp add: base64_decode_loop.simps(2))
    show ?thesis
    proof (cases "pos = 3")
      case True
      then have "base64_decode_loop s 0 0 e2 (out @ base64_flush (push_bit 6 buf + b) e2) = Inr (pos', out')"
        using Cons.prems r by (simp add: Let_def)
      from Cons.IH [OF this] base64_flush_length [of "push_bit 6 buf + b" e2] True show ?thesis by simp
    next
      case False
      then have "base64_decode_loop s (push_bit 6 buf + b) (Suc pos) e2 out = Inr (pos', out')"
        using Cons.prems r by (simp add: Let_def)
      from Cons.IH [OF this] show ?thesis by simp
    qed
  qed
qed simp

lemma base64_decode_errors: "base64_decode_loop src buf pos e out = Inl err \<Longrightarrow> \<exists>m. err = ERROR m"
proof (induction src arbitrary: buf pos e out)
  case (Cons c s)
  then show ?case
    by (auto simp: base64_decode_loop.simps(2) base64_symbol_def Let_def split: if_splits option.splits)
qed simp

lemma base64_encode_facts:
  "pg_base64_decode (pg_base64_encode xs) = Inr xs"
  "length (pg_base64_encode xs) = (length xs + 2) div 3 * 4 + length xs div 57"
proof -
  obtain ext where "base64_finish (base64_encode_loop xs 2 0 76 []) = ext"
      "\<forall>d. base64_decode_loop ext 0 0 0 d = Inr (0, d @ xs)"
      "length ext = (length xs + 2) div 3 * 4 + length xs div 57"
    using base64_loop_correct [of 76 "[]" 19 xs] by auto
  then show "pg_base64_decode (pg_base64_encode xs) = Inr xs"
    "length (pg_base64_encode xs) = (length xs + 2) div 3 * 4 + length xs div 57"
    by (simp_all add: encode_finish pg_base64_decode_def)
qed

section \<open>Escape\<close>

lemma octal_digit: "unat (w AND 7) < 8" for w :: uint8
proof -
  have "w AND 7 = take_bit 3 w" by (simp add: take_bit_eq_mask mask_numeral)
  then show ?thesis using take_bit_nat_less_exp [of 3 "unat w"] by (simp add: unsigned_take_bit_eq)
qed

lemma top_digit: "unat (drop_bit 6 c) < 4" for c :: uint8
proof -
  have "unat c < 2 ^ 8" using unsigned_less [of c] by simp
  then show ?thesis by (simp add: drop_bit_eq_div unat_div)
qed

lemma digit_bounds:
  fixes d :: uint8
  assumes "unat d \<le> k" "k < 100"
  shows "48 \<le> d + 48" "d + 48 \<le> of_nat k + 48"
proof -
  have "unat (d + 48) = unat d + 48" using assms by (simp add: unat_word_ariths)
  moreover have "unat (of_nat k + 48 :: uint8) = k + 48" using assms by (simp add: unat_word_ariths unat_of_nat)
  ultimately show "48 \<le> d + 48" "d + 48 \<le> of_nat k + 48" using assms by (simp_all add: word_le_nat_alt)
qed

lemma octal_encoded: "octal (92 # (drop_bit 6 c + 48) # ((drop_bit 3 c AND 7) + 48) # ((c AND 7) + 48) # s)"
  using digit_bounds [of "drop_bit 6 c" 3] digit_bounds [of "drop_bit 3 c AND 7" 7] digit_bounds [of "c AND 7" 7]
    top_digit [of c] octal_digit [of "drop_bit 3 c"] octal_digit [of c]
  by (simp add: octal_def)

lemma octal_value: "push_bit 3 (push_bit 3 (drop_bit 6 c) + (drop_bit 3 c AND 7)) + (c AND 7) = c" for c :: uint8
proof -
  have m: "(7::uint8) = mask 3" by (simp add: mask_numeral)
  have add: "push_bit 3 x + (y AND mask 3) = push_bit 3 x OR (y AND mask 3)" for x y :: uint8
    by (rule disjunctive_add) (auto simp: bit_iffs)
  show ?thesis
    unfolding m add
  proof (rule bit_word_eqI)
    fix n assume "n < LENGTH(8)"
    then consider "n < 3" | "3 \<le> n" "n < 6" | "6 \<le> n" "n < 8" by force
    then show "bit (push_bit 3 (push_bit 3 (drop_bit 6 c) OR (drop_bit 3 c AND mask 3)) OR (c AND mask 3)) n = bit c n"
    proof cases
      case 2
      then have "n - 3 < 3" by linarith
      then show ?thesis using 2 by (auto simp: bit_iffs)
    qed (auto simp: bit_iffs)
  qed
qed

lemma esc_round_trip: "esc_decode (esc_encode xs) = Inr xs"
proof (induction xs)
  case Nil
  show ?case by (simp add: esc_decode.simps)
next
  case (Cons c xs)
  consider "c = 0 \<or> IS_HIGHBIT_SET c" | "\<not> (c = 0 \<or> IS_HIGHBIT_SET c)" "c = 92" | "\<not> (c = 0 \<or> IS_HIGHBIT_SET c)" "c \<noteq> 92"
    by blast
  then show ?case
  proof cases
    case 1
    then show ?thesis
      using Cons octal_encoded [of c "esc_encode xs"] octal_value [of c]
      by (subst esc_decode.simps) simp
  next
    case 2
    then show ?thesis using Cons by (subst esc_decode.simps) (simp add: octal_def)
  next
    case 3
    then show ?thesis using Cons by (subst esc_decode.simps) simp
  qed
qed

lemma esc_dec_len_exact: "esc_dec_len ys = map_sum id length (esc_decode ys)"
proof (induction ys rule: esc_decode.induct)
  case (1 ys)
  have s: "map_sum id Suc (map_sum id length r) = map_sum id length (map_sum id ((#) x) r)" for r :: "uint8 list result" and x
    by (cases r) simp_all
  show ?case
    using 1 s by (subst esc_decode.simps, subst esc_dec_len.simps) (simp add: id_def)
qed

lemma esc_decode_errors: "esc_decode ys = Inl err \<Longrightarrow> \<exists>m. err = ERROR m"
proof (induction ys rule: esc_decode.induct)
  case (1 ys)
  note unfold = 1(4) [unfolded esc_decode.simps [of ys]]
  show ?case
    using 1(1-3) unfold by (auto elim!: map_sum_InlE split: if_splits)
qed

lemma esc_encode_length: "length (esc_encode xs) = esc_enc_len_loop xs" "length xs \<le> esc_enc_len_loop xs"
  by (induction xs) simp_all

section \<open>The three encodings fulfil the contract\<close>

interpretation hex: codec hex_encoding
proof unfold_locales
  fix xs n assume "encode_len hex_encoding xs = Inr n"
  then show "\<exists>m \<le> n. decode_len hex_encoding (encode hex_encoding xs) = Inr m"
    by (simp add: hex_encoding_def hex_enc_len_def hex_dec_len_def hex_encode_length)
qed (auto simp: hex_encoding_def hex_enc_len_def hex_dec_len_def hex_round_trip hex_encode_length
    dest: hex_decode_length hex_decode_errors)

interpretation base64: codec base64_encoding
proof unfold_locales
  fix xs n assume "encode_len base64_encoding xs = Inr n"
  then show "\<exists>m \<le> n. decode_len base64_encoding (encode base64_encoding xs) = Inr m"
    by (simp add: base64_encoding_def pg_base64_enc_len_def pg_base64_dec_len_def base64_encode_facts)
next
  fix ys xs n assume "decode base64_encoding ys = Inr xs" "decode_len base64_encoding ys = Inr n"
  then show "length xs \<le> n"
    by (auto simp: base64_encoding_def pg_base64_dec_len_def pg_base64_decode_def
        dest!: base64_decode_bound split: sum.splits prod.splits if_splits)
next
  fix ys err assume "decode base64_encoding ys = Inl err"
  then show "\<exists>m. err = ERROR m"
    by (auto simp: base64_encoding_def pg_base64_decode_def
        dest: base64_decode_errors split: sum.splits prod.splits if_splits)
qed (simp_all add: base64_encoding_def pg_base64_enc_len_def pg_base64_dec_len_def base64_encode_facts)

interpretation escape: codec escape_encoding
proof unfold_locales
  fix xs n assume "encode_len escape_encoding xs = Inr n"
  then show "\<exists>m \<le> n. decode_len escape_encoding (encode escape_encoding xs) = Inr m"
    using esc_encode_length [of xs]
    by (simp add: escape_encoding_def esc_enc_len_def esc_dec_len_exact esc_round_trip)
next
  fix ys err assume "decode_len escape_encoding ys = Inl err"
  then show "\<exists>m. err = ERROR m"
    by (auto simp: escape_encoding_def esc_dec_len_exact elim!: map_sum_InlE dest: esc_decode_errors)
qed (auto simp: escape_encoding_def esc_enc_len_def esc_round_trip esc_encode_length esc_dec_len_exact
    dest: esc_decode_errors)

lemma found_encoding: "pg_find_encoding lower name = Some enc \<Longrightarrow> codec enc"
  by (auto simp: pg_find_encoding_def enclist_def split: if_splits
      intro: hex.codec_axioms base64.codec_axioms escape.codec_axioms)

section \<open>Properties\<close>

text \<open>
  C36: what \<open>encode(data, name)\<close> returns, \<open>decode(text, name)\<close> turns back into exactly the same bytes,
  for every data, every spelling of the name of an encoding the table knows and every locale: the
  length estimate of the decoder is never in the way of text that the encoder produced.
\<close>

theorem binary_encode_decode:
  assumes "binary_encode lower data name = Inr ys"
  shows "binary_decode lower ys name = Inr data"
proof -
  obtain enc where enc: "pg_find_encoding lower name = Some enc" "encode_with enc data = Inr ys"
    using assms by (auto simp: binary_encode_def split: option.splits)
  then show ?thesis using codec.encode_decode [OF found_encoding [OF enc(1)] enc(2)] by (simp add: binary_decode_def)
qed

lemmas find_evaluation = pg_find_encoding_def enclist_def bytes_of_def fold_case_def IS_HIGHBIT_SET_def

theorem binary_encode_decode_witness:
  "binary_encode (\<lambda>c. c) [0, 255, 92, 65] (bytes_of ''EsCape'') = Inr [92, 48, 48, 48, 92, 51, 55, 55, 92, 92, 65] \<and>
   binary_decode (\<lambda>c. c) [92, 48, 48, 48, 92, 51, 55, 55, 92, 92, 65] (bytes_of ''EsCape'') = Inr [0, 255, 92, 65]"
proof
  show "binary_encode (\<lambda>c. c) [0, 255, 92, 65] (bytes_of ''EsCape'') =
      Inr [92, 48, 48, 48, 92, 51, 55, 55, 92, 92, 65]"
    by (simp add: find_evaluation binary_encode_def encode_with_def escape_encoding_def esc_enc_len_def MaxAllocSize_def)
  then show "binary_decode (\<lambda>c. c) [92, 48, 48, 48, 92, 51, 55, 55, 92, 92, 65] (bytes_of ''EsCape'') =
      Inr [0, 255, 92, 65]"
    by (rule binary_encode_decode)
qed

text \<open>
  C37: the buffers that \<open>binary_encode\<close> and \<open>binary_decode\<close> allocate from the length estimates are
  never overrun.  Whatever the input, valid or not, neither function reaches its FATAL exit: the
  encoder fails only for an unknown encoding or a result above the allocation limit, and the decoder
  only with an ERROR.
\<close>

theorem conversion_buffers_suffice:
  "binary_encode lower data name \<in>
     Inl ` {ERROR ''unrecognized encoding'', ERROR ''result of encoding conversion is too large''} \<union>
     {Inr (encode enc data) | enc. pg_find_encoding lower name = Some enc} \<and>
   (\<forall>err. binary_decode lower ys name = Inl err \<longrightarrow> (\<exists>m. err = ERROR m))"
proof (cases "pg_find_encoding lower name")
  case None
  then show ?thesis by (simp add: binary_encode_def binary_decode_def)
next
  case (Some enc)
  note c = found_encoding [OF Some]
  show ?thesis
    using codec.encode_with_result [OF c, of data] codec.decode_with_errors [OF c, of ys] Some
    by (auto simp: binary_encode_def binary_decode_def split: if_splits)
qed

theorem conversion_buffers_suffice_witness:
  "binary_decode (\<lambda>c. c) (bytes_of ''TWE='') (bytes_of ''base64'') = Inr (bytes_of ''Ma'') \<and>
   binary_decode (\<lambda>c. c) (bytes_of ''TW='') (bytes_of ''base64'') = Inl (ERROR ''invalid base64 end sequence'') \<and>
   (\<exists>m. ERROR ''invalid base64 end sequence'' = ERROR m)"
proof -
  have d: "binary_decode (\<lambda>c. c) (bytes_of ''TW='') (bytes_of ''base64'') = Inl (ERROR ''invalid base64 end sequence'')"
    by (simp add: find_evaluation binary_decode_def decode_with_def base64_encoding_def pg_base64_dec_len_def MaxAllocSize_def
        pg_base64_decode_def base64_symbol_def b64_value_def b64lookup_def is_space_def base64_flush_def base64_decode_loop.simps)
  moreover have "binary_decode (\<lambda>c. c) (bytes_of ''TWE='') (bytes_of ''base64'') = Inr (bytes_of ''Ma'')"
    by (simp add: find_evaluation binary_decode_def decode_with_def base64_encoding_def pg_base64_dec_len_def MaxAllocSize_def
        pg_base64_decode_def base64_symbol_def b64_value_def b64lookup_def is_space_def base64_flush_def base64_decode_loop.simps)
  ultimately show ?thesis
    using conversion_buffers_suffice [of "\<lambda>c. c" "[]" "bytes_of ''base64''" "bytes_of ''TW=''"] by blast
qed

end
