(* ===== verification/Locktable.thy ===== *)
theory Locktable
  imports Bitutils
begin

text \<open>
  The shared lock table, \<open>src/backend/storage/lmgr/lock.c\<close> with the wait queue of
  \<open>src/backend/storage/lmgr/proc.c\<close>: the conflict table, the record of one lock with its counts and
  masks, the check of a request against the locks other processes and other lock groups hold, granting,
  releasing, and the queue with its wake-ups.  Each operation is a function on the entry of one lock and
  the array of processes, run under the lock of the partition; \<open>elog(PANIC)\<close> and \<open>elog(ERROR)\<close> are values.
  \<open>lock_inv\<close> says what the counts and masks of a lock mean, that the queue and the processes agree and
  that conflicting modes are held only within a lock group; \<open>stuck\<close> says that every waiter waits for a
  reason.  \<open>entry_ok\<close> joins the two, and every operation on the entry keeps it.
\<close>

unbundle bit_operations_syntax

section \<open>Lock modes and the conflict table\<close>

type_synonym LOCKMODE = nat
type_synonym LOCKMASK = uint32

definition AccessShareLock :: LOCKMODE where "AccessShareLock = 1"
definition RowShareLock :: LOCKMODE where "RowShareLock = 2"
definition RowExclusiveLock :: LOCKMODE where "RowExclusiveLock = 3"
definition ShareUpdateExclusiveLock :: LOCKMODE where "ShareUpdateExclusiveLock = 4"
definition ShareLock :: LOCKMODE where "ShareLock = 5"
definition ShareRowExclusiveLock :: LOCKMODE where "ShareRowExclusiveLock = 6"
definition ExclusiveLock :: LOCKMODE where "ExclusiveLock = 7"
definition AccessExclusiveLock :: LOCKMODE where "AccessExclusiveLock = 8"
definition MaxLockMode :: LOCKMODE where "MaxLockMode = 8"
definition MAX_LOCKMODES :: nat where "MAX_LOCKMODES = 10"

text \<open>The modes that a loop \<open>for (i = 1; i <= numLockModes; i++)\<close> visits; both lock methods have the same.\<close>

definition modes :: "LOCKMODE list" where "modes = [1..<Suc MaxLockMode]"

definition LOCKBIT_ON :: "LOCKMODE \<Rightarrow> LOCKMASK" where
  "LOCKBIT_ON lockmode = push_bit lockmode 1"

definition LOCKBIT_OFF :: "LOCKMODE \<Rightarrow> LOCKMASK" where
  "LOCKBIT_OFF lockmode = NOT (push_bit lockmode 1)"

definition LockConflicts :: "LOCKMASK list" where
  "LockConflicts =
    [0,
     LOCKBIT_ON AccessExclusiveLock,
     LOCKBIT_ON ExclusiveLock OR LOCKBIT_ON AccessExclusiveLock,
     LOCKBIT_ON ShareLock OR LOCKBIT_ON ShareRowExclusiveLock OR
     LOCKBIT_ON ExclusiveLock OR LOCKBIT_ON AccessExclusiveLock,
     LOCKBIT_ON ShareUpdateExclusiveLock OR
     LOCKBIT_ON ShareLock OR LOCKBIT_ON ShareRowExclusiveLock OR
     LOCKBIT_ON ExclusiveLock OR LOCKBIT_ON AccessExclusiveLock,
     LOCKBIT_ON RowExclusiveLock OR LOCKBIT_ON ShareUpdateExclusiveLock OR
     LOCKBIT_ON ShareRowExclusiveLock OR
     LOCKBIT_ON ExclusiveLock OR LOCKBIT_ON AccessExclusiveLock,
     LOCKBIT_ON RowExclusiveLock OR LOCKBIT_ON ShareUpdateExclusiveLock OR
     LOCKBIT_ON ShareLock OR LOCKBIT_ON ShareRowExclusiveLock OR
     LOCKBIT_ON ExclusiveLock OR LOCKBIT_ON AccessExclusiveLock,
     LOCKBIT_ON RowShareLock OR
     LOCKBIT_ON RowExclusiveLock OR LOCKBIT_ON ShareUpdateExclusiveLock OR
     LOCKBIT_ON ShareLock OR LOCKBIT_ON ShareRowExclusiveLock OR
     LOCKBIT_ON ExclusiveLock OR LOCKBIT_ON AccessExclusiveLock,
     LOCKBIT_ON AccessShareLock OR LOCKBIT_ON RowShareLock OR
     LOCKBIT_ON RowExclusiveLock OR LOCKBIT_ON ShareUpdateExclusiveLock OR
     LOCKBIT_ON ShareLock OR LOCKBIT_ON ShareRowExclusiveLock OR
     LOCKBIT_ON ExclusiveLock OR LOCKBIT_ON AccessExclusiveLock]"

definition DoLockModesConflict :: "LOCKMODE \<Rightarrow> LOCKMODE \<Rightarrow> bool" where
  "DoLockModesConflict mode1 mode2 \<longleftrightarrow> LockConflicts ! mode1 AND LOCKBIT_ON mode2 \<noteq> 0"

section \<open>Lock tags, locks and processes\<close>

datatype LockTagType =
  LOCKTAG_RELATION | LOCKTAG_RELATION_EXTEND | LOCKTAG_DATABASE_FROZEN_IDS | LOCKTAG_PAGE | LOCKTAG_TUPLE |
  LOCKTAG_TRANSACTION | LOCKTAG_VIRTUALTRANSACTION | LOCKTAG_SPECULATIVE_TOKEN | LOCKTAG_OBJECT |
  LOCKTAG_USERLOCK | LOCKTAG_ADVISORY | LOCKTAG_APPLY_TRANSACTION

record LOCKTAG =
  locktag_field1 :: uint32
  locktag_field2 :: uint32
  locktag_field3 :: uint32
  locktag_field4 :: uint16
  locktag_type :: LockTagType
  locktag_lockmethodid :: uint8

definition DEFAULT_LOCKMETHOD :: uint8 where "DEFAULT_LOCKMETHOD = 1"
definition USER_LOCKMETHOD :: uint8 where "USER_LOCKMETHOD = 2"

definition SET_LOCKTAG_RELATION :: "uint32 \<Rightarrow> uint32 \<Rightarrow> LOCKTAG" where
  "SET_LOCKTAG_RELATION dboid reloid = \<lparr>locktag_field1 = dboid, locktag_field2 = reloid, locktag_field3 = 0,
     locktag_field4 = 0, locktag_type = LOCKTAG_RELATION, locktag_lockmethodid = DEFAULT_LOCKMETHOD\<rparr>"

text \<open>
  A process is the number of its \<open>PGPROC\<close> in \<open>ProcGlobal->allProcs\<close>.  A \<open>PROCLOCK\<close> is entered into the
  hash table of proclocks, into the list of its lock and into the list of its process together, and removed
  from them together; the model has it once, in the list \<open>procLocks\<close> of its lock, with its process.  So
  \<open>waitProcLock\<close> of a process is the entry of that process in the list of its \<open>waitLock\<close>.
\<close>

record PROCLOCK =
  groupLeader :: nat
  holdMask :: LOCKMASK
  releaseMask :: LOCKMASK

record LOCK =
  grantMask :: LOCKMASK
  waitMask :: LOCKMASK
  procLocks :: "(nat \<times> PROCLOCK) list"
  waitProcs :: "nat list"
  requested :: "int list"
  nRequested :: int
  granted :: "int list"
  nGranted :: int

datatype ProcWaitStatus = PROC_WAIT_STATUS_OK | PROC_WAIT_STATUS_WAITING | PROC_WAIT_STATUS_ERROR

record PGPROC =
  waitStatus :: ProcWaitStatus
  waitLock :: "LOCKTAG option"
  waitLockMode :: LOCKMODE
  heldLocks :: LOCKMASK
  waitStart :: nat
  lockGroupLeader :: "nat option"

type_synonym procs = "nat \<Rightarrow> PGPROC"

definition upd_proclock :: "nat \<Rightarrow> (PROCLOCK \<Rightarrow> PROCLOCK) \<Rightarrow> LOCK \<Rightarrow> LOCK" where
  "upd_proclock p f lock = lock\<lparr>procLocks := map (\<lambda>(q, pl). (q, if q = p then f pl else pl)) (procLocks lock)\<rparr>"

definition del_proclock :: "nat \<Rightarrow> LOCK \<Rightarrow> LOCK" where
  "del_proclock p lock = lock\<lparr>procLocks := filter (\<lambda>(q, pl). q \<noteq> p) (procLocks lock)\<rparr>"

definition lookup_proclock :: "nat \<Rightarrow> LOCK \<Rightarrow> PROCLOCK result" where
  "lookup_proclock p lock = (case map_of (procLocks lock) p of None \<Rightarrow> Inl Undefined_Behaviour | Some pl \<Rightarrow> Inr pl)"

definition incr :: "int \<Rightarrow> LOCKMODE \<Rightarrow> int list \<Rightarrow> int list" where
  "incr d m xs = xs[m := xs ! m + d]"

section \<open>Conflicts, granting and releasing\<close>

text \<open>The loop over the lock modes that takes the locks of one member of the group off the conflicts.\<close>

definition subtract_mode :: "LOCKMASK \<Rightarrow> LOCKMODE \<Rightarrow> int list \<times> int \<Rightarrow> (int list \<times> int) result" where
  "subtract_mode intersectMask i = (\<lambda>(conflictsRemaining, totalConflictsRemaining).
     if intersectMask AND LOCKBIT_ON i \<noteq> 0
     then if conflictsRemaining ! i \<le> 0 then Inl (PANIC ''proclocks held do not match lock'')
          else Inr (incr (-1) i conflictsRemaining, totalConflictsRemaining - 1)
     else Inr (conflictsRemaining, totalConflictsRemaining))"

fun group_conflicts ::
  "LOCKMASK \<Rightarrow> nat \<Rightarrow> nat \<Rightarrow> (nat \<times> PROCLOCK) list \<Rightarrow> int list \<times> int \<Rightarrow> bool result" where
  "group_conflicts conflictMask p leader [] rem = Inr True"
| "group_conflicts conflictMask p leader ((q, other) # ps) rem =
     (if p \<noteq> q \<and> leader = groupLeader other \<and> holdMask other AND conflictMask \<noteq> 0
      then case fold_result (subtract_mode (holdMask other AND conflictMask)) modes rem of
             Inl e \<Rightarrow> Inl e
           | Inr rem \<Rightarrow> if snd rem = 0 then Inr False else group_conflicts conflictMask p leader ps rem
      else group_conflicts conflictMask p leader ps rem)"

definition conflictsRemaining :: "LOCKMASK \<Rightarrow> LOCKMASK \<Rightarrow> LOCK \<Rightarrow> LOCKMODE \<Rightarrow> int" where
  "conflictsRemaining conflictMask myLocks lock i =
     (if conflictMask AND LOCKBIT_ON i = 0 then 0
      else granted lock ! i - (if myLocks AND LOCKBIT_ON i \<noteq> 0 then 1 else 0))"

definition LockCheckConflicts :: "nat \<Rightarrow> procs \<Rightarrow> LOCKMODE \<Rightarrow> LOCKTAG \<Rightarrow> LOCK \<Rightarrow> nat \<Rightarrow> bool result" where
  "LockCheckConflicts MyProc procs lockmode tag lock p =
     (case lookup_proclock p lock of
        Inl e \<Rightarrow> Inl e
      | Inr proclock \<Rightarrow>
          let conflictMask = LockConflicts ! lockmode in
          if conflictMask AND grantMask lock = 0 then Inr False
          else
            let rem = map (conflictsRemaining conflictMask (holdMask proclock) lock) [0..<MAX_LOCKMODES];
                total = sum_list (map ((!) rem) modes)
            in if total = 0 then Inr False
               else if groupLeader proclock = MyProc \<and> lockGroupLeader (procs MyProc) = None then Inr True
               else if locktag_type tag = LOCKTAG_RELATION_EXTEND then Inr True
               else group_conflicts conflictMask p (groupLeader proclock) (procLocks lock) (rem, total))"

definition GrantLock :: "LOCK \<Rightarrow> nat \<Rightarrow> LOCKMODE \<Rightarrow> LOCK" where
  "GrantLock lock p lockmode =
     (let lock = lock\<lparr>nGranted := nGranted lock + 1, granted := incr 1 lockmode (granted lock),
            grantMask := grantMask lock OR LOCKBIT_ON lockmode\<rparr>;
          lock = (if granted lock ! lockmode = requested lock ! lockmode
                  then lock\<lparr>waitMask := waitMask lock AND LOCKBIT_OFF lockmode\<rparr> else lock)
      in upd_proclock p (\<lambda>pl. pl\<lparr>holdMask := holdMask pl OR LOCKBIT_ON lockmode\<rparr>) lock)"

definition UnGrantLock :: "LOCK \<Rightarrow> LOCKMODE \<Rightarrow> nat \<Rightarrow> bool \<times> LOCK" where
  "UnGrantLock lock lockmode p =
     (let lock = lock\<lparr>nRequested := nRequested lock - 1, requested := incr (-1) lockmode (requested lock),
            nGranted := nGranted lock - 1, granted := incr (-1) lockmode (granted lock)\<rparr>;
          lock = (if granted lock ! lockmode = 0
                  then lock\<lparr>grantMask := grantMask lock AND LOCKBIT_OFF lockmode\<rparr> else lock);
          wakeupNeeded = (LockConflicts ! lockmode AND waitMask lock \<noteq> 0)
      in (wakeupNeeded, upd_proclock p (\<lambda>pl. pl\<lparr>holdMask := holdMask pl AND LOCKBIT_OFF lockmode\<rparr>) lock))"

section \<open>The wait queue\<close>

definition ProcWakeup :: "nat \<Rightarrow> nat \<Rightarrow> ProcWaitStatus \<Rightarrow> LOCK \<times> procs \<Rightarrow> LOCK \<times> procs" where
  "ProcWakeup MyProc p status = (\<lambda>(lock, procs).
     if p \<notin> set (waitProcs lock) then (lock, procs)
     else
       let procs = procs(p := (procs p)\<lparr>waitLock := None, waitStatus := status\<rparr>)
       in (lock\<lparr>waitProcs := remove1 p (waitProcs lock)\<rparr>, procs(MyProc := (procs MyProc)\<lparr>waitStart := 0\<rparr>)))"

fun wakeup_loop ::
  "nat \<Rightarrow> LOCKTAG \<Rightarrow> nat list \<Rightarrow> LOCKMASK \<Rightarrow> LOCK \<times> procs \<Rightarrow> (LOCK \<times> procs) result" where
  "wakeup_loop MyProc tag [] aheadRequests s = Inr s"
| "wakeup_loop MyProc tag (p # ps) aheadRequests (lock, procs) =
     (let lockmode = waitLockMode (procs p) in
      case (if LockConflicts ! lockmode AND aheadRequests = 0
            then LockCheckConflicts MyProc procs lockmode tag lock p else Inr True) of
        Inl e \<Rightarrow> Inl e
      | Inr False \<Rightarrow>
          wakeup_loop MyProc tag ps aheadRequests
            (ProcWakeup MyProc p PROC_WAIT_STATUS_OK (GrantLock lock p lockmode, procs))
      | Inr True \<Rightarrow> wakeup_loop MyProc tag ps (aheadRequests OR LOCKBIT_ON lockmode) (lock, procs))"

definition ProcLockWakeup :: "nat \<Rightarrow> LOCKTAG \<Rightarrow> LOCK \<times> procs \<Rightarrow> (LOCK \<times> procs) result" where
  "ProcLockWakeup MyProc tag s = wakeup_loop MyProc tag (waitProcs (fst s)) 0 s"

text \<open>The result is the entry of the lock in the table: \<open>None\<close> once it has been removed.\<close>

definition CleanUpLock ::
  "nat \<Rightarrow> LOCKTAG \<Rightarrow> nat \<Rightarrow> bool \<Rightarrow> LOCK \<times> procs \<Rightarrow> (LOCK option \<times> procs) result" where
  "CleanUpLock MyProc tag p wakeupNeeded = (\<lambda>(lock, procs).
     case lookup_proclock p lock of
       Inl e \<Rightarrow> Inl e
     | Inr proclock \<Rightarrow>
         let lock = (if holdMask proclock = 0 then del_proclock p lock else lock) in
         if nRequested lock = 0 then Inr (None, procs)
         else if wakeupNeeded then map_sum id (apfst Some) (ProcLockWakeup MyProc tag (lock, procs))
         else Inr (Some lock, procs))"

definition RemoveFromWaitQueue :: "nat \<Rightarrow> LOCKTAG \<Rightarrow> nat \<Rightarrow> LOCK \<times> procs \<Rightarrow> (LOCK option \<times> procs) result" where
  "RemoveFromWaitQueue MyProc tag p = (\<lambda>(lock, procs).
     let lockmode = waitLockMode (procs p);
         lock = lock\<lparr>waitProcs := remove1 p (waitProcs lock),
           nRequested := nRequested lock - 1, requested := incr (-1) lockmode (requested lock)\<rparr>;
         lock = (if granted lock ! lockmode = requested lock ! lockmode
                 then lock\<lparr>waitMask := waitMask lock AND LOCKBIT_OFF lockmode\<rparr> else lock);
         procs = procs(p := (procs p)\<lparr>waitLock := None, waitStatus := PROC_WAIT_STATUS_ERROR\<rparr>)
     in CleanUpLock MyProc tag p True (lock, procs))"

section \<open>Requests\<close>

definition new_lock :: LOCK where
  "new_lock = \<lparr>grantMask = 0, waitMask = 0, procLocks = [], waitProcs = [],
     requested = replicate MAX_LOCKMODES 0, nRequested = 0, granted = replicate MAX_LOCKMODES 0, nGranted = 0\<rparr>"

text \<open>
  \<open>SetupLockInTable\<close>.  The first two arguments say whether shared memory has room for another lock and for
  another proclock.  The result is \<open>NULL\<close> with the entry of the table left behind, an error with the lock as
  it is when the error is raised, or the lock with the proclock found or made.
\<close>

datatype setup_outcome = Setup_NULL "LOCK option" | Setup_Error pg_error LOCK | Setup_Done LOCK

definition SetupLockInTable ::
  "bool \<Rightarrow> bool \<Rightarrow> procs \<Rightarrow> nat \<Rightarrow> LOCKMODE \<Rightarrow> LOCK option \<Rightarrow> setup_outcome result" where
  "SetupLockInTable lock_room proclock_room procs p lockmode entry =
     (if entry = None \<and> \<not> lock_room then Inr (Setup_NULL None)
      else
        let lock = (case entry of None \<Rightarrow> new_lock | Some lock \<Rightarrow> lock);
            found = (map_of (procLocks lock) p \<noteq> None)
        in if \<not> found \<and> \<not> proclock_room
           then Inr (Setup_NULL (if nRequested lock = 0 then None else Some lock))
           else
             let leader = (case lockGroupLeader (procs p) of None \<Rightarrow> p | Some l \<Rightarrow> l);
                 lock = (if found then lock
                         else lock\<lparr>procLocks := procLocks lock @ [(p, \<lparr>groupLeader = leader, holdMask = 0, releaseMask = 0\<rparr>)]\<rparr>);
                 lock = lock\<lparr>nRequested := nRequested lock + 1, requested := incr 1 lockmode (requested lock)\<rparr>
             in case lookup_proclock p lock of
                  Inl e \<Rightarrow> Inl e
                | Inr proclock \<Rightarrow>
                    if holdMask proclock AND LOCKBIT_ON lockmode \<noteq> 0
                    then Inr (Setup_Error (ERROR ''lock is already held'') lock)
                    else Inr (Setup_Done lock))"

text \<open>The scan of the queue in \<open>ProcSleep\<close>, and where it leaves the process.\<close>

datatype queue_place = Grant_Now | Early_Deadlock | Before nat | At_Tail

fun queue_scan ::
  "nat \<Rightarrow> procs \<Rightarrow> LOCKMODE \<Rightarrow> LOCKTAG \<Rightarrow> LOCK \<Rightarrow> LOCKMASK \<Rightarrow> nat list \<Rightarrow> LOCKMASK \<Rightarrow> queue_place result" where
  "queue_scan MyProc procs lockmode tag lock myHeldLocks [] aheadRequests = Inr At_Tail"
| "queue_scan MyProc procs lockmode tag lock myHeldLocks (q # qs) aheadRequests =
     (if lockGroupLeader (procs MyProc) \<noteq> None \<and> lockGroupLeader (procs MyProc) = lockGroupLeader (procs q)
      then queue_scan MyProc procs lockmode tag lock myHeldLocks qs aheadRequests
      else if LockConflicts ! waitLockMode (procs q) AND myHeldLocks \<noteq> 0
      then if LockConflicts ! lockmode AND heldLocks (procs q) \<noteq> 0 then Inr Early_Deadlock
           else if LockConflicts ! lockmode AND aheadRequests = 0
           then map_sum id (\<lambda>conflict. if conflict then Before q else Grant_Now)
                  (LockCheckConflicts MyProc procs lockmode tag lock MyProc)
           else Inr (Before q)
      else queue_scan MyProc procs lockmode tag lock myHeldLocks qs
             (aheadRequests OR LOCKBIT_ON (waitLockMode (procs q))))"

definition group_held :: "nat option \<Rightarrow> LOCK \<Rightarrow> LOCKMASK \<Rightarrow> LOCKMASK" where
  "group_held leader lock held =
     (case leader of None \<Rightarrow> held
      | Some l \<Rightarrow> fold (\<lambda>(q, pl) held. if groupLeader pl = l then held OR holdMask pl else held) (procLocks lock) held)"

fun insert_before :: "nat \<Rightarrow> nat \<Rightarrow> nat list \<Rightarrow> nat list" where
  "insert_before q p [] = [p]"
| "insert_before q p (x # xs) = (if x = q then p # x # xs else x # insert_before q p xs)"

text \<open>
  \<open>ProcSleep\<close> up to the point where it releases the partition lock: the process has the lock, is in
  the queue, or has given up because of a deadlock.
\<close>

definition ProcSleep ::
  "nat \<Rightarrow> LOCKTAG \<Rightarrow> LOCKMODE \<Rightarrow> LOCK \<times> procs \<Rightarrow> (ProcWaitStatus \<times> LOCK option \<times> procs) result" where
  "ProcSleep MyProc tag lockmode = (\<lambda>(lock, procs).
     let myHeldLocks = group_held (lockGroupLeader (procs MyProc)) lock (heldLocks (procs MyProc)) in
     case (if myHeldLocks \<noteq> 0 \<and> waitProcs lock \<noteq> []
           then queue_scan MyProc procs lockmode tag lock myHeldLocks (waitProcs lock) 0 else Inr At_Tail) of
       Inl e \<Rightarrow> Inl e
     | Inr Grant_Now \<Rightarrow> Inr (PROC_WAIT_STATUS_OK, Some (GrantLock lock MyProc lockmode), procs)
     | Inr place \<Rightarrow>
         let lock = lock\<lparr>waitProcs := (case place of Before q \<Rightarrow> insert_before q MyProc (waitProcs lock)
                                       | _ \<Rightarrow> waitProcs lock @ [MyProc]),
                         waitMask := waitMask lock OR LOCKBIT_ON lockmode\<rparr>;
             procs = procs(MyProc := (procs MyProc)\<lparr>waitLock := Some tag, waitLockMode := lockmode,
                         waitStatus := PROC_WAIT_STATUS_WAITING\<rparr>)
         in if place = Early_Deadlock
            then map_sum id (\<lambda>r. (PROC_WAIT_STATUS_ERROR, r)) (RemoveFromWaitQueue MyProc tag MyProc (lock, procs))
            else Inr (PROC_WAIT_STATUS_WAITING, Some lock, procs))"

section \<open>The shared part of acquiring and releasing\<close>

text \<open>
  \<open>LockAcquireExtended\<close> from \<open>SetupLockInTable\<close> on, with the partition lock held: the lock is granted, refused
  (\<open>LOCKACQUIRE_NOT_AVAIL\<close>), awaited, or an error is raised.  \<open>Raised\<close> carries the errors that \<open>ereport\<close> raises,
  with the table as it is then: no shared memory, a mode already held, and \<open>DeadLockReport\<close>, which
  \<open>WaitOnLock\<close> calls after an early deadlock.
\<close>

datatype acquire_outcome = Granted | Not_Available | Waiting | Raised pg_error

definition sleep_outcome :: "ProcWaitStatus \<Rightarrow> acquire_outcome" where
  "sleep_outcome status =
     (case status of PROC_WAIT_STATUS_OK \<Rightarrow> Granted | PROC_WAIT_STATUS_WAITING \<Rightarrow> Waiting
      | PROC_WAIT_STATUS_ERROR \<Rightarrow> Raised (ERROR ''deadlock detected''))"

definition acquire_in_table ::
  "bool \<Rightarrow> bool \<Rightarrow> nat \<Rightarrow> LOCKTAG \<Rightarrow> LOCKMODE \<Rightarrow> bool \<Rightarrow> bool \<Rightarrow> LOCK option \<times> procs \<Rightarrow>
   (acquire_outcome \<times> LOCK option \<times> procs) result" where
  "acquire_in_table lock_room proclock_room MyProc tag lockmode dontWait reportMemoryError = (\<lambda>(entry, procs).
     case SetupLockInTable lock_room proclock_room procs MyProc lockmode entry of
       Inl e \<Rightarrow> Inl e
     | Inr (Setup_NULL entry) \<Rightarrow>
         Inr (if reportMemoryError then Raised (ERROR ''out of shared memory'') else Not_Available, entry, procs)
     | Inr (Setup_Error e lock) \<Rightarrow> Inr (Raised e, Some lock, procs)
     | Inr (Setup_Done lock) \<Rightarrow>
         (case (if LockConflicts ! lockmode AND waitMask lock \<noteq> 0 then Inr True
                else LockCheckConflicts MyProc procs lockmode tag lock MyProc) of
            Inl e \<Rightarrow> Inl e
          | Inr False \<Rightarrow> Inr (Granted, Some (GrantLock lock MyProc lockmode), procs)
          | Inr True \<Rightarrow>
              (case lookup_proclock MyProc lock of
                 Inl e \<Rightarrow> Inl e
               | Inr proclock \<Rightarrow>
                   if dontWait
                   then let lock = (if holdMask proclock = 0 then del_proclock MyProc lock else lock)
                        in Inr (Not_Available,
                             Some (lock\<lparr>nRequested := nRequested lock - 1, requested := incr (-1) lockmode (requested lock)\<rparr>), procs)
                   else map_sum id (\<lambda>(status, r). (sleep_outcome status, r))
                          (ProcSleep MyProc tag lockmode
                             (lock, procs(MyProc := (procs MyProc)\<lparr>heldLocks := holdMask proclock\<rparr>))))))"

text \<open>
  The end of \<open>LockRelease\<close>, with the partition lock held; \<open>False\<close> when the process does not have the lock.
\<close>

definition release_in_table ::
  "nat \<Rightarrow> LOCKTAG \<Rightarrow> LOCKMODE \<Rightarrow> LOCK option \<times> procs \<Rightarrow> (bool \<times> LOCK option \<times> procs) result" where
  "release_in_table MyProc tag lockmode = (\<lambda>(entry, procs).
     case entry of
       None \<Rightarrow> Inl (ERROR ''failed to re-find shared lock object'')
     | Some lock \<Rightarrow>
         (case map_of (procLocks lock) MyProc of
            None \<Rightarrow> Inl (ERROR ''failed to re-find shared proclock object'')
          | Some proclock \<Rightarrow>
              if holdMask proclock AND LOCKBIT_ON lockmode = 0 then Inr (False, entry, procs)
              else let (wakeupNeeded, lock) = UnGrantLock lock lockmode MyProc
                   in map_sum id (Pair True) (CleanUpLock MyProc tag MyProc wakeupNeeded (lock, procs))))"

text \<open>
  The treatment of one proclock in the second loop of \<open>LockReleaseAll\<close>, with the partition lock held, and
  the marking of a mode for it in the first loop.
\<close>

definition mark_release :: "nat \<Rightarrow> LOCKMODE \<Rightarrow> LOCK option \<Rightarrow> LOCK option" where
  "mark_release MyProc lockmode entry =
     map_option (upd_proclock MyProc (\<lambda>pl. pl\<lparr>releaseMask := releaseMask pl OR LOCKBIT_ON lockmode\<rparr>)) entry"

fun ungrant_loop :: "LOCKMASK \<Rightarrow> nat \<Rightarrow> LOCKMODE list \<Rightarrow> bool \<times> LOCK \<Rightarrow> bool \<times> LOCK" where
  "ungrant_loop relMask p [] s = s"
| "ungrant_loop relMask p (i # is) (wakeupNeeded, lock) =
     (if relMask AND LOCKBIT_ON i \<noteq> 0
      then let (w, lock) = UnGrantLock lock i p in ungrant_loop relMask p is (wakeupNeeded \<or> w, lock)
      else ungrant_loop relMask p is (wakeupNeeded, lock))"

definition release_marked ::
  "nat \<Rightarrow> LOCKTAG \<Rightarrow> bool \<Rightarrow> LOCK option \<times> procs \<Rightarrow> (LOCK option \<times> procs) result" where
  "release_marked MyProc tag allLocks = (\<lambda>(entry, procs).
     case entry of
       None \<Rightarrow> Inl Undefined_Behaviour
     | Some lock \<Rightarrow>
         (case lookup_proclock MyProc lock of
            Inl e \<Rightarrow> Inl e
          | Inr proclock \<Rightarrow>
              let relMask = (if allLocks then holdMask proclock else releaseMask proclock) in
              if relMask = 0 \<and> holdMask proclock \<noteq> 0 then Inr (entry, procs)
              else
                let (wakeupNeeded, lock) = ungrant_loop relMask MyProc modes (False, lock);
                    lock = upd_proclock MyProc (\<lambda>pl. pl\<lparr>releaseMask := 0\<rparr>) lock
                in CleanUpLock MyProc tag MyProc wakeupNeeded (lock, procs)))"

section \<open>Masks and conflicts\<close>

named_theorems mask_simps \<open>membership of a lock mode in a mask\<close>

lemma bit_LOCKBIT_ON [mask_simps]: "bit (LOCKBIT_ON m) n \<longleftrightarrow> n = m \<and> m < 32"
  by (auto simp: LOCKBIT_ON_def bit_exp_iff)

lemma bit_LOCKBIT_OFF [mask_simps]: "bit (w AND LOCKBIT_OFF m) n \<longleftrightarrow> bit w n \<and> n \<noteq> m"
  by (auto simp: LOCKBIT_OFF_def bit_and_iff bit_not_iff bit_exp_iff dest: bit_imp_le_length)

lemma bit_or_ON [mask_simps]: "bit (w OR LOCKBIT_ON m) n \<longleftrightarrow> bit w n \<or> (n = m \<and> m < 32)"
  by (auto simp: bit_or_iff bit_LOCKBIT_ON)

lemma and_ON [mask_simps]: "w AND LOCKBIT_ON m \<noteq> 0 \<longleftrightarrow> bit w m" "w AND LOCKBIT_ON m = 0 \<longleftrightarrow> \<not> bit w m"
proof -
  show "w AND LOCKBIT_ON m \<noteq> 0 \<longleftrightarrow> bit w m"
  proof
    assume "bit w m"
    then have "bit (w AND LOCKBIT_ON m) m" by (auto simp: bit_and_iff bit_LOCKBIT_ON dest: bit_imp_le_length)
    then show "w AND LOCKBIT_ON m \<noteq> 0" by auto
  qed (auto simp: bit_and_iff bit_LOCKBIT_ON intro: bit_word_eqI)
  then show "w AND LOCKBIT_ON m = 0 \<longleftrightarrow> \<not> bit w m" by blast
qed

lemma and_nonzero: "v AND w \<noteq> 0 \<longleftrightarrow> (\<exists>n. bit v n \<and> bit w n)" for v w :: LOCKMASK
proof
  assume nz: "v AND w \<noteq> 0"
  show "\<exists>n. bit v n \<and> bit w n"
  proof (rule ccontr)
    assume "\<not> ?thesis"
    then have "v AND w = 0" by (intro bit_word_eqI) (auto simp: bit_and_iff)
    then show False using nz by contradiction
  qed
next
  assume "\<exists>n. bit v n \<and> bit w n"
  then obtain n where "bit (v AND w) n" by (auto simp: bit_and_iff)
  then show "v AND w \<noteq> 0" by auto
qed

lemma mask_nonzero: "w \<noteq> 0 \<longleftrightarrow> (\<exists>n. bit w n)" for w :: LOCKMASK
  using and_nonzero [of w w] by simp

lemma or_ON_nonzero: "m < 32 \<Longrightarrow> w OR LOCKBIT_ON m \<noteq> 0"
  by (auto simp: mask_nonzero bit_or_ON)

definition valid_mode :: "LOCKMODE \<Rightarrow> bool" where
  "valid_mode m \<longleftrightarrow> 1 \<le> m \<and> m \<le> MaxLockMode"

abbreviation conflict :: "LOCKMODE \<Rightarrow> LOCKMODE \<Rightarrow> bool" where
  "conflict m n \<equiv> bit (LockConflicts ! m) n"

lemma valid_mode_iff: "valid_mode m \<longleftrightarrow> m \<in> set [1..<9]"
  by (auto simp: valid_mode_def MaxLockMode_def)

lemma set_modes [simp]: "i \<in> set modes \<longleftrightarrow> valid_mode i" "distinct modes"
  by (auto simp: modes_def valid_mode_def)

lemma valid_mode_small: "valid_mode i \<Longrightarrow> i < MAX_LOCKMODES" "valid_mode i \<Longrightarrow> i < 32"
  by (auto simp: valid_mode_def MaxLockMode_def MAX_LOCKMODES_def)

lemmas mode_defs = AccessShareLock_def RowShareLock_def RowExclusiveLock_def ShareUpdateExclusiveLock_def
  ShareLock_def ShareRowExclusiveLock_def ExclusiveLock_def AccessExclusiveLock_def

lemma conflict_table:
  "conflict (Suc 0) n \<longleftrightarrow> n = 8" "conflict 2 n \<longleftrightarrow> n \<in> {7, 8}" "conflict 3 n \<longleftrightarrow> n \<in> {5, 6, 7, 8}"
  "conflict 4 n \<longleftrightarrow> n \<in> {4, 5, 6, 7, 8}" "conflict 5 n \<longleftrightarrow> n \<in> {3, 4, 6, 7, 8}"
  "conflict 6 n \<longleftrightarrow> n \<in> {3, 4, 5, 6, 7, 8}" "conflict 7 n \<longleftrightarrow> n \<in> {2, 3, 4, 5, 6, 7, 8}"
  "conflict 8 n \<longleftrightarrow> n \<in> {1, 2, 3, 4, 5, 6, 7, 8}"
  by (auto simp: LockConflicts_def mode_defs bit_or_iff bit_LOCKBIT_ON)

lemma valid_mode_cases:
  assumes "valid_mode m"
  obtains "m = 1" | "m = 2" | "m = 3" | "m = 4" | "m = 5" | "m = 6" | "m = 7" | "m = 8"
  using assms by (force simp: valid_mode_def MaxLockMode_def)

lemma conflict_valid: "valid_mode m \<Longrightarrow> conflict m n \<Longrightarrow> valid_mode n"
  by (erule valid_mode_cases) (auto simp: conflict_table valid_mode_def MaxLockMode_def)

lemma conflict_sym: "valid_mode m \<Longrightarrow> conflict m n \<Longrightarrow> conflict n m"
  by (erule valid_mode_cases) (auto simp: conflict_table)

section \<open>Holders and waiters\<close>

abbreviation entries :: "LOCK \<Rightarrow> (nat \<times> PROCLOCK) set" where
  "entries l \<equiv> set (procLocks l)"

definition holders_n :: "LOCK \<Rightarrow> LOCKMODE \<Rightarrow> nat" where
  "holders_n l m = length (filter (\<lambda>(q, pl). bit (holdMask pl) m) (procLocks l))"

definition waiters_n :: "procs \<Rightarrow> LOCK \<Rightarrow> LOCKMODE \<Rightarrow> nat" where
  "waiters_n procs l m = length (filter (\<lambda>q. waitLockMode (procs q) = m) (waitProcs l))"

definition leader_of :: "procs \<Rightarrow> nat \<Rightarrow> nat" where
  "leader_of procs p = (case lockGroupLeader (procs p) of None \<Rightarrow> p | Some l \<Rightarrow> l)"

definition same_group :: "LOCKTAG \<Rightarrow> PROCLOCK \<Rightarrow> PROCLOCK \<Rightarrow> bool" where
  "same_group t pl pl' \<longleftrightarrow> groupLeader pl = groupLeader pl' \<and> locktag_type t \<noteq> LOCKTAG_RELATION_EXTEND"

text \<open>A request of \<open>p\<close> for mode \<open>m\<close> conflicts with what others outside its group hold.\<close>

definition real_conflict :: "LOCKTAG \<Rightarrow> LOCK \<Rightarrow> nat \<Rightarrow> LOCKMODE \<Rightarrow> bool" where
  "real_conflict t l p m \<longleftrightarrow>
     (\<exists>pl q pl' n. (p, pl) \<in> entries l \<and> (q, pl') \<in> entries l \<and> q \<noteq> p \<and> bit (holdMask pl') n \<and> conflict m n \<and>
        \<not> same_group t pl pl')"

section \<open>What LockCheckConflicts computes\<close>

definition weight :: "LOCKMASK \<Rightarrow> PROCLOCK \<Rightarrow> int" where
  "weight cm pl = sum_list (map (\<lambda>i. of_bool (bit (holdMask pl AND cm) i)) modes)"

lemma weight_nonneg: "0 \<le> weight cm pl"
  unfolding weight_def by (rule sum_list_nonneg) auto

lemma sum_list_eq_0: "(\<And>x. x \<in> set xs \<Longrightarrow> 0 \<le> (f x :: int)) \<Longrightarrow> sum_list (map f xs) = 0 \<longleftrightarrow> (\<forall>x \<in> set xs. f x = 0)"
  using sum_list_nonneg_eq_0_iff [of "map f xs"] by auto

lemma weight_zero:
  assumes "\<And>i. bit cm i \<Longrightarrow> valid_mode i"
  shows "weight cm pl = 0 \<longleftrightarrow> holdMask pl AND cm = 0"
proof -
  have "weight cm pl = 0 \<longleftrightarrow> (\<forall>i. valid_mode i \<longrightarrow> \<not> bit (holdMask pl AND cm) i)"
    unfolding weight_def by (subst sum_list_eq_0) auto
  also have "\<dots> \<longleftrightarrow> holdMask pl AND cm = 0"
    using assms and_nonzero [of "holdMask pl" cm] by (auto simp: bit_and_iff)
  finally show ?thesis .
qed

lemma subtract_modes:
  assumes "distinct is" "\<forall>i \<in> set is. i < length rem"
    "\<forall>i \<in> set is. bit msk i \<longrightarrow> 0 < rem ! i"
  shows "fold_result (subtract_mode msk) is (rem, tot) =
    Inr (map (\<lambda>i. rem ! i - of_bool (i \<in> set is \<and> bit msk i)) [0..<length rem],
      tot - sum_list (map (\<lambda>i. of_bool (bit msk i)) is))"
  using assms
proof (induction "is" arbitrary: rem tot)
  case Nil
  then show ?case by (simp add: map_nth)
next
  case (Cons i "is")
  show ?case
  proof (cases "bit msk i")
    case False
    have "map (\<lambda>j. rem ! j - of_bool (j \<in> set is \<and> bit msk j)) [0..<length rem] =
        map (\<lambda>j. rem ! j - of_bool (j \<in> set (i # is) \<and> bit msk j)) [0..<length rem]"
      using False by auto
    then show ?thesis using Cons False by (simp add: subtract_mode_def and_ON)
  next
    case True
    define rem' where "rem' = incr (-1) i rem"
    have "map (\<lambda>j. rem' ! j - of_bool (j \<in> set is \<and> bit msk j)) [0..<length rem'] =
        map (\<lambda>j. rem ! j - of_bool (j \<in> set (i # is) \<and> bit msk j)) [0..<length rem]"
      using True Cons.prems by (auto simp: rem'_def incr_def nth_list_update)
    moreover have "fold_result (subtract_mode msk) (i # is) (rem, tot) =
        fold_result (subtract_mode msk) is (rem', tot - 1)"
      using True Cons.prems(3) by (simp add: subtract_mode_def and_ON rem'_def)
    moreover have "\<forall>j \<in> set is. bit msk j \<longrightarrow> 0 < rem' ! j" "\<forall>j \<in> set is. j < length rem'"
      using Cons.prems by (auto simp: rem'_def incr_def nth_list_update)
    ultimately show ?thesis using Cons.IH [of rem' "tot - 1"] Cons.prems(1) True by simp
  qed
qed

text \<open>How many entries other than the one of \<open>p\<close> hold mode \<open>i\<close> of the mask, by group.\<close>

definition others_n :: "(PROCLOCK \<Rightarrow> bool) \<Rightarrow> LOCKMASK \<Rightarrow> nat \<Rightarrow> (nat \<times> PROCLOCK) list \<Rightarrow> LOCKMODE \<Rightarrow> nat" where
  "others_n P cm p ps i = length (filter (\<lambda>(q, pl). p \<noteq> q \<and> P pl \<and> bit (holdMask pl AND cm) i) ps)"

lemma others_n_Cons:
  "others_n P cm p ((q, pl) # ps) i = of_bool (p \<noteq> q \<and> P pl \<and> bit (holdMask pl AND cm) i) + others_n P cm p ps i"
  by (simp add: others_n_def)

lemma sum_list_base_le:
  "(\<And>i. i \<in> set is \<Longrightarrow> (f i :: int) \<le> g i) \<Longrightarrow> sum_list (map f is) \<le> sum_list (map g is)"
  by (rule sum_list_mono)

lemma group_conflicts_result:
  assumes "length rem = MAX_LOCKMODES"
    and "\<forall>i \<in> set modes. rem ! i = base i + int (others_n (\<lambda>pl. leader = groupLeader pl) cm p ps i) \<and> 0 \<le> base i"
    and "tot = sum_list (map ((!) rem) modes)" "tot \<noteq> 0"
  shows "group_conflicts cm p leader ps (rem, tot) = Inr (sum_list (map base modes) \<noteq> 0)"
  using assms
proof (induction ps arbitrary: rem tot)
  case Nil
  have "sum_list (map ((!) rem) modes) = sum_list (map base modes)"
    using Nil by (intro arg_cong [where f = sum_list] map_cong) (auto simp: others_n_def)
  then show ?case using Nil by simp
next
  case (Cons x ps)
  obtain q pl where x: "x = (q, pl)" by (cases x)
  let ?m = "holdMask pl AND cm"
  show ?case
  proof (cases "p \<noteq> q \<and> leader = groupLeader pl \<and> ?m \<noteq> 0")
    case False
    then have "others_n (\<lambda>pl. leader = groupLeader pl) cm p (x # ps) i = others_n (\<lambda>pl. leader = groupLeader pl) cm p ps i" for i
      by (auto simp: x others_n_Cons)
    then have "group_conflicts cm p leader ps (rem, tot) = Inr (sum_list (map base modes) \<noteq> 0)"
      using Cons.prems by (intro Cons.IH) simp_all
    moreover have "group_conflicts cm p leader (x # ps) (rem, tot) = group_conflicts cm p leader ps (rem, tot)"
      using False by (simp only: x group_conflicts.simps if_False)
    ultimately show ?thesis by simp
  next
    case True
    define rem' where "rem' = map (\<lambda>i. rem ! i - of_bool (i \<in> set modes \<and> bit ?m i)) [0..<length rem]"
    define tot' where "tot' = tot - sum_list (map (\<lambda>i. of_bool (bit ?m i)) modes)"
    have lt: "\<forall>i \<in> set modes. i < length rem" using Cons.prems(1) valid_mode_small by auto
    have pos: "\<forall>i \<in> set modes. bit ?m i \<longrightarrow> 0 < rem ! i" using Cons.prems(2) True by (auto simp: x others_n_Cons)
    have sub: "fold_result (subtract_mode ?m) modes (rem, tot) = Inr (rem', tot')"
      unfolding rem'_def tot'_def using lt pos by (intro subtract_modes) simp_all
    have r: "rem' ! i = rem ! i - of_bool (bit ?m i)" if "i \<in> set modes" for i
      using that lt by (simp add: rem'_def)
    have base: "\<forall>i \<in> set modes. rem' ! i = base i + int (others_n (\<lambda>pl. leader = groupLeader pl) cm p ps i) \<and> 0 \<le> base i"
      using Cons.prems(2) r True by (simp add: x others_n_Cons)
    have "sum_list (map ((!) rem') modes) = sum_list (map (\<lambda>i. rem ! i - of_bool (bit ?m i)) modes)"
      using r by (intro arg_cong [where f = sum_list] map_cong) auto
    then have tot: "tot' = sum_list (map ((!) rem') modes)"
      by (simp add: tot'_def Cons.prems(3) sum_list_subtractf comp_def)
    have "sum_list (map base modes) \<le> tot'" unfolding tot by (rule sum_list_mono) (use base in auto)
    moreover have "0 \<le> sum_list (map base modes)" by (rule sum_list_nonneg) (use base in auto)
    ultimately have "tot' = 0 \<Longrightarrow> sum_list (map base modes) = 0" by linarith
    moreover have "tot' \<noteq> 0 \<Longrightarrow> group_conflicts cm p leader ps (rem', tot') = Inr (sum_list (map base modes) \<noteq> 0)"
      using base tot by (intro Cons.IH) (simp_all add: rem'_def Cons.prems(1))
    ultimately show ?thesis using True sub by (simp add: x)
  qed
qed

text \<open>The counters agree with the entries.\<close>

definition granted_ok :: "LOCK \<Rightarrow> bool" where
  "granted_ok l \<longleftrightarrow> length (granted l) = MAX_LOCKMODES \<and>
     (\<forall>m < MAX_LOCKMODES. granted l ! m = int (holders_n l m)) \<and>
     (\<forall>m. bit (grantMask l) m \<longleftrightarrow> (\<exists>(q, pl) \<in> entries l. bit (holdMask pl) m)) \<and>
     distinct (map fst (procLocks l)) \<and>
     (\<forall>(q, pl) \<in> entries l. \<forall>m. bit (holdMask pl) m \<longrightarrow> valid_mode m) \<and>
     (\<forall>(q, pl) \<in> entries l. \<forall>m. bit (releaseMask pl) m \<longrightarrow> bit (holdMask pl) m)"

lemma entry_unique: "granted_ok l \<Longrightarrow> (q, pl) \<in> entries l \<Longrightarrow> (q, pl') \<in> entries l \<Longrightarrow> pl = pl'"
  by (auto simp: granted_ok_def dest: eq_key_imp_eq_value)

lemma held_valid: "granted_ok l \<Longrightarrow> (q, pl) \<in> entries l \<Longrightarrow> bit (holdMask pl) m \<Longrightarrow> valid_mode m"
  by (auto simp: granted_ok_def)

lemma marked_held: "granted_ok l \<Longrightarrow> (q, pl) \<in> entries l \<Longrightarrow> bit (releaseMask pl) m \<Longrightarrow> bit (holdMask pl) m"
  by (auto simp: granted_ok_def)

lemma lookup_entry: "granted_ok l \<Longrightarrow> (p, pl) \<in> entries l \<Longrightarrow> lookup_proclock p l = Inr pl"
  by (auto simp: granted_ok_def lookup_proclock_def map_of_eq_Some_iff split: option.splits)

lemma holders_others:
  "distinct (map fst ps) \<Longrightarrow> (p, pl) \<in> set ps \<Longrightarrow> bit cm i \<Longrightarrow>
   int (length (filter (\<lambda>(q, pl). bit (holdMask pl) i) ps)) - (if bit (holdMask pl) i then 1 else 0) =
   int (others_n (\<lambda>_. True) cm p ps i)"
proof (induction ps)
  case (Cons x ps)
  obtain q pl' where x: "x = (q, pl')" by (cases x)
  have none: "others_n (\<lambda>_. True) cm p ps i = length (filter (\<lambda>(q, pl). bit (holdMask pl) i) ps)" if "p \<notin> fst ` set ps"
    unfolding others_n_def using that Cons.prems(3)
    by (intro arg_cong [where f = length] filter_cong) (auto simp: bit_and_iff image_iff)
  show ?case
  proof (cases "p = q")
    case True
    then have "p \<notin> fst ` set ps" "pl = pl'" using Cons.prems x by force+
    then show ?thesis using True none by (simp add: x others_n_Cons)
  next
    case False
    then show ?thesis using Cons by (auto simp: x others_n_Cons bit_and_iff)
  qed
qed simp

lemma others_split: "others_n (\<lambda>_. True) cm p ps i = others_n (\<lambda>pl. \<not> P pl) cm p ps i + others_n P cm p ps i"
  by (induction ps) (auto simp: others_n_def)

lemma others_zero:
  assumes "\<And>i. bit cm i \<Longrightarrow> valid_mode i"
  shows "sum_list (map (\<lambda>i. int (others_n P cm p ps i)) modes) = 0 \<longleftrightarrow>
    \<not> (\<exists>q pl n. (q, pl) \<in> set ps \<and> p \<noteq> q \<and> P pl \<and> bit (holdMask pl) n \<and> bit cm n)"
proof -
  have "sum_list (map (\<lambda>i. int (others_n P cm p ps i)) modes) = 0 \<longleftrightarrow> (\<forall>i \<in> set modes. others_n P cm p ps i = 0)"
    by (subst sum_list_eq_0) auto
  also have "\<dots> \<longleftrightarrow> \<not> (\<exists>q pl n. (q, pl) \<in> set ps \<and> p \<noteq> q \<and> P pl \<and> bit (holdMask pl) n \<and> bit cm n)"
    using assms by (fastforce simp: others_n_def filter_empty_conv bit_and_iff)
  finally show ?thesis .
qed

text \<open>
  The shortcut for a process outside any group: nobody else has it as leader.
\<close>

definition leaders_ok :: "procs \<Rightarrow> LOCK \<Rightarrow> bool" where
  "leaders_ok procs l \<longleftrightarrow>
     (\<forall>(q, pl) \<in> entries l. groupLeader pl = leader_of procs q \<and>
        (\<forall>g. lockGroupLeader (procs q) = Some g \<longrightarrow> lockGroupLeader (procs g) = Some g))"

lemma LockCheckConflicts_correct:
  assumes ok: "granted_ok l" "leaders_ok procs l" and p: "(p, pl) \<in> entries l" and m: "valid_mode m"
  shows "LockCheckConflicts me procs m t l p = Inr (real_conflict t l p m)"
proof -
  let ?cm = "LockConflicts ! m"
  let ?ps = "procLocks l"
  have cm: "\<And>i. bit ?cm i \<Longrightarrow> valid_mode i" using m conflict_valid by blast
  define rem where "rem = map (conflictsRemaining ?cm (holdMask pl) l) [0..<MAX_LOCKMODES]"
  define tot where "tot = sum_list (map ((!) rem) modes)"
  have small: "i < MAX_LOCKMODES" if "i \<in> set modes" for i using that valid_mode_small by simp
  have rem: "rem ! i = int (others_n (\<lambda>_. True) ?cm p ?ps i)" if "i \<in> set modes" for i
    using holders_others [of ?ps p pl ?cm i] ok(1) p small [OF that]
    by (auto simp: rem_def conflictsRemaining_def mask_simps granted_ok_def holders_n_def others_n_def bit_and_iff)
  have tot: "tot = 0 \<longleftrightarrow> \<not> (\<exists>q pl' n. (q, pl') \<in> entries l \<and> p \<noteq> q \<and> bit (holdMask pl') n \<and> conflict m n)"
  proof -
    have "tot = sum_list (map (\<lambda>i. int (others_n (\<lambda>_. True) ?cm p ?ps i)) modes)"
      unfolding tot_def using rem by (intro arg_cong [where f = sum_list] map_cong) auto
    then show ?thesis using others_zero [of ?cm "\<lambda>_. True" p ?ps, OF cm] by simp
  qed
  have none: "\<not> real_conflict t l p m" if "tot = 0" using that tot by (auto simp: real_conflict_def)
  have group: "group_conflicts ?cm p (groupLeader pl) ?ps (rem, tot) =
      Inr (\<exists>q pl' n. (q, pl') \<in> entries l \<and> p \<noteq> q \<and> groupLeader pl \<noteq> groupLeader pl' \<and> bit (holdMask pl') n \<and> conflict m n)"
    if "tot \<noteq> 0"
  proof -
    have "group_conflicts ?cm p (groupLeader pl) ?ps (rem, tot) =
        Inr (sum_list (map (\<lambda>i. int (others_n (\<lambda>pl'. groupLeader pl \<noteq> groupLeader pl') ?cm p ?ps i)) modes) \<noteq> 0)"
    proof (rule group_conflicts_result)
      show "length rem = MAX_LOCKMODES" by (simp add: rem_def)
      show "\<forall>i \<in> set modes. rem ! i = int (others_n (\<lambda>pl'. groupLeader pl \<noteq> groupLeader pl') ?cm p ?ps i) +
          int (others_n (\<lambda>pl'. groupLeader pl = groupLeader pl') ?cm p ?ps i) \<and>
          0 \<le> int (others_n (\<lambda>pl'. groupLeader pl \<noteq> groupLeader pl') ?cm p ?ps i)"
        using rem others_split [of ?cm p ?ps _ "\<lambda>pl'. groupLeader pl = groupLeader pl'"] by simp
    qed (use that in \<open>simp_all add: tot_def\<close>)
    then show ?thesis using others_zero [of ?cm "\<lambda>pl'. groupLeader pl \<noteq> groupLeader pl'" p ?ps, OF cm] by auto
  qed
  have mask: "?cm AND grantMask l = 0 \<Longrightarrow> tot = 0"
    using and_nonzero [of ?cm "grantMask l"] ok(1) tot unfolding granted_ok_def by fastforce
  have alone: "groupLeader pl' \<noteq> groupLeader pl"
    if "groupLeader pl = me" "lockGroupLeader (procs me) = None" "(q, pl') \<in> entries l" "p \<noteq> q" for q pl'
  proof -
    have "x = me" if "(x, y) \<in> entries l" "groupLeader y = me" for x y
      using ok(2) that \<open>lockGroupLeader (procs me) = None\<close>
      by (cases "lockGroupLeader (procs x)") (auto simp: leaders_ok_def leader_of_def)
    then show ?thesis using p that by metis
  qed
  have rc: "real_conflict t l p m \<longleftrightarrow>
      (\<exists>q pl' n. (q, pl') \<in> entries l \<and> p \<noteq> q \<and> bit (holdMask pl') n \<and> conflict m n \<and> \<not> same_group t pl pl')"
    using p entry_unique [OF ok(1) p] unfolding real_conflict_def by metis
  have step: "LockCheckConflicts me procs m t l p =
      (if ?cm AND grantMask l = 0 \<or> tot = 0 then Inr False
       else if groupLeader pl = me \<and> lockGroupLeader (procs me) = None \<or> locktag_type t = LOCKTAG_RELATION_EXTEND
       then Inr True else group_conflicts ?cm p (groupLeader pl) ?ps (rem, tot))"
    by (simp add: LockCheckConflicts_def lookup_entry [OF ok(1) p] rem_def tot_def Let_def)
  consider "tot = 0" | "tot \<noteq> 0" "groupLeader pl = me \<and> lockGroupLeader (procs me) = None"
    | "tot \<noteq> 0" "locktag_type t = LOCKTAG_RELATION_EXTEND"
    | "tot \<noteq> 0" "\<not> (groupLeader pl = me \<and> lockGroupLeader (procs me) = None)" "locktag_type t \<noteq> LOCKTAG_RELATION_EXTEND"
    by blast
  then show ?thesis
  proof cases
    case 1
    then show ?thesis using none by (simp add: step)
  next
    case 2
    then have "real_conflict t l p m" using tot alone unfolding rc same_group_def by metis
    then show ?thesis using 2 mask by (auto simp: step)
  next
    case 3
    then have "real_conflict t l p m" using tot unfolding rc same_group_def by metis
    then show ?thesis using 3 mask by (auto simp: step)
  next
    case 4
    then have "LockCheckConflicts me procs m t l p = group_conflicts ?cm p (groupLeader pl) ?ps (rem, tot)"
      using mask by (auto simp: step)
    then show ?thesis using group [OF 4(1)] 4(3) unfolding rc same_group_def by auto
  qed
qed

section \<open>The invariant of a lock\<close>

text \<open>
  \<open>pm\<close> is the mode of a request that has been counted but neither granted nor queued yet, \<open>E\<close> are the
  processes whose entry may for the moment have nothing to hold.
\<close>

definition queue_ok :: "procs \<Rightarrow> LOCKTAG \<Rightarrow> LOCK \<Rightarrow> LOCKMODE option \<Rightarrow> bool" where
  "queue_ok procs t l pm \<longleftrightarrow>
     distinct (waitProcs l) \<and>
     (\<forall>q \<in> set (waitProcs l). waitLock (procs q) = Some t \<and> waitStatus (procs q) = PROC_WAIT_STATUS_WAITING \<and>
        valid_mode (waitLockMode (procs q)) \<and>
        (\<exists>pl. (q, pl) \<in> entries l \<and> \<not> bit (holdMask pl) (waitLockMode (procs q)))) \<and>
     (\<forall>q \<in> set (waitProcs l). bit (waitMask l) (waitLockMode (procs q))) \<and>
     (\<forall>m. bit (waitMask l) m \<longrightarrow> m \<in> (\<lambda>q. waitLockMode (procs q)) ` set (waitProcs l) \<or> pm = Some m)"

definition requested_ok :: "procs \<Rightarrow> LOCK \<Rightarrow> LOCKMODE option \<Rightarrow> bool" where
  "requested_ok procs l pm \<longleftrightarrow>
     length (requested l) = MAX_LOCKMODES \<and>
     (\<forall>m < MAX_LOCKMODES. requested l ! m = granted l ! m + int (waiters_n procs l m) + of_bool (pm = Some m)) \<and>
     nGranted l = sum_list (granted l) \<and> nRequested l = sum_list (requested l)"

text \<open>
  Conflicting modes are held only within a lock group.  The pairs of \<open>X\<close> do not count: modes that a process
  is about to release, and that it no longer protects from locks taken through the fast path.
\<close>

definition exclusive :: "(nat \<times> LOCKMODE) set \<Rightarrow> LOCKTAG \<Rightarrow> LOCK \<Rightarrow> bool" where
  "exclusive X t l \<longleftrightarrow>
     (\<forall>(q, pl) \<in> entries l. \<forall>(q', pl') \<in> entries l. \<forall>n n'.
        q \<noteq> q' \<and> (q, n) \<notin> X \<and> (q', n') \<notin> X \<and> bit (holdMask pl) n \<and> bit (holdMask pl') n' \<and> conflict n n' \<longrightarrow> same_group t pl pl')"

definition entries_used :: "nat set \<Rightarrow> LOCK \<Rightarrow> bool" where
  "entries_used E l \<longleftrightarrow> (\<forall>(q, pl) \<in> entries l. holdMask pl \<noteq> 0 \<or> q \<in> set (waitProcs l) \<or> q \<in> E)"

definition lock_inv :: "(nat \<times> LOCKMODE) set \<Rightarrow> procs \<Rightarrow> LOCKTAG \<Rightarrow> LOCK \<Rightarrow> nat set \<Rightarrow> LOCKMODE option \<Rightarrow> bool" where
  "lock_inv X procs t l E pm \<longleftrightarrow>
     granted_ok l \<and> leaders_ok procs l \<and> queue_ok procs t l pm \<and> requested_ok procs l pm \<and> exclusive X t l \<and> entries_used E l"

lemma lock_invD:
  assumes "lock_inv X procs t l E pm"
  shows "granted_ok l" "leaders_ok procs l" "queue_ok procs t l pm" "requested_ok procs l pm" "exclusive X t l" "entries_used E l"
  using assms by (simp_all add: lock_inv_def)

lemma LockCheckConflicts_inv:
  "lock_inv X procs t l E pm \<Longrightarrow> (p, pl) \<in> entries l \<Longrightarrow> valid_mode m \<Longrightarrow>
   LockCheckConflicts me procs m t l p = Inr (real_conflict t l p m)"
  by (rule LockCheckConflicts_correct) (auto dest: lock_invD)

lemma queue_okD:
  assumes "queue_ok procs t l pm" "q \<in> set (waitProcs l)"
  shows "waitLock (procs q) = Some t" "waitStatus (procs q) = PROC_WAIT_STATUS_WAITING" "valid_mode (waitLockMode (procs q))"
    "\<exists>pl. (q, pl) \<in> entries l \<and> \<not> bit (holdMask pl) (waitLockMode (procs q))" "bit (waitMask l) (waitLockMode (procs q))"
  using assms unfolding queue_ok_def by blast+

section \<open>Entries after an update\<close>

lemma entries_upd: "(q, x) \<in> entries (upd_proclock p f l) \<longleftrightarrow> (\<exists>pl. (q, pl) \<in> entries l \<and> x = (if q = p then f pl else pl))"
  by (force simp: upd_proclock_def)

lemma fst_upd [simp]: "map fst (procLocks (upd_proclock p f l)) = map fst (procLocks l)"
  by (simp add: upd_proclock_def comp_def case_prod_beta)

lemma upd_fields [simp]:
  "grantMask (upd_proclock p f l) = grantMask l" "waitMask (upd_proclock p f l) = waitMask l"
  "waitProcs (upd_proclock p f l) = waitProcs l" "requested (upd_proclock p f l) = requested l"
  "nRequested (upd_proclock p f l) = nRequested l" "granted (upd_proclock p f l) = granted l"
  "nGranted (upd_proclock p f l) = nGranted l"
  by (simp_all add: upd_proclock_def)

lemma filter_upd:
  assumes "distinct (map fst ps)" "(p, pl) \<in> set ps"
  shows "int (length (filter P (map (\<lambda>(q, pl). (q, if q = p then f pl else pl)) ps))) =
    int (length (filter P ps)) - of_bool (P (p, pl)) + of_bool (P (p, f pl))"
  using assms
proof (induction ps)
  case (Cons x ps)
  show ?case
  proof (cases "fst x = p")
    case True
    then have "map (\<lambda>(q, pl). (q, if q = p then f pl else pl)) ps = ps"
      using Cons.prems by (intro map_idI) (auto simp: image_iff split: if_splits)
    moreover have "x = (p, pl)" using True Cons.prems by (cases x) (auto simp: image_iff)
    ultimately show ?thesis by simp
  next
    case False
    then show ?thesis using Cons by (cases x) auto
  qed
qed simp

lemma holders_upd:
  assumes "granted_ok l" "(p, pl) \<in> entries l"
  shows "int (holders_n (upd_proclock p f l) m) =
    int (holders_n l m) - of_bool (bit (holdMask pl) m) + of_bool (bit (holdMask (f pl)) m)"
  using filter_upd [of "procLocks l" p pl "\<lambda>(q, pl). bit (holdMask pl) m" f] assms
  by (simp add: holders_n_def upd_proclock_def granted_ok_def)

lemma length_incr [simp]: "length (incr d m xs) = length xs"
  by (simp add: incr_def)

lemma nth_incr: "m < length xs \<Longrightarrow> incr d m xs ! i = (if i = m then xs ! i + d else xs ! i)"
  by (simp add: incr_def nth_list_update)

lemma sum_list_incr: "m < length xs \<Longrightarrow> sum_list (incr d m xs) = sum_list xs + d"
  unfolding incr_def by (induction xs arbitrary: m) (auto split: nat.splits)

lemma holders_pos: "(q, pl) \<in> entries l \<Longrightarrow> bit (holdMask pl) m \<Longrightarrow> 0 < holders_n l m"
  by (auto simp: holders_n_def filter_empty_conv)

lemma holders_zero: "holders_n l m = 0 \<longleftrightarrow> \<not> (\<exists>(q, pl) \<in> entries l. bit (holdMask pl) m)"
  by (auto simp: holders_n_def filter_empty_conv)

lemma holders_pos_iff: "(\<exists>(q, pl) \<in> entries l. bit (holdMask pl) m) \<longleftrightarrow> 0 < holders_n l m"
  using holders_zero [of l m] by linarith

lemma waiters_zero: "waiters_n procs l m = 0 \<longleftrightarrow> m \<notin> (\<lambda>q. waitLockMode (procs q)) ` set (waitProcs l)"
  by (auto simp: waiters_n_def filter_empty_conv)

section \<open>Granting\<close>

lemma GrantLock_fields:
  "procLocks (GrantLock l p m) = procLocks (upd_proclock p (\<lambda>pl. pl\<lparr>holdMask := holdMask pl OR LOCKBIT_ON m\<rparr>) l)"
  "waitProcs (GrantLock l p m) = waitProcs l" "requested (GrantLock l p m) = requested l"
  "nRequested (GrantLock l p m) = nRequested l" "granted (GrantLock l p m) = incr 1 m (granted l)"
  "nGranted (GrantLock l p m) = nGranted l + 1" "grantMask (GrantLock l p m) = grantMask l OR LOCKBIT_ON m"
  "waitMask (GrantLock l p m) = (if incr 1 m (granted l) ! m = requested l ! m then waitMask l AND LOCKBIT_OFF m else waitMask l)"
  by (simp_all add: GrantLock_def Let_def upd_proclock_def)

lemma entries_Grant: "(q, x) \<in> entries (GrantLock l p m) \<longleftrightarrow>
   (\<exists>pl. (q, pl) \<in> entries l \<and> x = (if q = p then pl\<lparr>holdMask := holdMask pl OR LOCKBIT_ON m\<rparr> else pl))"
  unfolding GrantLock_fields(1) by (rule entries_upd)

lemma GrantLock_granted_ok:
  assumes "granted_ok l" "(p, pl) \<in> entries l" "\<not> bit (holdMask pl) m" "valid_mode m"
  shows "granted_ok (GrantLock l p m)"
proof -
  have small: "m < MAX_LOCKMODES" "m < 32" using assms(4) valid_mode_small by auto
  have h: "int (holders_n (GrantLock l p m) i) = int (holders_n l i) + of_bool (i = m)" for i
    using holders_upd [OF assms(1,2), of "\<lambda>pl. pl\<lparr>holdMask := holdMask pl OR LOCKBIT_ON m\<rparr>" i] assms(3) small
    unfolding holders_n_def GrantLock_fields(1) by (auto simp: bit_or_ON)
  have mask: "bit (grantMask (GrantLock l p m)) i \<longleftrightarrow> (\<exists>(q, pl) \<in> entries (GrantLock l p m). bit (holdMask pl) i)" for i
  proof -
    have "bit (grantMask (GrantLock l p m)) i \<longleftrightarrow> 0 < holders_n l i \<or> i = m"
      using assms(1) small holders_zero [of l i] by (auto simp: GrantLock_fields bit_or_ON granted_ok_def)
    also have "\<dots> \<longleftrightarrow> 0 < holders_n (GrantLock l p m) i" using h [of i] by (cases "i = m") auto
    also have "\<dots> \<longleftrightarrow> (\<exists>(q, pl) \<in> entries (GrantLock l p m). bit (holdMask pl) i)"
      using holders_zero [of "GrantLock l p m" i] by auto
    finally show ?thesis .
  qed
  have "\<forall>i < MAX_LOCKMODES. granted (GrantLock l p m) ! i = int (holders_n (GrantLock l p m) i)"
    using h assms(1) small by (auto simp: GrantLock_fields nth_incr granted_ok_def)
  moreover have "\<forall>(q, pl) \<in> entries (GrantLock l p m). \<forall>i. bit (holdMask pl) i \<longrightarrow> valid_mode i"
    using held_valid [OF assms(1)] assms(4) by (auto simp: entries_Grant bit_or_ON split: if_splits)
  moreover have "\<forall>(q, pl) \<in> entries (GrantLock l p m). \<forall>i. bit (releaseMask pl) i \<longrightarrow> bit (holdMask pl) i"
    using marked_held [OF assms(1)] by (auto simp: entries_Grant bit_or_ON split: if_splits)
  ultimately show ?thesis
    using mask assms(1) unfolding granted_ok_def GrantLock_fields(1,5) by simp
qed

definition grantable :: "(nat \<times> LOCKMODE) set \<Rightarrow> LOCKTAG \<Rightarrow> LOCK \<Rightarrow> nat \<Rightarrow> LOCKMODE \<Rightarrow> bool" where
  "grantable X t l p m \<longleftrightarrow>
     (\<forall>pl q a n. (p, pl) \<in> entries l \<and> (q, a) \<in> entries l \<and> q \<noteq> p \<and> (q, n) \<notin> X \<and> bit (holdMask a) n \<and> conflict m n \<longrightarrow>
        same_group t pl a)"

lemma no_conflict_grantable: "\<not> real_conflict t l p m \<Longrightarrow> grantable X t l p m"
  by (auto simp: grantable_def real_conflict_def)

lemma GrantLock_exclusive:
  assumes "exclusive X t l" "granted_ok l" "(p, pl) \<in> entries l" "valid_mode m" "grantable X t l p m"
  shows "exclusive X t (GrantLock l p m)"
proof -
  let ?h = "\<lambda>pl. pl\<lparr>holdMask := holdMask pl OR LOCKBIT_ON m\<rparr>"
  have sg: "same_group t (?h a) b = same_group t a b" "same_group t a (?h b) = same_group t a b" for a b
    by (simp_all add: same_group_def)
  have sym: "same_group t a b = same_group t b a" for a b by (auto simp: same_group_def)
  have nc: "same_group t pl pl'" if "(q, pl') \<in> entries l" "q \<noteq> p" "(q, n) \<notin> X" "bit (holdMask pl') n" "conflict m n" for q pl' n
    using assms(3,5) that unfolding grantable_def by blast
  have old: "same_group t a b"
    if "(q, a) \<in> entries l" "(q', b) \<in> entries l" "q \<noteq> q'" "(q, n) \<notin> X" "(q', n') \<notin> X" "bit (holdMask a) n" "bit (holdMask b) n'" "conflict n n'" for q q' a b n n'
    using assms(1) that unfolding exclusive_def by blast
  have valid: "valid_mode n" if "(q, a) \<in> entries l" "bit (holdMask a) n" for q a n
    using held_valid [OF assms(2)] that .
  have p: "a = pl" if "(p, a) \<in> entries l" for a using entry_unique [OF assms(2) that assms(3)] .
  show ?thesis
    unfolding exclusive_def
  proof (clarify)
    fix q x q' x' n n'
    assume e: "(q, x) \<in> entries (GrantLock l p m)" "(q', x') \<in> entries (GrantLock l p m)" and ne: "q \<noteq> q'" and X: "(q, n) \<notin> X" "(q', n') \<notin> X"
      and b: "bit (holdMask x) n" "bit (holdMask x') n'" "conflict n n'"
    obtain a where a: "(q, a) \<in> entries l" "x = (if q = p then ?h a else a)" using e(1) by (auto simp: entries_Grant)
    obtain a' where a': "(q', a') \<in> entries l" "x' = (if q' = p then ?h a' else a')" using e(2) by (auto simp: entries_Grant)
    consider "bit (holdMask a) n" "bit (holdMask a') n'" | "q = p" "n = m" "bit (holdMask a') n'" | "q' = p" "n' = m" "bit (holdMask a) n"
      using a a' b ne by (auto simp: bit_or_ON split: if_splits)
    then have "same_group t a a'"
    proof cases
      case 1
      then show ?thesis using old [OF a(1) a'(1) ne X _ _ b(3)] by blast
    next
      case 2
      then show ?thesis using nc [OF a'(1) _ X(2)] p a(1) b(3) ne by blast
    next
      case 3
      then have "conflict m n" using conflict_sym [OF valid [OF a(1) 3(3)]] b(3) by blast
      then show ?thesis using nc [OF a(1) _ X(1)] p a'(1) 3 ne sym by blast
    qed
    then show "same_group t x x'" using a(2) a'(2) by (auto simp: sg)
  qed
qed

lemma waiters_Grant [simp]: "waiters_n procs (GrantLock l p m) = waiters_n procs l"
  by (simp add: waiters_n_def GrantLock_fields fun_eq_iff)

lemma GrantLock_queue_ok:
  assumes "queue_ok procs t l (Some m)" "requested_ok procs l (Some m)" "granted_ok l" "valid_mode m"
    and "p \<in> set (waitProcs l) \<Longrightarrow> waitLockMode (procs p) \<noteq> m"
  shows "queue_ok procs t (GrantLock l p m) None"
proof -
  have small: "m < MAX_LOCKMODES" "m < 32" using assms(4) valid_mode_small by auto
  let ?ws = "(\<lambda>q. waitLockMode (procs q)) ` set (waitProcs l)"
  have last: "incr 1 m (granted l) ! m = requested l ! m \<longleftrightarrow> m \<notin> ?ws"
    using assms(2,3) small waiters_zero [of procs l m]
    by (auto simp: requested_ok_def granted_ok_def nth_incr)
  have "\<exists>pl. (q, pl) \<in> entries (GrantLock l p m) \<and> \<not> bit (holdMask pl) (waitLockMode (procs q))"
    if "q \<in> set (waitProcs l)" for q
  proof -
    obtain pl where "(q, pl) \<in> entries l" "\<not> bit (holdMask pl) (waitLockMode (procs q))"
      using queue_okD(4) [OF assms(1) \<open>q \<in> set (waitProcs l)\<close>] by blast
    then show ?thesis using assms(5) that
      by (intro exI [of _ "if q = p then pl\<lparr>holdMask := holdMask pl OR LOCKBIT_ON m\<rparr> else pl"])
        (auto simp: entries_Grant bit_or_ON)
  qed
  then show ?thesis
    using assms(1) last unfolding queue_ok_def GrantLock_fields(2,8)
    by (auto simp: bit_LOCKBIT_OFF)
qed

lemma GrantLock_inv:
  assumes "lock_inv X procs t l E (Some m)" "(p, pl) \<in> entries l" "\<not> bit (holdMask pl) m" "valid_mode m"
    and "grantable X t l p m" "p \<in> set (waitProcs l) \<Longrightarrow> waitLockMode (procs p) \<noteq> m"
  shows "lock_inv X procs t (GrantLock l p m) (E - {p}) None"
proof -
  note inv = lock_invD [OF assms(1)]
  have small: "m < MAX_LOCKMODES" "m < 32" using assms(4) valid_mode_small by auto
  have "leaders_ok procs (GrantLock l p m)"
    using inv(2) by (fastforce simp: leaders_ok_def entries_Grant)
  moreover have "requested_ok procs (GrantLock l p m) None"
    using inv(1,4) small
    by (auto simp: requested_ok_def granted_ok_def GrantLock_fields nth_incr sum_list_incr)
  moreover have "entries_used (E - {p}) (GrantLock l p m)"
    using inv(6) or_ON_nonzero [OF small(2)]
    by (fastforce simp: entries_used_def entries_Grant GrantLock_fields(2) split: if_splits)
  ultimately show ?thesis
    using GrantLock_granted_ok [OF inv(1) assms(2-4)] GrantLock_exclusive [OF inv(5,1) assms(2,4,5)]
      GrantLock_queue_ok [OF inv(3,4,1) assms(4,6)]
    by (simp add: lock_inv_def)
qed

section \<open>Releasing\<close>

definition unheld :: "LOCK \<Rightarrow> nat \<Rightarrow> LOCKMODE \<Rightarrow> LOCK" where
  "unheld l p m = snd (UnGrantLock l m p)"

lemma unheld_fields:
  "procLocks (unheld l p m) = procLocks (upd_proclock p (\<lambda>pl. pl\<lparr>holdMask := holdMask pl AND LOCKBIT_OFF m\<rparr>) l)"
  "waitProcs (unheld l p m) = waitProcs l" "requested (unheld l p m) = incr (-1) m (requested l)"
  "nRequested (unheld l p m) = nRequested l - 1" "granted (unheld l p m) = incr (-1) m (granted l)"
  "nGranted (unheld l p m) = nGranted l - 1" "waitMask (unheld l p m) = waitMask l"
  "grantMask (unheld l p m) = (if incr (-1) m (granted l) ! m = 0 then grantMask l AND LOCKBIT_OFF m else grantMask l)"
  by (simp_all add: unheld_def UnGrantLock_def Let_def upd_proclock_def)

lemma UnGrantLock_eq: "UnGrantLock l m p = (LockConflicts ! m AND waitMask l \<noteq> 0, unheld l p m)"
  by (simp add: unheld_def UnGrantLock_def Let_def)

lemma entries_unheld: "(q, x) \<in> entries (unheld l p m) \<longleftrightarrow>
   (\<exists>pl. (q, pl) \<in> entries l \<and> x = (if q = p then pl\<lparr>holdMask := holdMask pl AND LOCKBIT_OFF m\<rparr> else pl))"
  unfolding unheld_fields(1) by (rule entries_upd)

lemma unheld_sub:
  "(q, x) \<in> entries (unheld l p m) \<Longrightarrow>
   \<exists>pl. (q, pl) \<in> entries l \<and> groupLeader x = groupLeader pl \<and> (\<forall>i. bit (holdMask x) i \<longrightarrow> bit (holdMask pl) i)"
  by (fastforce simp: entries_unheld bit_LOCKBIT_OFF)

lemma unheld_granted_ok:
  assumes "granted_ok l" "(p, pl) \<in> entries l" "bit (holdMask pl) m" "\<not> bit (releaseMask pl) m"
  shows "granted_ok (unheld l p m)"
proof -
  have small: "m < MAX_LOCKMODES" "m < 32" using held_valid [OF assms(1-3)] valid_mode_small by auto
  have h: "int (holders_n (unheld l p m) i) = int (holders_n l i) - of_bool (i = m)" for i
    using holders_upd [OF assms(1,2), of "\<lambda>pl. pl\<lparr>holdMask := holdMask pl AND LOCKBIT_OFF m\<rparr>" i] assms(3)
    unfolding holders_n_def unheld_fields(1) by (auto simp: bit_LOCKBIT_OFF)
  have g: "granted (unheld l p m) ! i = int (holders_n (unheld l p m) i)" if "i < MAX_LOCKMODES" for i
    using h assms(1) small that by (auto simp: unheld_fields nth_incr granted_ok_def)
  have mask: "bit (grantMask (unheld l p m)) i \<longleftrightarrow> (\<exists>(q, pl) \<in> entries (unheld l p m). bit (holdMask pl) i)" for i
  proof -
    have old: "bit (grantMask l) i \<longleftrightarrow> 0 < holders_n l i"
      using assms(1) holders_zero [of l i] by (auto simp: granted_ok_def)
    have "bit (grantMask (unheld l p m)) i \<longleftrightarrow> 0 < holders_n (unheld l p m) i"
      using old h [of i] g [OF small(1)] by (cases "i = m") (auto simp: unheld_fields bit_LOCKBIT_OFF)
    then show ?thesis using holders_zero [of "unheld l p m" i] by auto
  qed
  have "\<forall>(q, pl) \<in> entries (unheld l p m). \<forall>i. bit (holdMask pl) i \<longrightarrow> valid_mode i"
    using held_valid [OF assms(1)] by (auto dest!: unheld_sub)
  moreover have "\<forall>(q, x) \<in> entries (unheld l p m). \<forall>i. bit (releaseMask x) i \<longrightarrow> bit (holdMask x) i"
    using marked_held [OF assms(1)] entry_unique [OF assms(1,2)] assms(4)
    by (auto simp: entries_unheld bit_LOCKBIT_OFF split: if_splits)
  ultimately show ?thesis
    using mask g assms(1) unfolding granted_ok_def unheld_fields(1,5) by simp
qed

lemma UnGrantLock_inv:
  assumes "lock_inv X procs t l E None" "(p, pl) \<in> entries l" "bit (holdMask pl) m" "\<not> bit (releaseMask pl) m"
  shows "lock_inv X procs t (unheld l p m) (insert p E) None"
proof -
  note inv = lock_invD [OF assms(1)]
  have small: "m < MAX_LOCKMODES" "m < 32" using held_valid [OF inv(1) assms(2,3)] valid_mode_small by auto
  have "leaders_ok procs (unheld l p m)"
    using inv(2) by (fastforce simp: leaders_ok_def entries_unheld)
  moreover have "requested_ok procs (unheld l p m) None"
    using inv(1,4) small
    by (auto simp: requested_ok_def granted_ok_def unheld_fields nth_incr sum_list_incr waiters_n_def)
  moreover have "entries_used (insert p E) (unheld l p m)"
    using inv(6)
    by (fastforce simp: entries_used_def entries_unheld unheld_fields(2) split: if_splits)
  moreover have "exclusive X t (unheld l p m)"
    unfolding exclusive_def
  proof clarify
    fix q x q' x' n n'
    assume e: "(q, x) \<in> entries (unheld l p m)" "(q', x') \<in> entries (unheld l p m)" and ne: "q \<noteq> q'" and X: "(q, n) \<notin> X" "(q', n') \<notin> X"
      and b: "bit (holdMask x) n" "bit (holdMask x') n'" "conflict n n'"
    obtain a a' where "(q, a) \<in> entries l" "groupLeader x = groupLeader a" "bit (holdMask a) n"
        "(q', a') \<in> entries l" "groupLeader x' = groupLeader a'" "bit (holdMask a') n'"
      using unheld_sub [OF e(1)] unheld_sub [OF e(2)] b by blast
    then show "same_group t x x'" using inv(5) ne X b(3) unfolding exclusive_def same_group_def by fastforce
  qed
  moreover have "queue_ok procs t (unheld l p m) None"
  proof -
    have "\<exists>pl. (q, pl) \<in> entries (unheld l p m) \<and> \<not> bit (holdMask pl) (waitLockMode (procs q))"
      if "q \<in> set (waitProcs l)" for q
    proof -
      obtain pl where "(q, pl) \<in> entries l" "\<not> bit (holdMask pl) (waitLockMode (procs q))"
        using queue_okD(4) [OF inv(3) \<open>q \<in> set (waitProcs l)\<close>] by blast
      then show ?thesis
        by (intro exI [of _ "if q = p then pl\<lparr>holdMask := holdMask pl AND LOCKBIT_OFF m\<rparr> else pl"])
          (auto simp: entries_unheld bit_LOCKBIT_OFF)
    qed
    then show ?thesis using inv(3) unfolding queue_ok_def unheld_fields by blast
  qed
  ultimately show ?thesis using unheld_granted_ok [OF inv(1) assms(2-4)] by (simp add: lock_inv_def)
qed

section \<open>Leaving the queue\<close>

text \<open>The request of a waiter becomes a request that is neither granted nor queued.\<close>

lemma length_filter_remove1:
  "distinct xs \<Longrightarrow> p \<in> set xs \<Longrightarrow> int (length (filter P (remove1 p xs))) = int (length (filter P xs)) - of_bool (P p)"
  by (induction xs) auto

lemma dequeue_inv:
  assumes inv: "lock_inv X procs t l E None" and p: "p \<in> set (waitProcs l)"
    and procs: "\<And>q. q \<noteq> p \<Longrightarrow> waitLockMode (procs' q) = waitLockMode (procs q) \<and> waitLock (procs' q) = waitLock (procs q) \<and>
        waitStatus (procs' q) = waitStatus (procs q)"
      "\<And>q. lockGroupLeader (procs' q) = lockGroupLeader (procs q)"
  shows "lock_inv X procs' t (l\<lparr>waitProcs := remove1 p (waitProcs l)\<rparr>) (insert p E) (Some (waitLockMode (procs p)))"
proof -
  note inv = lock_invD [OF inv]
  let ?l = "l\<lparr>waitProcs := remove1 p (waitProcs l)\<rparr>"
  have d: "distinct (waitProcs l)" using inv(3) by (simp add: queue_ok_def)
  have set: "set (remove1 p (waitProcs l)) = set (waitProcs l) - {p}" using d by simp
  have w: "int (waiters_n procs' ?l m) = int (waiters_n procs l m) - of_bool (waitLockMode (procs p) = m)" for m
  proof -
    have "filter (\<lambda>q. waitLockMode (procs' q) = m) (remove1 p (waitProcs l)) =
        filter (\<lambda>q. waitLockMode (procs q) = m) (remove1 p (waitProcs l))"
      using d procs(1) by (intro filter_cong) auto
    then show ?thesis using length_filter_remove1 [OF d p] by (simp add: waiters_n_def)
  qed
  have "granted_ok ?l" using inv(1) by (simp add: granted_ok_def holders_n_def)
  moreover have "leaders_ok procs' ?l" using inv(2) procs(2) by (simp add: leaders_ok_def leader_of_def)
  moreover have "requested_ok procs' ?l (Some (waitLockMode (procs p)))"
    using inv(4) w by (auto simp: requested_ok_def)
  moreover have "exclusive X t ?l" using inv(5) by (simp add: exclusive_def)
  moreover have "entries_used (insert p E) ?l" using inv(6) set by (fastforce simp: entries_used_def)
  moreover have "queue_ok procs' t ?l (Some (waitLockMode (procs p)))"
  proof -
    have "\<forall>m. bit (waitMask l) m \<longrightarrow>
        m \<in> (\<lambda>q. waitLockMode (procs' q)) ` (set (waitProcs l) - {p}) \<or> waitLockMode (procs p) = m"
      using inv(3) procs(1) by (fastforce simp: queue_ok_def image_iff)
    then show ?thesis using inv(3) procs(1) set d by (auto simp: queue_ok_def)
  qed
  ultimately show ?thesis by (simp add: lock_inv_def)
qed

section \<open>Waking the queue\<close>

text \<open>
  Every process of the queue waits for a reason: its request conflicts with one that is ahead of it, or
  with what others hold.  \<open>A\<close> are the modes requested ahead of the queue.
\<close>

fun stuck :: "procs \<Rightarrow> LOCKTAG \<Rightarrow> LOCK \<Rightarrow> LOCKMODE set \<Rightarrow> nat list \<Rightarrow> bool" where
  "stuck procs t l A [] \<longleftrightarrow> True"
| "stuck procs t l A (q # qs) \<longleftrightarrow>
     ((\<exists>n \<in> A. conflict (waitLockMode (procs q)) n) \<or> real_conflict t l q (waitLockMode (procs q))) \<and>
     stuck procs t l (insert (waitLockMode (procs q)) A) qs"

lemma stuck_append:
  "stuck procs t l A (qs @ rs) \<longleftrightarrow> stuck procs t l A qs \<and> stuck procs t l (A \<union> (\<lambda>q. waitLockMode (procs q)) ` set qs) rs"
  by (induction qs arbitrary: A) auto

lemma stuck_mono:
  assumes "stuck procs t l A qs" "A \<subseteq> B" "\<And>q. q \<in> set qs \<Longrightarrow> waitLockMode (procs' q) = waitLockMode (procs q)"
    "\<And>q m. q \<in> set qs \<Longrightarrow> m = waitLockMode (procs q) \<Longrightarrow> real_conflict t l q m \<Longrightarrow> real_conflict t l' q m"
  shows "stuck procs' t l' B qs"
  using assms
proof (induction qs arbitrary: A B)
  case (Cons q qs)
  have "stuck procs' t l' (insert (waitLockMode (procs q)) B) qs"
    using Cons.prems by (intro Cons.IH [of "insert (waitLockMode (procs q)) A"]) auto
  then show ?case using Cons.prems by auto
qed simp

lemma real_conflict_mono:
  assumes "real_conflict t l p m"
    and "\<And>q pl. (q, pl) \<in> entries l \<Longrightarrow> \<exists>pl'. (q, pl') \<in> entries l' \<and> groupLeader pl' = groupLeader pl \<and>
       (\<forall>n. bit (holdMask pl) n \<and> conflict m n \<longrightarrow> bit (holdMask pl') n)"
  shows "real_conflict t l' p m"
proof -
  obtain pl q pl' n where c: "(p, pl) \<in> entries l" "(q, pl') \<in> entries l" "q \<noteq> p" "bit (holdMask pl') n" "conflict m n"
      "\<not> same_group t pl pl'"
    using assms(1) unfolding real_conflict_def by blast
  obtain x x' where "(p, x) \<in> entries l'" "groupLeader x = groupLeader pl" "(q, x') \<in> entries l'"
      "groupLeader x' = groupLeader pl'" "bit (holdMask x') n"
    using assms(2) [OF c(1)] assms(2) [OF c(2)] c(4,5) by blast
  then show ?thesis using c(3,5,6) unfolding real_conflict_def same_group_def by metis
qed

lemma real_conflict_Grant: "real_conflict t l q n \<Longrightarrow> real_conflict t (GrantLock l p m) q n"
proof (erule real_conflict_mono)
  fix q pl assume "(q, pl) \<in> entries l"
  then show "\<exists>pl'. (q, pl') \<in> entries (GrantLock l p m) \<and> groupLeader pl' = groupLeader pl \<and>
      (\<forall>i. bit (holdMask pl) i \<and> conflict n i \<longrightarrow> bit (holdMask pl') i)"
    by (intro exI [of _ "if q = p then pl\<lparr>holdMask := holdMask pl OR LOCKBIT_ON m\<rparr> else pl"])
      (auto simp: entries_Grant bit_or_ON)
qed

lemma real_conflict_cong: "procLocks l' = procLocks l \<Longrightarrow> real_conflict t l' = real_conflict t l"
  by (simp add: real_conflict_def fun_eq_iff)

text \<open>What waking does to the lock and the processes: the processes \<open>W\<close> of the queue get their request.\<close>

definition woken :: "nat set \<Rightarrow> procs \<Rightarrow> LOCK \<Rightarrow> procs \<Rightarrow> LOCK \<Rightarrow> bool" where
  "woken W procs l procs' l' \<longleftrightarrow>
     W \<subseteq> set (waitProcs l) \<and> waitProcs l' = filter (\<lambda>q. q \<notin> W) (waitProcs l) \<and>
     procLocks l' = map (\<lambda>(q, pl). (q, if q \<in> W then pl\<lparr>holdMask := holdMask pl OR LOCKBIT_ON (waitLockMode (procs q))\<rparr> else pl)) (procLocks l) \<and>
     nRequested l' = nRequested l \<and>
     (\<forall>q. (procs' q)\<lparr>waitStart := 0\<rparr> =
        (if q \<in> W then (procs q)\<lparr>waitLock := None, waitStatus := PROC_WAIT_STATUS_OK\<rparr> else procs q)\<lparr>waitStart := 0\<rparr>)"

lemma waitStart_irrelevant:
  assumes "(a :: PGPROC)\<lparr>waitStart := x\<rparr> = b\<lparr>waitStart := x\<rparr>"
  shows "waitStatus a = waitStatus b" "waitLock a = waitLock b" "waitLockMode a = waitLockMode b" "heldLocks a = heldLocks b"
    "lockGroupLeader a = lockGroupLeader b"
  using arg_cong [OF assms, of waitStatus] arg_cong [OF assms, of waitLock] arg_cong [OF assms, of waitLockMode]
    arg_cong [OF assms, of heldLocks] arg_cong [OF assms, of lockGroupLeader]
  by simp_all

lemma woken_procs:
  assumes "woken W procs l procs' l'"
  shows "waitLockMode (procs' q) = waitLockMode (procs q)" "heldLocks (procs' q) = heldLocks (procs q)"
    "lockGroupLeader (procs' q) = lockGroupLeader (procs q)"
    "waitLock (procs' q) = (if q \<in> W then None else waitLock (procs q))"
    "waitStatus (procs' q) = (if q \<in> W then PROC_WAIT_STATUS_OK else waitStatus (procs q))"
proof -
  have "(procs' q)\<lparr>waitStart := 0\<rparr> =
      (if q \<in> W then (procs q)\<lparr>waitLock := None, waitStatus := PROC_WAIT_STATUS_OK\<rparr> else procs q)\<lparr>waitStart := 0\<rparr>"
    using assms by (simp add: woken_def)
  note eqs = waitStart_irrelevant [OF this]
  show "waitLockMode (procs' q) = waitLockMode (procs q)" "heldLocks (procs' q) = heldLocks (procs q)"
    "lockGroupLeader (procs' q) = lockGroupLeader (procs q)"
    "waitLock (procs' q) = (if q \<in> W then None else waitLock (procs q))"
    "waitStatus (procs' q) = (if q \<in> W then PROC_WAIT_STATUS_OK else waitStatus (procs q))"
    using eqs by auto
qed

lemma woken_refl: "woken {} procs l procs l"
  by (simp add: woken_def case_prod_beta)

lemma wakeup_one:
  assumes inv: "lock_inv X procs t l E None" and p: "p \<in> set (waitProcs l)"
    and free: "\<not> real_conflict t l p (waitLockMode (procs p))"
    and res: "(l', procs') = ProcWakeup me p PROC_WAIT_STATUS_OK (GrantLock l p (waitLockMode (procs p)), procs)"
  shows "lock_inv X procs' t l' E None" "woken {p} procs l procs' l'"
    "procLocks l' = procLocks (GrantLock l p (waitLockMode (procs p)))"
proof -
  let ?m = "waitLockMode (procs p)"
  let ?q = "l\<lparr>waitProcs := remove1 p (waitProcs l)\<rparr>"
  note ok = lock_invD [OF inv]
  have d: "distinct (waitProcs l)" using ok(3) by (simp add: queue_ok_def)
  have r: "remove1 p (waitProcs l) = filter (\<lambda>q. q \<notin> {p}) (waitProcs l)" using d by (auto simp: distinct_remove1_removeAll removeAll_filter_not_eq intro: filter_cong)
  have procs': "procs' = (procs(p := (procs p)\<lparr>waitLock := None, waitStatus := PROC_WAIT_STATUS_OK\<rparr>))
      (me := ((procs(p := (procs p)\<lparr>waitLock := None, waitStatus := PROC_WAIT_STATUS_OK\<rparr>)) me)\<lparr>waitStart := 0\<rparr>)"
    and l': "l' = (GrantLock l p ?m)\<lparr>waitProcs := remove1 p (waitProcs l)\<rparr>"
    using res p by (simp_all add: ProcWakeup_def GrantLock_fields(2) Let_def)
  have l'': "l' = GrantLock ?q p ?m"
    unfolding l' by (rule LOCK.equality) (simp_all add: GrantLock_fields upd_proclock_def)
  obtain pl where pl: "(p, pl) \<in> entries l" "\<not> bit (holdMask pl) ?m" using queue_okD(4) [OF ok(3) p] by blast
  have "lock_inv X procs' t ?q (insert p E) (Some ?m)"
    by (rule dequeue_inv [OF inv p]) (auto simp: procs')
  then have "lock_inv X procs' t l' (insert p E - {p}) None"
    unfolding l'' using pl free queue_okD(3) [OF ok(3) p] d
    by (intro GrantLock_inv no_conflict_grantable) (auto simp: real_conflict_cong [of ?q l])
  moreover have "insert p E - {p} \<subseteq> E" by blast
  ultimately show "lock_inv X procs' t l' E None"
    by (auto simp: lock_inv_def entries_used_def)
  show "procLocks l' = procLocks (GrantLock l p ?m)" by (simp add: l')
  show "woken {p} procs l procs' l'"
    unfolding woken_def using p r
    by (auto simp: l' procs' GrantLock_fields upd_proclock_def intro: map_cong)
qed

lemma woken_trans:
  assumes "woken {p} procs l procs1 l1" "woken W procs1 l1 procs' l'"
  shows "woken (insert p W) procs l procs' l'"
proof -
  note m = woken_procs(1) [OF assms(1)]
  have pW: "p \<notin> W" "W \<subseteq> set (waitProcs l)" "p \<in> set (waitProcs l)" using assms(1,2) by (auto simp: woken_def)
  have w: "waitProcs l' = filter (\<lambda>q. q \<notin> insert p W) (waitProcs l)"
    using assms(1,2) by (auto simp: woken_def intro: filter_cong)
  have e: "procLocks l' = map (\<lambda>(q, pl). (q, if q \<in> insert p W then pl\<lparr>holdMask := holdMask pl OR LOCKBIT_ON (waitLockMode (procs q))\<rparr> else pl)) (procLocks l)"
    using assms(1,2) pW(1) by (auto simp: woken_def m)
  have q: "(procs' q)\<lparr>waitStart := 0\<rparr> =
      (if q \<in> insert p W then (procs q)\<lparr>waitLock := None, waitStatus := PROC_WAIT_STATUS_OK\<rparr> else procs q)\<lparr>waitStart := 0\<rparr>" for q
  proof -
    have one: "(procs1 q)\<lparr>waitStart := 0\<rparr> = (if q = p then (procs q)\<lparr>waitLock := None, waitStatus := PROC_WAIT_STATUS_OK\<rparr> else procs q)\<lparr>waitStart := 0\<rparr>"
      and two: "(procs' q)\<lparr>waitStart := 0\<rparr> = (if q \<in> W then (procs1 q)\<lparr>waitLock := None, waitStatus := PROC_WAIT_STATUS_OK\<rparr> else procs1 q)\<lparr>waitStart := 0\<rparr>"
      using assms by (simp_all add: woken_def)
    have "((procs1 q)\<lparr>waitLock := None, waitStatus := PROC_WAIT_STATUS_OK\<rparr>)\<lparr>waitStart := 0\<rparr> =
        ((procs1 q)\<lparr>waitStart := 0\<rparr>)\<lparr>waitLock := None, waitStatus := PROC_WAIT_STATUS_OK\<rparr>" by simp
    then show ?thesis using one two pW(1) by (cases "q = p"; cases "q \<in> W") simp_all
  qed
  show ?thesis using assms(1,2) pW w e q by (simp add: woken_def)
qed

lemma conflict_mask: "(\<forall>n. bit w n \<longleftrightarrow> n \<in> A) \<Longrightarrow> LockConflicts ! m AND w \<noteq> 0 \<longleftrightarrow> (\<exists>n \<in> A. conflict m n)"
  by (auto simp: and_nonzero)

lemma wakeup_loop_correct:
  assumes "lock_inv X procs t l E None" "waitProcs l = passed @ ps" "stuck procs t l {} passed"
    and "\<forall>n. bit ahead n \<longleftrightarrow> n \<in> (\<lambda>q. waitLockMode (procs q)) ` set passed"
  shows "\<exists>l' procs' W. wakeup_loop me t ps ahead (l, procs) = Inr (l', procs') \<and> lock_inv X procs' t l' E None \<and>
    stuck procs' t l' {} (waitProcs l') \<and> woken W procs l procs' l'"
  using assms
proof (induction ps arbitrary: l procs passed ahead)
  case Nil
  then show ?case using woken_refl by fastforce
next
  case (Cons p ps)
  note ok = lock_invD [OF Cons.prems(1)]
  let ?m = "waitLockMode (procs p)"
  have p: "p \<in> set (waitProcs l)" using Cons.prems(2) by simp
  have d: "distinct (passed @ p # ps)" using ok(3) Cons.prems(2) by (simp add: queue_ok_def)
  obtain pl where pl: "(p, pl) \<in> entries l" using queue_okD(4) [OF ok(3) p] by blast
  note check = LockCheckConflicts_inv [OF Cons.prems(1) pl queue_okD(3) [OF ok(3) p], of me]
  note ahead = conflict_mask [OF Cons.prems(4), of ?m]
  show ?case
  proof (cases "LockConflicts ! ?m AND ahead \<noteq> 0 \<or> real_conflict t l p ?m")
    case True
    have step: "wakeup_loop me t (p # ps) ahead (l, procs) = wakeup_loop me t ps (ahead OR LOCKBIT_ON ?m) (l, procs)"
      using True check by (auto simp: Let_def)
    have "stuck procs t l {} (passed @ [p])"
      using Cons.prems(3) True ahead by (auto simp: stuck_append)
    moreover have "\<forall>n. bit (ahead OR LOCKBIT_ON ?m) n \<longleftrightarrow> n \<in> (\<lambda>q. waitLockMode (procs q)) ` set (passed @ [p])"
      using Cons.prems(4) valid_mode_small(2) [OF queue_okD(3) [OF ok(3) p]] by (auto simp: bit_or_ON)
    ultimately show ?thesis unfolding step using Cons.prems(1,2) by (intro Cons.IH [of procs l "passed @ [p]"]) simp_all
  next
    case False
    obtain l1 procs1 where one: "(l1, procs1) = ProcWakeup me p PROC_WAIT_STATUS_OK (GrantLock l p ?m, procs)"
      by (metis surj_pair)
    have step: "wakeup_loop me t (p # ps) ahead (l, procs) = wakeup_loop me t ps ahead (l1, procs1)"
      using False check by (simp add: one Let_def)
    note w = wakeup_one [OF Cons.prems(1) p _ one]
    have mode: "waitLockMode (procs1 q) = waitLockMode (procs q)" for q using woken_procs(1) [OF w(2)] False by blast
    have "waitProcs l1 = passed @ ps"
    proof -
      have "filter (\<lambda>q. q \<notin> {p}) passed = passed" "filter (\<lambda>q. q \<notin> {p}) ps = ps"
        using d by (auto simp: filter_id_conv)
      then show ?thesis using w(2) False Cons.prems(2) by (simp add: woken_def)
    qed
    moreover have "stuck procs1 t l1 {} passed"
    proof (rule stuck_mono [OF Cons.prems(3)])
      fix q m assume "real_conflict t l q m"
      then show "real_conflict t l1 q m" using real_conflict_Grant real_conflict_cong [OF w(3)] False by fastforce
    qed (use mode in auto)
    moreover have "\<forall>n. bit ahead n \<longleftrightarrow> n \<in> (\<lambda>q. waitLockMode (procs1 q)) ` set passed" using Cons.prems(4) mode by simp
    ultimately obtain l' procs' W where r: "wakeup_loop me t ps ahead (l1, procs1) = Inr (l', procs')"
        "lock_inv X procs' t l' E None" "stuck procs' t l' {} (waitProcs l')" "woken W procs1 l1 procs' l'"
      using Cons.IH [of procs1 l1 passed ahead] w(1) False by blast
    then show ?thesis unfolding step using woken_trans [OF w(2) r(4)] False by blast
  qed
qed

lemma ProcLockWakeup_correct:
  assumes "lock_inv X procs t l E None"
  obtains l' procs' W where "ProcLockWakeup me t (l, procs) = Inr (l', procs')" "lock_inv X procs' t l' E None"
    "stuck procs' t l' {} (waitProcs l')" "woken W procs l procs' l'"
  using wakeup_loop_correct [OF assms, of "[]" "waitProcs l" 0 me] unfolding ProcLockWakeup_def by auto

section \<open>Cleaning up\<close>

definition lock_ok :: "(nat \<times> LOCKMODE) set \<Rightarrow> procs \<Rightarrow> LOCKTAG \<Rightarrow> LOCK \<Rightarrow> bool" where
  "lock_ok X procs t l \<longleftrightarrow> lock_inv X procs t l {} None \<and> stuck procs t l {} (waitProcs l) \<and> 0 < nRequested l"

lemma del_entries: "(q, pl) \<in> entries (del_proclock p l) \<longleftrightarrow> (q, pl) \<in> entries l \<and> q \<noteq> p"
  by (auto simp: del_proclock_def)

lemma del_subset: "entries (del_proclock p l) \<subseteq> entries l"
  by (auto simp: del_proclock_def)

lemma del_fields [simp]:
  "grantMask (del_proclock p l) = grantMask l" "waitMask (del_proclock p l) = waitMask l"
  "waitProcs (del_proclock p l) = waitProcs l" "requested (del_proclock p l) = requested l"
  "nRequested (del_proclock p l) = nRequested l" "granted (del_proclock p l) = granted l"
  "nGranted (del_proclock p l) = nGranted l"
  by (simp_all add: del_proclock_def)

lemma del_proclock_inv:
  assumes inv: "lock_inv X procs t l E pm" and p: "(p, pl) \<in> entries l" "holdMask pl = 0" "p \<notin> set (waitProcs l)"
  shows "lock_inv X procs t (del_proclock p l) (E - {p}) pm"
proof -
  note ok = lock_invD [OF inv]
  have none: "\<not> bit (holdMask x) m" if "(p, x) \<in> entries l" for x m
    using entry_unique [OF ok(1) p(1) that] p(2) by auto
  have h: "holders_n (del_proclock p l) m = holders_n l m" for m
    unfolding holders_n_def del_proclock_def using none
    by (auto simp: intro!: arg_cong [where f = length] filter_cong)
  have mask: "(\<exists>(q, pl) \<in> entries (del_proclock p l). bit (holdMask pl) m) \<longleftrightarrow> (\<exists>(q, pl) \<in> entries l. bit (holdMask pl) m)" for m
    unfolding holders_pos_iff h ..
  have dist: "distinct (map fst (procLocks (del_proclock p l)))"
    using ok(1) by (auto simp: granted_ok_def del_proclock_def intro: distinct_map_filter)
  have "granted_ok (del_proclock p l)"
  proof -
    have "\<forall>(q, pl) \<in> entries (del_proclock p l). \<forall>m. bit (holdMask pl) m \<longrightarrow> valid_mode m"
      using held_valid [OF ok(1)] by (auto simp: del_entries)
    moreover have "\<forall>(q, pl) \<in> entries (del_proclock p l). \<forall>m. bit (releaseMask pl) m \<longrightarrow> bit (holdMask pl) m"
      using marked_held [OF ok(1)] by (auto simp: del_entries)
    ultimately show ?thesis unfolding granted_ok_def h mask using ok(1) dist by (simp add: granted_ok_def)
  qed
  moreover have "leaders_ok procs (del_proclock p l)" using ok(2) del_subset [of p l] unfolding leaders_ok_def by blast
  moreover have "queue_ok procs t (del_proclock p l) pm"
    using ok(3) p(3) unfolding queue_ok_def del_fields del_entries by blast
  moreover have "requested_ok procs (del_proclock p l) pm" using ok(4) by (simp add: requested_ok_def waiters_n_def)
  moreover have "exclusive X t (del_proclock p l)" using ok(5) del_subset [of p l] unfolding exclusive_def by blast
  moreover have "entries_used (E - {p}) (del_proclock p l)" using ok(6) by (fastforce simp: entries_used_def del_entries)
  ultimately show ?thesis by (simp add: lock_inv_def)
qed

lemma counts_nonneg:
  assumes "lock_inv X procs t l E pm"
  shows "\<forall>m < MAX_LOCKMODES. 0 \<le> granted l ! m \<and> granted l ! m \<le> requested l ! m" "0 \<le> nGranted l" "nGranted l \<le> nRequested l"
proof -
  note ok = lock_invD [OF assms]
  show g: "\<forall>m < MAX_LOCKMODES. 0 \<le> granted l ! m \<and> granted l ! m \<le> requested l ! m"
    using ok(1,4) by (simp add: granted_ok_def requested_ok_def)
  have len: "length (granted l) = MAX_LOCKMODES" "length (requested l) = MAX_LOCKMODES"
    using ok(1,4) by (simp_all add: granted_ok_def requested_ok_def)
  show "0 \<le> nGranted l" using g len ok(4) by (auto simp: requested_ok_def in_set_conv_nth intro!: sum_list_nonneg)
  have "sum_list (granted l) \<le> sum_list (requested l)"
    using g len by (intro sum_list_mono2) auto
  then show "nGranted l \<le> nRequested l" using ok(4) by (simp add: requested_ok_def)
qed

lemma no_requests:
  assumes "lock_inv X procs t l E None" "nRequested l = 0"
  shows "waitProcs l = []" "(q, pl) \<in> entries l \<Longrightarrow> holdMask pl = 0"
proof -
  note ok = lock_invD [OF assms(1)]
  have len: "length (requested l) = MAX_LOCKMODES" using ok(4) by (simp add: requested_ok_def)
  have "\<forall>x \<in> set (requested l). 0 \<le> x" using counts_nonneg(1) [OF assms(1)] len by (fastforce simp: in_set_conv_nth)
  then have "\<forall>x \<in> set (requested l). x = 0"
    using assms(2) ok(4) sum_list_nonneg_eq_0_iff [of "requested l"] by (auto simp: requested_ok_def)
  then have z: "requested l ! m = 0" if "m < MAX_LOCKMODES" for m using that len by simp
  have zero: "holders_n l m = 0 \<and> waiters_n procs l m = 0" if "valid_mode m" for m
    using z [OF valid_mode_small(1) [OF that]] ok(1,4) valid_mode_small(1) [OF that]
    by (auto simp: requested_ok_def granted_ok_def)
  show "waitProcs l = []"
  proof (rule ccontr)
    assume "waitProcs l \<noteq> []"
    then obtain q where q: "q \<in> set (waitProcs l)" by (cases "waitProcs l") auto
    then show False using zero [OF queue_okD(3) [OF ok(3) q]] waiters_zero [of procs l] by auto
  qed
  show "holdMask pl = 0" if "(q, pl) \<in> entries l"
    using mask_nonzero [of "holdMask pl"] held_valid [OF ok(1) that] zero holders_pos [OF that] by fastforce
qed

lemma CleanUpLock_correct:
  assumes inv: "lock_inv X procs t l {p} None" and p: "(p, pl) \<in> entries l" "p \<notin> set (waitProcs l)"
    and st: "\<not> wakeup \<Longrightarrow> stuck procs t l {} (waitProcs l)"
  defines "l1 \<equiv> if holdMask pl = 0 then del_proclock p l else l"
  shows "if nRequested l = 0 then CleanUpLock me t p wakeup (l, procs) = Inr (None, procs)
    else \<exists>l' procs' W. CleanUpLock me t p wakeup (l, procs) = Inr (Some l', procs') \<and> lock_ok X procs' t l' \<and> woken W procs l1 procs' l'"
proof -
  note ok = lock_invD [OF inv]
  have nr: "nRequested l1 = nRequested l" "waitProcs l1 = waitProcs l" by (simp_all add: l1_def)
  have inv1: "lock_inv X procs t l1 {} None"
  proof (cases "holdMask pl = 0")
    case True
    then show ?thesis using del_proclock_inv [OF inv p(1) _ p(2)] by (simp add: l1_def)
  next
    case False
    have "entries_used {} l"
      using ok(6) False entry_unique [OF ok(1) p(1)] by (fastforce simp: entries_used_def)
    then show ?thesis using False inv by (simp add: l1_def lock_inv_def)
  qed
  have st1: "stuck procs t l1 {} (waitProcs l1)" if "\<not> wakeup"
    unfolding nr
  proof (rule stuck_mono [OF st [OF that]])
    fix q m assume "q \<in> set (waitProcs l)" and rc: "real_conflict t l q m"
    then have "q \<noteq> p" using p(2) by blast
    then show "real_conflict t l1 q m"
      using rc entry_unique [OF ok(1) p(1)] unfolding real_conflict_def l1_def by (auto simp: del_entries) (metis bit_0_eq bot_apply bot_bool_def)
  qed simp_all
  have step: "CleanUpLock me t p wakeup (l, procs) =
      (if nRequested l = 0 then Inr (None, procs)
       else if wakeup then map_sum id (apfst Some) (ProcLockWakeup me t (l1, procs)) else Inr (Some l1, procs))"
    by (simp add: CleanUpLock_def lookup_entry [OF ok(1) p(1)] l1_def Let_def)
  have pos: "0 < nRequested l" if "nRequested l \<noteq> 0" using counts_nonneg(2,3) [OF inv] that by linarith
  show ?thesis
  proof (cases "wakeup \<and> nRequested l \<noteq> 0")
    case True
    obtain l' procs' W where "ProcLockWakeup me t (l1, procs) = Inr (l', procs')" "lock_inv X procs' t l' {} None"
      "stuck procs' t l' {} (waitProcs l')" "woken W procs l1 procs' l'"
      using ProcLockWakeup_correct [OF inv1] .
    moreover from this have "0 < nRequested l'" using pos True nr by (simp add: woken_def)
    ultimately show ?thesis unfolding step using True by (auto simp: lock_ok_def)
  next
    case False
    then show ?thesis unfolding step using inv1 st1 pos nr woken_refl [of procs l1] by (auto simp: lock_ok_def)
  qed
qed

section \<open>Requests\<close>

definition entry_ok :: "(nat \<times> LOCKMODE) set \<Rightarrow> procs \<Rightarrow> LOCKTAG \<Rightarrow> LOCK option \<Rightarrow> bool" where
  "entry_ok X procs t e \<longleftrightarrow> (\<forall>l. e = Some l \<longrightarrow> lock_ok X procs t l)"

definition base_lock :: "LOCK option \<Rightarrow> LOCK" where
  "base_lock e = (case e of None \<Rightarrow> new_lock | Some l \<Rightarrow> l)"

lemma new_lock_inv: "lock_inv X procs t new_lock {} None"
  by (simp add: lock_inv_def granted_ok_def leaders_ok_def queue_ok_def requested_ok_def exclusive_def entries_used_def
      new_lock_def holders_n_def waiters_n_def sum_list_replicate)

lemma base_lock_inv:
  assumes "entry_ok X procs t e"
  shows "lock_inv X procs t (base_lock e) {} None" "stuck procs t (base_lock e) {} (waitProcs (base_lock e))"
  using assms new_lock_inv by (auto simp: entry_ok_def lock_ok_def base_lock_def new_lock_def split: option.splits)

lemma add_entry_inv:
  assumes inv: "lock_inv X procs t l E pm" and p: "p \<notin> fst ` entries l"
    and g: "\<And>g. lockGroupLeader (procs p) = Some g \<Longrightarrow> lockGroupLeader (procs g) = Some g"
  shows "lock_inv X procs t (l\<lparr>procLocks := procLocks l @ [(p, \<lparr>groupLeader = leader_of procs p, holdMask = 0, releaseMask = 0\<rparr>)]\<rparr>) (insert p E) pm"
proof -
  note ok = lock_invD [OF inv]
  let ?n = "\<lparr>groupLeader = leader_of procs p, holdMask = 0, releaseMask = 0\<rparr>"
  let ?l = "l\<lparr>procLocks := procLocks l @ [(p, ?n)]\<rparr>"
  have h: "holders_n ?l m = holders_n l m" for m by (simp add: holders_n_def)
  have "granted_ok ?l"
    using ok(1) p unfolding granted_ok_def h by (auto simp: image_iff)
  moreover have "leaders_ok procs ?l" using ok(2) g by (simp add: leaders_ok_def)
  moreover have "queue_ok procs t ?l pm"
    using ok(3) by (fastforce simp: queue_ok_def)
  moreover have "requested_ok procs ?l pm" using ok(4) by (simp add: requested_ok_def waiters_n_def)
  moreover have "exclusive X t ?l" using ok(5) by (auto simp: exclusive_def)
  moreover have "entries_used (insert p E) ?l" using ok(6) by (auto simp: entries_used_def)
  ultimately show ?thesis by (simp add: lock_inv_def)
qed

lemma add_request_inv:
  assumes "lock_inv X procs t l E None" "valid_mode m"
  shows "lock_inv X procs t (l\<lparr>nRequested := nRequested l + 1, requested := incr 1 m (requested l)\<rparr>) E (Some m)"
proof -
  note ok = lock_invD [OF assms(1)]
  have small: "m < MAX_LOCKMODES" using assms(2) valid_mode_small by blast
  show ?thesis
    using ok small
    by (auto simp: lock_inv_def granted_ok_def holders_n_def leaders_ok_def queue_ok_def requested_ok_def exclusive_def
        entries_used_def nth_incr sum_list_incr waiters_n_def)
qed

lemma undo_request_inv:
  assumes "lock_inv X procs t l E (Some m)" "valid_mode m"
    and "\<And>n. bit w n \<longleftrightarrow> n \<in> (\<lambda>q. waitLockMode (procs q)) ` set (waitProcs l)"
  shows "lock_inv X procs t (l\<lparr>nRequested := nRequested l - 1, requested := incr (-1) m (requested l), waitMask := w\<rparr>) E None"
proof -
  note ok = lock_invD [OF assms(1)]
  let ?l = "l\<lparr>nRequested := nRequested l - 1, requested := incr (-1) m (requested l), waitMask := w\<rparr>"
  have small: "m < MAX_LOCKMODES" using assms(2) valid_mode_small by blast
  have "granted_ok ?l" using ok(1) by (simp add: granted_ok_def holders_n_def)
  moreover have "leaders_ok procs ?l" using ok(2) by (simp add: leaders_ok_def)
  moreover have "queue_ok procs t ?l None" using ok(3) assms(3) by (simp add: queue_ok_def)
  moreover have "requested_ok procs ?l None"
    using ok(4) small by (auto simp: requested_ok_def nth_incr sum_list_incr waiters_n_def)
  moreover have "exclusive X t ?l" using ok(5) by (simp add: exclusive_def)
  moreover have "entries_used E ?l" using ok(6) by (simp add: entries_used_def)
  ultimately show ?thesis by (simp add: lock_inv_def)
qed

definition requested_lock :: "procs \<Rightarrow> nat \<Rightarrow> LOCKMODE \<Rightarrow> LOCK \<Rightarrow> LOCK" where
  "requested_lock procs p m l =
     (let l = (if p \<in> fst ` entries l then l
        else l\<lparr>procLocks := procLocks l @ [(p, \<lparr>groupLeader = leader_of procs p, holdMask = 0, releaseMask = 0\<rparr>)]\<rparr>)
      in l\<lparr>nRequested := nRequested l + 1, requested := incr 1 m (requested l)\<rparr>)"

lemma requested_fields:
  "waitProcs (requested_lock procs p m l) = waitProcs l" "waitMask (requested_lock procs p m l) = waitMask l"
  by (simp_all add: requested_lock_def Let_def)

lemma requested_entries:
  "(q, x) \<in> entries (requested_lock procs p m l) \<longleftrightarrow>
   (q, x) \<in> entries l \<or> (p \<notin> fst ` entries l \<and> q = p \<and> x = \<lparr>groupLeader = leader_of procs p, holdMask = 0, releaseMask = 0\<rparr>)"
  by (auto simp: requested_lock_def Let_def)

lemma requested_inv:
  assumes "lock_inv X procs t l {} None" "valid_mode m" "\<And>g. lockGroupLeader (procs p) = Some g \<Longrightarrow> lockGroupLeader (procs g) = Some g"
  shows "lock_inv X procs t (requested_lock procs p m l) {p} (Some m)"
proof -
  have "lock_inv X procs t l {p} None" using assms(1) by (auto simp: lock_inv_def entries_used_def)
  then show ?thesis
    using add_entry_inv [OF assms(1) _ assms(3), of p] add_request_inv [OF _ assms(2)]
    by (simp add: requested_lock_def Let_def)
qed

lemma real_conflict_requested: "real_conflict t l q n \<Longrightarrow> real_conflict t (requested_lock procs p m l) q n"
  unfolding real_conflict_def requested_entries by blast

lemma requested_stuck:
  "stuck procs t l A qs \<Longrightarrow> stuck procs t (requested_lock procs p m l) A qs"
  by (erule stuck_mono) (auto intro: real_conflict_requested)

lemma requested_entry:
  assumes "\<And>pl. (p, pl) \<in> entries l \<Longrightarrow> \<not> bit (holdMask pl) m"
  obtains pl where "(p, pl) \<in> entries (requested_lock procs p m l)" "\<not> bit (holdMask pl) m"
proof (cases "p \<in> fst ` entries l")
  case True
  then obtain pl where "(p, pl) \<in> entries l" by auto
  then show ?thesis using that assms by (auto simp: requested_entries)
next
  case False
  then show ?thesis using that by (force simp: requested_entries)
qed

lemma requested_has_entry:
  obtains pl where "(p, pl) \<in> entries (requested_lock procs p m l)"
  using that unfolding requested_entries by (cases "p \<in> fst ` entries l") auto

text \<open>Shared memory has no room for the request.\<close>

definition no_room :: "bool \<Rightarrow> bool \<Rightarrow> LOCK option \<Rightarrow> nat \<Rightarrow> bool" where
  "no_room lock_room proclock_room e p \<longleftrightarrow>
     e = None \<and> \<not> lock_room \<or> p \<notin> fst ` entries (base_lock e) \<and> \<not> proclock_room"

lemma SetupLockInTable_correct:
  assumes e: "entry_ok X procs t e" and m: "valid_mode m"
    and g: "\<And>g. lockGroupLeader (procs p) = Some g \<Longrightarrow> lockGroupLeader (procs g) = Some g"
  shows "SetupLockInTable lr pr procs p m e =
    (if no_room lr pr e p then Inr (Setup_NULL e)
     else if \<exists>pl. (p, pl) \<in> entries (base_lock e) \<and> bit (holdMask pl) m
     then Inr (Setup_Error (ERROR ''lock is already held'') (requested_lock procs p m (base_lock e)))
     else Inr (Setup_Done (requested_lock procs p m (base_lock e))))"
proof -
  note inv = base_lock_inv [OF e]
  let ?l = "base_lock e" and ?r = "requested_lock procs p m (base_lock e)"
  have found: "map_of (procLocks ?l) p \<noteq> None \<longleftrightarrow> p \<in> fst ` entries ?l"
    by (simp add: map_of_eq_None_iff)
  have nr: "(if nRequested ?l = 0 then None else Some ?l) = e"
    using e by (auto simp: entry_ok_def lock_ok_def base_lock_def new_lock_def split: option.splits)
  have ok: "granted_ok ?r" by (rule lock_invD(1) [OF requested_inv [OF inv(1) m g]])
  obtain pl where pl: "(p, pl) \<in> entries ?r" using requested_has_entry .
  have look: "lookup_proclock p ?r = Inr pl" using lookup_entry [OF ok pl] .
  have held: "(\<exists>pl. (p, pl) \<in> entries ?l \<and> bit (holdMask pl) m) \<longleftrightarrow> bit (holdMask pl) m"
  proof
    assume "\<exists>pl. (p, pl) \<in> entries ?l \<and> bit (holdMask pl) m"
    then obtain a where a: "(p, a) \<in> entries ?l" "bit (holdMask a) m" by blast
    then have "a = pl" using entry_unique [OF ok _ pl] by (auto simp: requested_entries)
    with a(2) show "bit (holdMask pl) m" by simp
  qed (use pl in \<open>auto simp: requested_entries\<close>)
  have nl: "SetupLockInTable lr pr procs p m e =
      (if e = None \<and> \<not> lr then Inr (Setup_NULL None)
       else if p \<notin> fst ` entries ?l \<and> \<not> pr then Inr (Setup_NULL (if nRequested ?l = 0 then None else Some ?l))
       else case lookup_proclock p ?r of Inl e \<Rightarrow> Inl e
         | Inr proclock \<Rightarrow> if holdMask proclock AND LOCKBIT_ON m \<noteq> 0 then Inr (Setup_Error (ERROR ''lock is already held'') ?r)
            else Inr (Setup_Done ?r))"
    unfolding SetupLockInTable_def base_lock_def [symmetric] Let_def found
    by (simp add: requested_lock_def leader_of_def Let_def cong: sum.case_cong if_cong)
  show ?thesis unfolding nl nr look held by (auto simp: and_ON no_room_def)
qed

text \<open>
  Why a request of \<open>p\<close> for mode \<open>m\<close> cannot be granted at once: a waiter asks for a conflicting mode, or
  another process outside the lock group of \<open>p\<close> holds one.
\<close>

definition blocked :: "procs \<Rightarrow> LOCKTAG \<Rightarrow> LOCK option \<Rightarrow> nat \<Rightarrow> LOCKMODE \<Rightarrow> bool" where
  "blocked procs t e p m \<longleftrightarrow> (\<exists>l. e = Some l \<and>
     ((\<exists>q \<in> set (waitProcs l). conflict m (waitLockMode (procs q))) \<or>
      (\<exists>q pl n. (q, pl) \<in> entries l \<and> q \<noteq> p \<and> bit (holdMask pl) n \<and> conflict m n \<and>
         \<not> (groupLeader pl = leader_of procs p \<and> locktag_type t \<noteq> LOCKTAG_RELATION_EXTEND))))"

lemma requested_blocked:
  assumes "lock_inv X procs t (requested_lock procs p m (base_lock e)) {p} (Some m)"
  defines "l \<equiv> requested_lock procs p m (base_lock e)"
  shows "(\<exists>q \<in> set (waitProcs l). conflict m (waitLockMode (procs q))) \<or> real_conflict t l p m \<longleftrightarrow> blocked procs t e p m"
proof -
  have lead: "groupLeader pl = leader_of procs p" if "(p, pl) \<in> entries l" for pl
    using lock_invD(2) [OF assms(1)] that unfolding leaders_ok_def l_def by fastforce
  obtain pl where pl: "(p, pl) \<in> entries l" unfolding l_def using requested_has_entry .
  have "real_conflict t l p m \<longleftrightarrow> (\<exists>q pl n. (q, pl) \<in> entries (base_lock e) \<and> q \<noteq> p \<and> bit (holdMask pl) n \<and> conflict m n \<and>
         \<not> (groupLeader pl = leader_of procs p \<and> locktag_type t \<noteq> LOCKTAG_RELATION_EXTEND))"
    (is "_ \<longleftrightarrow> ?held")
  proof
    assume "real_conflict t l p m"
    then obtain a q b n where c: "(p, a) \<in> entries l" "(q, b) \<in> entries l" "q \<noteq> p" "bit (holdMask b) n" "conflict m n"
        "\<not> same_group t a b" unfolding real_conflict_def by blast
    have "(q, b) \<in> entries (base_lock e)" using c(2,3) by (simp add: l_def requested_entries)
    moreover have "\<not> (groupLeader b = leader_of procs p \<and> locktag_type t \<noteq> LOCKTAG_RELATION_EXTEND)"
      using c(6) lead [OF c(1)] by (simp add: same_group_def)
    ultimately show ?held using c(3-5) by blast
  next
    assume ?held
    then obtain q b n where c: "(q, b) \<in> entries (base_lock e)" "q \<noteq> p" "bit (holdMask b) n" "conflict m n"
        "\<not> (groupLeader b = leader_of procs p \<and> locktag_type t \<noteq> LOCKTAG_RELATION_EXTEND)" by blast
    have "(q, b) \<in> entries l" "\<not> same_group t pl b"
      using c(1,5) lead [OF pl] by (simp_all add: l_def requested_entries same_group_def)
    then show "real_conflict t l p m" using pl c(2-4) unfolding real_conflict_def by blast
  qed
  then show ?thesis
    unfolding blocked_def l_def requested_fields by (cases e) (auto simp: base_lock_def new_lock_def)
qed

section \<open>What the invariant depends on\<close>

definition same_waits :: "procs \<Rightarrow> procs \<Rightarrow> nat \<Rightarrow> bool" where
  "same_waits procs procs' q \<longleftrightarrow> waitLock (procs' q) = waitLock (procs q) \<and> waitStatus (procs' q) = waitStatus (procs q) \<and>
     waitLockMode (procs' q) = waitLockMode (procs q)"

lemma lock_inv_cong:
  assumes inv: "lock_inv X procs t l E pm" and lead: "\<And>q. lockGroupLeader (procs' q) = lockGroupLeader (procs q)"
    and same: "\<And>q. q \<in> set (waitProcs l) \<Longrightarrow> same_waits procs procs' q"
  shows "lock_inv X procs' t l E pm"
proof -
  note ok = lock_invD [OF inv]
  have w: "waiters_n procs' l m = waiters_n procs l m" for m
    unfolding waiters_n_def using same by (intro arg_cong [where f = length] filter_cong) (auto simp: same_waits_def)
  have i: "(\<lambda>q. waitLockMode (procs' q)) ` set (waitProcs l) = (\<lambda>q. waitLockMode (procs q)) ` set (waitProcs l)"
    using same by (intro image_cong) (auto simp: same_waits_def)
  have "leaders_ok procs' l" using ok(2) lead by (simp add: leaders_ok_def leader_of_def)
  moreover have "queue_ok procs' t l pm" using ok(3) same unfolding queue_ok_def i by (auto simp: same_waits_def)
  moreover have "requested_ok procs' l pm" using ok(4) unfolding requested_ok_def w by simp
  ultimately show ?thesis using ok by (simp add: lock_inv_def)
qed

lemma lock_ok_cong:
  assumes "lock_ok X procs t l" "\<And>q. lockGroupLeader (procs' q) = lockGroupLeader (procs q)"
    "\<And>q. q \<in> set (waitProcs l) \<Longrightarrow> same_waits procs procs' q"
  shows "lock_ok X procs' t l"
proof -
  have "stuck procs' t l {} (waitProcs l)"
    by (rule stuck_mono [of procs t l "{}"]) (use assms in \<open>auto simp: lock_ok_def same_waits_def\<close>)
  then show ?thesis using assms lock_inv_cong by (auto simp: lock_ok_def)
qed

section \<open>Joining and leaving the queue\<close>

lemma enqueue_inv:
  assumes inv: "lock_inv X procs t l {p} (Some m)" and q: "waitProcs l = xs @ ys" "p \<notin> set (waitProcs l)"
    and m: "valid_mode m" and pl: "(p, pl) \<in> entries l" "\<not> bit (holdMask pl) m"
    and procs': "\<And>q. q \<noteq> p \<Longrightarrow> same_waits procs procs' q" "\<And>q. lockGroupLeader (procs' q) = lockGroupLeader (procs q)"
      "waitLock (procs' p) = Some t" "waitStatus (procs' p) = PROC_WAIT_STATUS_WAITING" "waitLockMode (procs' p) = m"
  shows "lock_inv X procs' t (l\<lparr>waitProcs := xs @ p # ys, waitMask := waitMask l OR LOCKBIT_ON m\<rparr>) {} None"
proof -
  let ?l = "l\<lparr>waitProcs := xs @ p # ys, waitMask := waitMask l OR LOCKBIT_ON m\<rparr>"
  have "lock_inv X procs' t l {p} (Some m)"
  proof (rule lock_inv_cong [OF inv procs'(2)])
    fix x assume "x \<in> set (waitProcs l)"
    then have "x \<noteq> p" using q(2) by blast
    then show "same_waits procs procs' x" by (rule procs'(1))
  qed
  note ok = lock_invD [OF this]
  have w: "waiters_n procs' ?l i = waiters_n procs' l i + of_bool (i = m)" for i
    by (auto simp: waiters_n_def q(1) procs'(5))
  have small: "m < 32" using valid_mode_small(2) [OF m] .
  have "granted_ok ?l" using ok(1) by (simp add: granted_ok_def holders_n_def)
  moreover have "leaders_ok procs' ?l" using ok(2) by (simp add: leaders_ok_def)
  moreover have "queue_ok procs' t ?l None"
    using ok(3) q pl m procs'(3-5) small by (auto simp: queue_ok_def bit_or_ON)
  moreover have "requested_ok procs' ?l None" using ok(4) unfolding requested_ok_def w by auto
  moreover have "exclusive X t ?l" using ok(5) by (simp add: exclusive_def)
  moreover have "entries_used {} ?l" using ok(6) q(1) by (auto simp: entries_used_def)
  ultimately show ?thesis by (simp add: lock_inv_def)
qed

lemma enqueue_stuck:
  assumes "stuck procs t l {} (xs @ ys)" "p \<notin> set (xs @ ys)" "\<And>q. q \<noteq> p \<Longrightarrow> same_waits procs procs' q" "waitLockMode (procs' p) = m"
    and "(\<exists>q \<in> set xs. conflict m (waitLockMode (procs q))) \<or> real_conflict t l p m" "procLocks l' = procLocks l"
  shows "stuck procs' t l' {} (xs @ p # ys)"
proof -
  have s: "waitLockMode (procs' q) = waitLockMode (procs q)" if "q \<in> set xs \<or> q \<in> set ys" for q
  proof -
    have "q \<noteq> p" using assms(2) that by auto
    then show ?thesis using assms(3) by (simp add: same_waits_def)
  qed
  note c = real_conflict_cong [OF assms(6)]
  have i: "(\<lambda>q. waitLockMode (procs' q)) ` set xs = (\<lambda>q. waitLockMode (procs q)) ` set xs"
    using assms(2) s by (intro image_cong) auto
  have "stuck procs' t l' {} xs" by (rule stuck_mono [of procs t l "{}" xs]) (use assms(1) assms(2) s c in \<open>auto simp: stuck_append\<close>)
  moreover have "stuck procs' t l' (insert m ((\<lambda>q. waitLockMode (procs q)) ` set xs)) ys"
    by (rule stuck_mono [of procs t l "(\<lambda>q. waitLockMode (procs q)) ` set xs" ys]) (use assms(1) assms(2) s c in \<open>auto simp: stuck_append\<close>)
  ultimately show ?thesis using assms(4,5) by (auto simp: stuck_append i c)
qed

text \<open>Who holds a mode of a lock and who waits for it, for an entry of the table.\<close>

definition holds :: "LOCK option \<Rightarrow> nat \<Rightarrow> LOCKMODE \<Rightarrow> bool" where
  "holds e q n \<longleftrightarrow> (\<exists>l pl. e = Some l \<and> (q, pl) \<in> entries l \<and> bit (holdMask pl) n)"

definition queued :: "LOCK option \<Rightarrow> nat \<Rightarrow> bool" where
  "queued e q \<longleftrightarrow> (\<exists>l. e = Some l \<and> q \<in> set (waitProcs l))"

text \<open>The modes a process has marked for release.\<close>

definition marks :: "LOCK option \<Rightarrow> nat \<Rightarrow> LOCKMODE \<Rightarrow> bool" where
  "marks e q n \<longleftrightarrow> (\<exists>l pl. e = Some l \<and> (q, pl) \<in> entries l \<and> bit (releaseMask pl) n)"

lemma marks_simps: "marks None q n \<longleftrightarrow> False" "marks (Some l) q n \<longleftrightarrow> (\<exists>pl. (q, pl) \<in> entries l \<and> bit (releaseMask pl) n)"
  by (auto simp: marks_def)

lemma marks_upd:
  assumes "\<And>pl. releaseMask (f pl) = releaseMask pl" "procLocks l' = procLocks (upd_proclock p f l)"
  shows "marks (Some l') = marks (Some l)"
proof (intro ext)
  fix q n
  show "marks (Some l') q n = marks (Some l) q n"
    unfolding marks_simps assms(2) entries_upd by (cases "q = p") (auto simp: assms(1))
qed

lemma marks_Grant [simp]: "marks (Some (GrantLock l p m)) = marks (Some l)"
  by (rule marks_upd [OF _ GrantLock_fields(1)]) simp

lemma marks_unheld [simp]: "marks (Some (unheld l p m)) = marks (Some l)"
  by (rule marks_upd [OF _ unheld_fields(1)]) simp

lemma marks_holds: "entry_ok X procs t e \<Longrightarrow> marks e q n \<Longrightarrow> holds e q n"
  using marked_held [OF lock_invD(1)] unfolding marks_def holds_def entry_ok_def lock_ok_def by blast

lemma holds_simps: "holds None q n \<longleftrightarrow> False" "holds (Some l) q n \<longleftrightarrow> (\<exists>pl. (q, pl) \<in> entries l \<and> bit (holdMask pl) n)"
  by (auto simp: holds_def)

lemma queued_simps: "queued None q \<longleftrightarrow> False" "queued (Some l) q \<longleftrightarrow> q \<in> set (waitProcs l)"
  by (auto simp: queued_def)

lemma holds_Grant:
  assumes "granted_ok l" "(p, pl) \<in> entries l" "valid_mode m"
  shows "holds (Some (GrantLock l p m)) q n \<longleftrightarrow> holds (Some l) q n \<or> (q = p \<and> n = m)"
proof (cases "q = p")
  case True
  then have "holds (Some (GrantLock l p m)) q n \<longleftrightarrow> (\<exists>x. (p, x) \<in> entries l \<and> (bit (holdMask x) n \<or> n = m))"
    using valid_mode_small(2) [OF assms(3)] by (auto simp: holds_simps entries_Grant bit_or_ON)
  also have "\<dots> \<longleftrightarrow> holds (Some l) q n \<or> n = m" using True assms(2) by (auto simp: holds_simps)
  finally show ?thesis using True by simp
next
  case False
  then show ?thesis by (auto simp: holds_simps entries_Grant)
qed

lemma holds_woken:
  assumes "woken W procs l procs' l'" "lock_inv X procs t l E pm"
  shows "holds (Some l') q n \<longleftrightarrow> holds (Some l) q n \<or> (q \<in> W \<and> n = waitLockMode (procs q))"
proof -
  note ok = lock_invD [OF assms(2)]
  have e: "(q, x) \<in> entries l' \<longleftrightarrow> (\<exists>pl. (q, pl) \<in> entries l \<and>
      x = (if q \<in> W then pl\<lparr>holdMask := holdMask pl OR LOCKBIT_ON (waitLockMode (procs q))\<rparr> else pl))" for x
    using assms(1) by (force simp: woken_def)
  show ?thesis
  proof (cases "q \<in> W")
    case True
    then have q: "q \<in> set (waitProcs l)" using assms(1) by (auto simp: woken_def)
    obtain pl where "(q, pl) \<in> entries l" using queue_okD(4) [OF ok(3) q] by blast
    then show ?thesis using True valid_mode_small(2) [OF queue_okD(3) [OF ok(3) q]]
      by (auto simp: holds_simps e bit_or_ON)
  next
    case False
    then show ?thesis by (auto simp: holds_simps e)
  qed
qed

lemma marks_woken:
  assumes "woken W procs l procs' l'"
  shows "marks (Some l') = marks (Some l)"
proof -
  have e: "(q, x) \<in> entries l' \<longleftrightarrow> (\<exists>pl. (q, pl) \<in> entries l \<and>
      x = (if q \<in> W then pl\<lparr>holdMask := holdMask pl OR LOCKBIT_ON (waitLockMode (procs q))\<rparr> else pl))" for q x
    using assms by (force simp: woken_def)
  show ?thesis
  proof (intro ext)
    fix q n
    show "marks (Some l') q n = marks (Some l) q n" unfolding marks_simps e by (cases "q \<in> W") auto
  qed
qed

lemma queued_woken: "woken W procs l procs' l' \<Longrightarrow> queued (Some l') q \<longleftrightarrow> queued (Some l) q \<and> q \<notin> W"
  by (auto simp: woken_def queued_simps)

lemma holds_exclusive:
  assumes "entry_ok X procs t e" "holds e q n" "holds e q' n'" "q \<noteq> q'" "conflict n n'" "(q, n) \<notin> X" "(q', n') \<notin> X"
  shows "leader_of procs q = leader_of procs q'" "locktag_type t \<noteq> LOCKTAG_RELATION_EXTEND"
proof -
  obtain l pl pl' where l: "e = Some l" "(q, pl) \<in> entries l" "(q', pl') \<in> entries l" "bit (holdMask pl) n" "bit (holdMask pl') n'"
    using assms(2,3) by (auto simp: holds_def)
  have ok: "exclusive X t l" "leaders_ok procs l" using assms(1) l(1) by (auto simp: entry_ok_def lock_ok_def dest: lock_invD)
  have "same_group t pl pl'" using ok(1) l(2-5) assms(4-7) unfolding exclusive_def by blast
  moreover have "groupLeader pl = leader_of procs q" "groupLeader pl' = leader_of procs q'"
    using ok(2) l(2,3) by (auto simp: leaders_ok_def)
  ultimately show "leader_of procs q = leader_of procs q'" "locktag_type t \<noteq> LOCKTAG_RELATION_EXTEND"
    by (simp_all add: same_group_def)
qed

text \<open>The processes \<open>W\<close> are served from the queue of an entry; nothing else changes.\<close>

definition served :: "nat set \<Rightarrow> procs \<Rightarrow> LOCK option \<Rightarrow> procs \<Rightarrow> LOCK option \<Rightarrow> bool" where
  "served W procs e procs' e' \<longleftrightarrow>
     (\<forall>q \<in> W. queued e q) \<and> (\<forall>q. queued e' q \<longleftrightarrow> queued e q \<and> q \<notin> W) \<and>
     (\<forall>q n. holds e' q n \<longleftrightarrow> holds e q n \<or> (q \<in> W \<and> n = waitLockMode (procs q))) \<and> marks e' = marks e \<and>
     (\<forall>q. (procs' q)\<lparr>waitStart := 0\<rparr> =
        (if q \<in> W then (procs q)\<lparr>waitLock := None, waitStatus := PROC_WAIT_STATUS_OK\<rparr> else procs q)\<lparr>waitStart := 0\<rparr>)"

lemma served_woken:
  "woken W procs l procs' l' \<Longrightarrow> lock_inv X procs t l E pm \<Longrightarrow> served W procs (Some l) procs' (Some l')"
  unfolding served_def by (auto simp: holds_woken queued_woken marks_woken) (auto simp: woken_def queued_simps)

lemma served_cong: "holds e1 = holds e \<Longrightarrow> queued e1 = queued e \<Longrightarrow> marks e1 = marks e \<Longrightarrow> served W procs e1 procs' e' = served W procs e procs' e'"
  by (simp add: served_def)

lemma served_refl: "served {} procs e procs e"
  by (simp add: served_def)

lemma CleanUp_served:
  assumes inv: "lock_inv X procs t l {p} None" and p: "(p, pl) \<in> entries l" "p \<notin> set (waitProcs l)"
    and st: "\<not> wakeup \<Longrightarrow> stuck procs t l {} (waitProcs l)"
  shows "\<exists>W e' procs'. CleanUpLock me t p wakeup (l, procs) = Inr (e', procs') \<and> entry_ok X procs' t e' \<and> served W procs (Some l) procs' e'"
proof (cases "nRequested l = 0")
  case True
  have "CleanUpLock me t p wakeup (l, procs) = Inr (None, procs)" using CleanUpLock_correct [of X procs t l p pl wakeup me, OF assms] True by simp
  moreover have "\<not> marks (Some l) q n" for q n
    using no_requests(2) [OF inv True] marked_held [OF lock_invD(1) [OF inv]] by (fastforce simp: marks_simps)
  then have "served {} procs (Some l) procs None"
    using no_requests [OF inv True] by (auto simp: served_def queued_simps holds_simps marks_simps fun_eq_iff)
  moreover have "entry_ok X procs t None" by (simp add: entry_ok_def)
  ultimately show ?thesis by blast
next
  case False
  define l1 where "l1 = (if holdMask pl = 0 then del_proclock p l else l)"
  obtain l' procs' W where r: "CleanUpLock me t p wakeup (l, procs) = Inr (Some l', procs')" "lock_ok X procs' t l'" "woken W procs l1 procs' l'"
    using CleanUpLock_correct [of X procs t l p pl wakeup me, OF assms] False by (auto simp: l1_def)
  have inv1: "lock_inv X procs t l1 {p} None"
    using del_proclock_inv [OF inv p(1) _ p(2)] inv by (auto simp: l1_def lock_inv_def entries_used_def)
  have h: "holds (Some l1) = holds (Some l)"
    using entry_unique [OF lock_invD(1) [OF inv] p(1)] by (auto simp: l1_def holds_simps del_entries fun_eq_iff)
  have q: "queued (Some l1) = queued (Some l)" by (auto simp: l1_def queued_simps fun_eq_iff)
  have "\<not> bit (releaseMask pl) n" if "holdMask pl = 0" for n
    using marked_held [OF lock_invD(1) [OF inv] p(1)] that by fastforce
  then have k: "marks (Some l1) = marks (Some l)"
    using entry_unique [OF lock_invD(1) [OF inv] p(1)] by (auto simp: l1_def marks_simps del_entries fun_eq_iff)
  have "served W procs (Some l1) procs' (Some l')" using served_woken [OF r(3) inv1] .
  then have "served W procs (Some l) procs' (Some l')" by (simp add: served_def h q k)
  then show ?thesis using r by (auto simp: entry_ok_def)
qed

lemma RemoveFromWaitQueue_served:
  assumes inv: "lock_inv X procs t l {} None" and p: "p \<in> set (waitProcs l)"
  defines "procs1 \<equiv> procs(p := (procs p)\<lparr>waitLock := None, waitStatus := PROC_WAIT_STATUS_ERROR\<rparr>)"
  shows "\<exists>W e' procs'. RemoveFromWaitQueue me t p (l, procs) = Inr (e', procs') \<and> entry_ok X procs' t e' \<and>
    served W procs1 (Some (l\<lparr>waitProcs := remove1 p (waitProcs l)\<rparr>)) procs' e'"
proof -
  note ok = lock_invD [OF inv]
  let ?m = "waitLockMode (procs p)"
  define lq where "lq = l\<lparr>waitProcs := remove1 p (waitProcs l)\<rparr>"
  define w where "w = (if granted l ! ?m = incr (-1) ?m (requested l) ! ?m then waitMask l AND LOCKBIT_OFF ?m else waitMask l)"
  define l2 where "l2 = lq\<lparr>nRequested := nRequested lq - 1, requested := incr (-1) ?m (requested lq), waitMask := w\<rparr>"
  have m: "valid_mode ?m" using queue_okD(3) [OF ok(3) p] .
  have d: "distinct (waitProcs l)" using ok(3) by (simp add: queue_ok_def)
  have invq: "lock_inv X procs1 t lq {p} (Some ?m)"
    unfolding lq_def by (rule dequeue_inv [OF inv p]) (auto simp: procs1_def)
  note okq = lock_invD [OF invq]
  define S where "S = (\<lambda>q. waitLockMode (procs1 q)) ` set (waitProcs lq)"
  have last: "granted l ! ?m = incr (-1) ?m (requested l) ! ?m \<longleftrightarrow> ?m \<notin> S"
    using okq(4) valid_mode_small(1) [OF m] waiters_zero [of procs1 lq ?m] by (simp add: requested_ok_def lq_def nth_incr S_def)
  have S: "\<forall>n \<in> S. bit (waitMask l) n" "\<forall>n. bit (waitMask l) n \<longrightarrow> n \<in> S \<or> n = ?m"
    using okq(3) by (auto simp: queue_ok_def lq_def S_def)
  have "\<And>n. bit w n \<longleftrightarrow> n \<in> S"
    using S last unfolding w_def by (auto simp: bit_LOCKBIT_OFF)
  then have inv2: "lock_inv X procs1 t l2 {p} None" unfolding l2_def S_def by (intro undo_request_inv [OF invq m])
  obtain pl where pl: "(p, pl) \<in> entries l2" using queue_okD(4) [OF ok(3) p] by (auto simp: l2_def lq_def)
  have step: "RemoveFromWaitQueue me t p (l, procs) = CleanUpLock me t p True (l2, procs1)"
    by (simp add: RemoveFromWaitQueue_def Let_def l2_def lq_def w_def procs1_def)
  have "p \<notin> set (waitProcs l2)" using d by (simp add: l2_def lq_def)
  from CleanUp_served [OF inv2 pl this, of True me] obtain W e' procs' where
      "CleanUpLock me t p True (l2, procs1) = Inr (e', procs')" "entry_ok X procs' t e'" "served W procs1 (Some l2) procs' e'"
    by auto
  moreover have "holds (Some l2) = holds (Some lq)" "queued (Some l2) = queued (Some lq)" "marks (Some l2) = marks (Some lq)"
    by (auto simp: l2_def holds_simps queued_simps marks_simps fun_eq_iff)
  ultimately show ?thesis unfolding step lq_def [symmetric] by (auto simp: served_def)
qed

lemma holds_unheld: "holds (Some (unheld l p m)) q n \<longleftrightarrow> holds (Some l) q n \<and> \<not> (q = p \<and> n = m)"
proof (cases "q = p")
  case True
  then have "holds (Some (unheld l p m)) q n \<longleftrightarrow> (\<exists>x. (p, x) \<in> entries l \<and> bit (holdMask x) n \<and> n \<noteq> m)"
    by (auto simp: holds_simps entries_unheld bit_LOCKBIT_OFF)
  then show ?thesis using True by (auto simp: holds_simps)
next
  case False
  then show ?thesis by (auto simp: holds_simps entries_unheld)
qed

text \<open>Unless the released mode conflicts with one that is awaited, everybody still waits for a reason.\<close>

lemma unheld_stuck:
  assumes inv: "lock_inv X procs t l E None" and st: "stuck procs t l {} (waitProcs l)"
    and nw: "\<not> LockConflicts ! m AND waitMask l \<noteq> 0"
  shows "stuck procs t (unheld l p m) {} (waitProcs (unheld l p m))"
  unfolding unheld_fields
proof (rule stuck_mono [OF st])
  note ok = lock_invD [OF inv]
  fix q n assume q: "q \<in> set (waitProcs l)" "n = waitLockMode (procs q)" "real_conflict t l q n"
  have "\<not> conflict m n" using nw queue_okD(5) [OF ok(3) q(1)] q(2) by (auto simp: and_nonzero)
  then have ne: "i \<noteq> m" if "conflict n i" for i
    using that conflict_sym [of n m] queue_okD(3) [OF ok(3) q(1)] q(2) by blast
  show "real_conflict t (unheld l p m) q n"
  proof (rule real_conflict_mono [OF q(3)])
    fix x a assume "(x, a) \<in> entries l"
    then show "\<exists>a'. (x, a') \<in> entries (unheld l p m) \<and> groupLeader a' = groupLeader a \<and>
        (\<forall>i. bit (holdMask a) i \<and> conflict n i \<longrightarrow> bit (holdMask a') i)"
      using ne by (intro exI [of _ "if x = p then a\<lparr>holdMask := holdMask a AND LOCKBIT_OFF m\<rparr> else a"])
        (auto simp: entries_unheld bit_LOCKBIT_OFF)
  qed
qed simp_all

lemma release_in_table_correct:
  assumes e: "entry_ok X procs t e" and h: "holds e p m" and q: "\<not> queued e p" and k: "\<not> marks e p m"
  shows "\<exists>W e1 e' procs'. release_in_table p t m (e, procs) = Inr (True, e', procs') \<and> entry_ok X procs' t e' \<and>
    (\<forall>x n. holds e1 x n \<longleftrightarrow> holds e x n \<and> \<not> (x = p \<and> n = m)) \<and> queued e1 = queued e \<and> marks e1 = marks e \<and> served W procs e1 procs' e'"
proof -
  obtain l pl where l: "e = Some l" "(p, pl) \<in> entries l" "bit (holdMask pl) m" using h by (auto simp: holds_def)
  have ok: "lock_inv X procs t l {} None" "stuck procs t l {} (waitProcs l)" using e l(1) by (auto simp: entry_ok_def lock_ok_def)
  note inv = lock_invD [OF ok(1)]
  have m: "valid_mode m" using held_valid [OF inv(1) l(2,3)] .
  have inv': "lock_inv X procs t (unheld l p m) {p} None" using UnGrantLock_inv [OF ok(1) l(2,3)] k l(1,2) by (simp add: marks_simps)
  obtain pl' where pl': "(p, pl') \<in> entries (unheld l p m)" using l(2) by (auto simp: entries_unheld)
  let ?w = "LockConflicts ! m AND waitMask l \<noteq> 0"
  have st: "stuck procs t (unheld l p m) {} (waitProcs (unheld l p m))" if "\<not> ?w"
    using unheld_stuck [OF ok that] .
  have pq: "p \<notin> set (waitProcs (unheld l p m))" using q l(1) by (simp add: unheld_fields queued_simps)
  from CleanUp_served [of X procs t "unheld l p m" p pl' ?w p, OF inv' pl' pq st] obtain W e' procs' where
      r: "CleanUpLock p t p ?w (unheld l p m, procs) = Inr (e', procs')" "entry_ok X procs' t e'" "served W procs (Some (unheld l p m)) procs' e'"
    by blast
  have "map_of (procLocks l) p = Some pl" using inv(1) l(2) by (simp add: granted_ok_def map_of_eq_Some_iff)
  then have step: "release_in_table p t m (e, procs) = Inr (True, e', procs')"
    using l(1,3) r(1) by (simp add: release_in_table_def and_ON UnGrantLock_eq)
  have "holds (Some (unheld l p m)) x n \<longleftrightarrow> holds e x n \<and> \<not> (x = p \<and> n = m)" for x n
    unfolding l(1) by (rule holds_unheld)
  moreover have "queued (Some (unheld l p m)) = queued e" by (auto simp: l(1) queued_simps unheld_fields fun_eq_iff)
  moreover have "marks (Some (unheld l p m)) = marks e"
    by (simp add: l(1))
  ultimately show ?thesis using step r(2,3) by blast
qed

section \<open>Sleeping\<close>

lemma queue_scan_correct:
  assumes inv: "lock_inv X procs t l {p} (Some m)" and pl: "(p, pl) \<in> entries l" and m: "valid_mode m"
    and "waitProcs l = passed @ qs" "\<And>n. bit ahead n \<Longrightarrow> n \<in> (\<lambda>q. waitLockMode (procs q)) ` set passed"
  shows "\<exists>place. queue_scan p procs m t l held qs ahead = Inr place \<and>
    (place = Grant_Now \<longrightarrow> \<not> real_conflict t l p m) \<and>
    (\<forall>q. place = Before q \<longrightarrow> (\<exists>xs ys. waitProcs l = xs @ q # ys \<and>
       ((\<exists>q \<in> set xs. conflict m (waitLockMode (procs q))) \<or> real_conflict t l p m)))"
  using assms(4,5)
proof (induction qs arbitrary: passed ahead)
  case (Cons q qs)
  note check = LockCheckConflicts_inv [OF inv pl m, of p]
  have next1: "waitProcs l = (passed @ [q]) @ qs" using Cons.prems(1) by simp
  have amask: "\<exists>q \<in> set passed. conflict m (waitLockMode (procs q))" if "LockConflicts ! m AND ahead \<noteq> 0"
    using that Cons.prems(2) by (auto simp: and_nonzero)
  consider (group) "lockGroupLeader (procs p) \<noteq> None \<and> lockGroupLeader (procs p) = lockGroupLeader (procs q)"
    | (before) "\<not> (lockGroupLeader (procs p) \<noteq> None \<and> lockGroupLeader (procs p) = lockGroupLeader (procs q))"
        "LockConflicts ! waitLockMode (procs q) AND held \<noteq> 0"
    | (after) "\<not> (lockGroupLeader (procs p) \<noteq> None \<and> lockGroupLeader (procs p) = lockGroupLeader (procs q))"
        "LockConflicts ! waitLockMode (procs q) AND held = 0"
    by blast
  then show ?case
  proof cases
    case group
    then have "queue_scan p procs m t l held (q # qs) ahead = queue_scan p procs m t l held qs ahead"
      unfolding queue_scan.simps(2) by (rule if_P)
    then show ?thesis using Cons.IH [OF next1, of ahead] Cons.prems(2) by auto
  next
    case before
    show ?thesis
      unfolding queue_scan.simps(2) if_not_P [OF before(1)] if_P [OF before(2)]
      using check amask Cons.prems(1) by (auto split: if_splits)
  next
    case after
    then have "queue_scan p procs m t l held (q # qs) ahead =
        queue_scan p procs m t l held qs (ahead OR LOCKBIT_ON (waitLockMode (procs q)))"
      unfolding queue_scan.simps(2) if_not_P [OF after(1)] by simp
    moreover have "n \<in> (\<lambda>q. waitLockMode (procs q)) ` set (passed @ [q])" if "bit (ahead OR LOCKBIT_ON (waitLockMode (procs q))) n" for n
      using that Cons.prems(2) by (auto simp: bit_or_ON)
    ultimately show ?thesis using Cons.IH [OF next1] by simp
  qed
qed simp

lemma insert_before_append: "q \<notin> set xs \<Longrightarrow> insert_before q p (xs @ q # ys) = xs @ p # q # ys"
  by (induction xs) auto

lemma requested_pos:
  assumes "lock_inv X procs t l E pm" "m < MAX_LOCKMODES" "0 < requested l ! m"
  shows "0 < nRequested l"
proof -
  note ok = lock_invD [OF assms(1)]
  have len: "length (requested l) = MAX_LOCKMODES" using ok(4) by (simp add: requested_ok_def)
  have nn: "\<forall>x \<in> set (requested l). 0 \<le> x" using counts_nonneg(1) [OF assms(1)] len by (fastforce simp: in_set_conv_nth)
  have "sum_list (requested l) \<noteq> 0"
    using sum_list_nonneg_eq_0_iff [of "requested l"] nn assms(2,3) len by (metis less_irrefl nth_mem)
  moreover have "0 \<le> sum_list (requested l)" using nn by (intro sum_list_nonneg) blast
  ultimately show ?thesis using ok(4) by (simp add: requested_ok_def)
qed

lemma pending_pos: "lock_inv X procs t l E (Some m) \<Longrightarrow> valid_mode m \<Longrightarrow> 0 < nRequested l"
  using requested_pos [of X procs t l E "Some m" m] valid_mode_small(1) [of m] lock_invD(1,4) [of X procs t l E "Some m"]
  by (auto simp: requested_ok_def granted_ok_def)

lemma used_pos:
  assumes inv: "lock_inv X procs t l E None" and used: "waitProcs l \<noteq> [] \<or> (\<exists>(q, pl) \<in> entries l. holdMask pl \<noteq> 0)"
  shows "0 < nRequested l"
proof -
  have "nRequested l \<noteq> 0" using no_requests [OF inv] used by fastforce
  then show ?thesis using counts_nonneg(2,3) [OF inv] by linarith
qed

lemma Grant_ok:
  assumes inv: "lock_inv X procs t l {p} (Some m)" and st: "stuck procs t l {} (waitProcs l)"
    and pl: "(p, pl) \<in> entries l" "\<not> bit (holdMask pl) m" and m: "valid_mode m" and free: "grantable X t l p m"
    and q: "p \<in> set (waitProcs l) \<Longrightarrow> waitLockMode (procs p) \<noteq> m"
  shows "lock_ok X procs t (GrantLock l p m)"
proof -
  have "lock_inv X procs t (GrantLock l p m) {} None" using GrantLock_inv [OF inv pl m free q] by simp
  moreover have "stuck procs t (GrantLock l p m) {} (waitProcs (GrantLock l p m))"
    unfolding GrantLock_fields by (rule stuck_mono [OF st]) (auto intro: real_conflict_Grant)
  moreover have "0 < nRequested (GrantLock l p m)" using pending_pos [OF inv m] by (simp add: GrantLock_fields)
  ultimately show ?thesis by (simp add: lock_ok_def)
qed

text \<open>The three ways out of \<open>ProcSleep\<close>.\<close>

definition sleep_post :: "(nat \<times> LOCKMODE) set \<Rightarrow> procs \<Rightarrow> LOCKTAG \<Rightarrow> LOCK \<Rightarrow> nat \<Rightarrow> LOCKMODE \<Rightarrow> ProcWaitStatus \<Rightarrow> LOCK option \<Rightarrow> procs \<Rightarrow> bool" where
  "sleep_post X procs t l p m status e' procs' \<longleftrightarrow> entry_ok X procs' t e' \<and>
     (case status of
        PROC_WAIT_STATUS_OK \<Rightarrow> procs' = procs \<and> queued e' = queued (Some l) \<and> marks e' = marks (Some l) \<and>
          (\<forall>q n. holds e' q n \<longleftrightarrow> holds (Some l) q n \<or> (q = p \<and> n = m))
      | PROC_WAIT_STATUS_WAITING \<Rightarrow>
          procs' = procs(p := (procs p)\<lparr>waitLock := Some t, waitLockMode := m, waitStatus := PROC_WAIT_STATUS_WAITING\<rparr>) \<and>
          holds e' = holds (Some l) \<and> marks e' = marks (Some l) \<and> (\<forall>q. queued e' q \<longleftrightarrow> queued (Some l) q \<or> q = p)
      | PROC_WAIT_STATUS_ERROR \<Rightarrow>
          \<exists>W. served W (procs(p := (procs p)\<lparr>waitLock := None, waitLockMode := m, waitStatus := PROC_WAIT_STATUS_ERROR\<rparr>)) (Some l) procs' e')"

lemma ProcSleep_correct:
  assumes inv: "lock_inv X procs t l {p} (Some m)" and st: "stuck procs t l {} (waitProcs l)"
    and pl: "(p, pl) \<in> entries l" "\<not> bit (holdMask pl) m" and m: "valid_mode m" and pq: "p \<notin> set (waitProcs l)"
    and conf: "(\<exists>q \<in> set (waitProcs l). conflict m (waitLockMode (procs q))) \<or> real_conflict t l p m"
  shows "\<exists>status e' procs'. ProcSleep p t m (l, procs) = Inr (status, e', procs') \<and> sleep_post X procs t l p m status e' procs'"
proof -
  let ?held = "group_held (lockGroupLeader (procs p)) l (heldLocks (procs p))"
  let ?scan = "if ?held \<noteq> 0 \<and> waitProcs l \<noteq> [] then queue_scan p procs m t l ?held (waitProcs l) 0 else Inr At_Tail"
  obtain place where scan: "?scan = Inr place" and now: "place = Grant_Now \<Longrightarrow> \<not> real_conflict t l p m"
    and before: "\<And>q. place = Before q \<Longrightarrow> \<exists>xs ys. waitProcs l = xs @ q # ys \<and>
       ((\<exists>q \<in> set xs. conflict m (waitLockMode (procs q))) \<or> real_conflict t l p m)"
    using queue_scan_correct [OF inv pl(1) m, of "[]" "waitProcs l" 0 ?held]
    by (cases "?held \<noteq> 0 \<and> waitProcs l \<noteq> []") auto
  define procs2 where "procs2 = procs(p := (procs p)\<lparr>waitLock := Some t, waitLockMode := m, waitStatus := PROC_WAIT_STATUS_WAITING\<rparr>)"
  have same: "\<And>q. q \<noteq> p \<Longrightarrow> same_waits procs procs2 q" "\<And>q. lockGroupLeader (procs2 q) = lockGroupLeader (procs q)"
    "waitLock (procs2 p) = Some t" "waitStatus (procs2 p) = PROC_WAIT_STATUS_WAITING" "waitLockMode (procs2 p) = m"
    by (auto simp: procs2_def same_waits_def)
  define lock2 where "lock2 xs ys = l\<lparr>waitProcs := xs @ p # ys, waitMask := waitMask l OR LOCKBIT_ON m\<rparr>" for xs ys
  have inv2: "lock_inv X procs2 t (lock2 xs ys) {} None" if "waitProcs l = xs @ ys" for xs ys
    unfolding lock2_def by (rule enqueue_inv [OF inv that pq m pl same])
  have wait: "sleep_post X procs t l p m PROC_WAIT_STATUS_WAITING (Some (lock2 xs ys)) procs2"
    if q: "waitProcs l = xs @ ys" and c: "(\<exists>q \<in> set xs. conflict m (waitLockMode (procs q))) \<or> real_conflict t l p m" for xs ys
  proof -
    have "stuck procs2 t (lock2 xs ys) {} (waitProcs (lock2 xs ys))"
      using enqueue_stuck [of procs t l xs ys p procs2 m "lock2 xs ys"] st pq same(1,5) c q by (simp add: lock2_def)
    moreover have "0 < nRequested (lock2 xs ys)" using used_pos [OF inv2 [OF q]] by (simp add: lock2_def)
    ultimately have "lock_ok X procs2 t (lock2 xs ys)" using inv2 [OF q] by (simp add: lock_ok_def)
    then show ?thesis
      unfolding sleep_post_def procs2_def using q
      by (auto simp: entry_ok_def lock2_def holds_simps queued_simps marks_simps fun_eq_iff)
  qed
  consider "place = Grant_Now" | "place = Early_Deadlock" | q where "place = Before q" | "place = At_Tail" by (cases place) auto
  then show ?thesis
  proof cases
    case 1
    have "lock_ok X procs t (GrantLock l p m)" using Grant_ok [OF inv st pl m no_conflict_grantable [OF now [OF 1]]] pq by blast
    then have "sleep_post X procs t l p m PROC_WAIT_STATUS_OK (Some (GrantLock l p m)) procs"
      using holds_Grant [OF lock_invD(1) [OF inv] pl(1) m]
      by (auto simp: sleep_post_def entry_ok_def queued_simps GrantLock_fields fun_eq_iff)
    then show ?thesis using scan 1 by (auto simp: ProcSleep_def)
  next
    case 2
    let ?l = "lock2 (waitProcs l) []"
    let ?procs1 = "procs2(p := (procs2 p)\<lparr>waitLock := None, waitStatus := PROC_WAIT_STATUS_ERROR\<rparr>)"
    have "p \<in> set (waitProcs ?l)" by (simp add: lock2_def)
    from RemoveFromWaitQueue_served [OF inv2 this, of p] obtain W e' procs' where
        r: "RemoveFromWaitQueue p t p (?l, procs2) = Inr (e', procs')" "entry_ok X procs' t e'"
          "served W ?procs1 (Some (?l\<lparr>waitProcs := remove1 p (waitProcs ?l)\<rparr>)) procs' e'"
      by auto
    have "holds (Some (?l\<lparr>waitProcs := remove1 p (waitProcs ?l)\<rparr>)) = holds (Some l)"
        "queued (Some (?l\<lparr>waitProcs := remove1 p (waitProcs ?l)\<rparr>)) = queued (Some l)"
        "marks (Some (?l\<lparr>waitProcs := remove1 p (waitProcs ?l)\<rparr>)) = marks (Some l)"
      using pq by (auto simp: lock2_def holds_simps queued_simps marks_simps fun_eq_iff remove1_append)
    moreover have "?procs1 = procs(p := (procs p)\<lparr>waitLock := None, waitLockMode := m, waitStatus := PROC_WAIT_STATUS_ERROR\<rparr>)"
      by (rule ext) (auto simp: procs2_def intro: PGPROC.equality)
    ultimately have "sleep_post X procs t l p m PROC_WAIT_STATUS_ERROR e' procs'"
      using r(2,3) by (auto simp: sleep_post_def served_def)
    then show ?thesis using scan 2 r(1) by (auto simp: ProcSleep_def lock2_def procs2_def)
  next
    case (3 q)
    obtain xs ys where q: "waitProcs l = xs @ q # ys"
        "(\<exists>q \<in> set xs. conflict m (waitLockMode (procs q))) \<or> real_conflict t l p m"
      using before [OF 3] by blast
    have "distinct (waitProcs l)" using lock_invD(3) [OF inv] by (simp add: queue_ok_def)
    then have "insert_before q p (waitProcs l) = xs @ p # q # ys" unfolding q(1) by (intro insert_before_append) auto
    then have "ProcSleep p t m (l, procs) = Inr (PROC_WAIT_STATUS_WAITING, Some (lock2 xs (q # ys)), procs2)"
      using scan 3 by (simp add: ProcSleep_def lock2_def procs2_def)
    then show ?thesis using wait [OF q] by blast
  next
    case 4
    then have "ProcSleep p t m (l, procs) = Inr (PROC_WAIT_STATUS_WAITING, Some (lock2 (waitProcs l) []), procs2)"
      using scan by (simp add: ProcSleep_def lock2_def procs2_def)
    then show ?thesis using wait [of "waitProcs l" "[]"] conf by auto
  qed
qed

section \<open>The contract of the table\<close>

definition acquire_post ::
  "(nat \<times> LOCKMODE) set \<Rightarrow> procs \<Rightarrow> LOCKTAG \<Rightarrow> LOCK option \<Rightarrow> nat \<Rightarrow> LOCKMODE \<Rightarrow> bool \<Rightarrow> bool \<Rightarrow> bool \<Rightarrow>
   acquire_outcome \<Rightarrow> LOCK option \<Rightarrow> procs \<Rightarrow> bool" where
  "acquire_post X procs t e p m full dontWait report out e' procs' \<longleftrightarrow> entry_ok X procs' t e' \<and>
     (case out of
        Granted \<Rightarrow> \<not> full \<and> (blocked procs t e p m \<longrightarrow> \<not> dontWait) \<and>
          (\<exists>h. procs' = procs(p := (procs p)\<lparr>heldLocks := h\<rparr>)) \<and> queued e' = queued e \<and> marks e' = marks e \<and>
          (\<forall>q n. holds e' q n \<longleftrightarrow> holds e q n \<or> (q = p \<and> n = m))
      | Not_Available \<Rightarrow> (full \<and> \<not> report \<and> e' = e \<or> \<not> full \<and> blocked procs t e p m \<and> dontWait) \<and>
          procs' = procs \<and> queued e' = queued e \<and> holds e' = holds e \<and> marks e' = marks e
      | Waiting \<Rightarrow> \<not> full \<and> blocked procs t e p m \<and> \<not> dontWait \<and>
          (\<exists>h. procs' = procs(p := (procs p)\<lparr>heldLocks := h, waitLock := Some t, waitLockMode := m, waitStatus := PROC_WAIT_STATUS_WAITING\<rparr>)) \<and>
          holds e' = holds e \<and> marks e' = marks e \<and> (\<forall>q. queued e' q \<longleftrightarrow> queued e q \<or> q = p)
      | Raised err \<Rightarrow>
          full \<and> report \<and> err = ERROR ''out of shared memory'' \<and> e' = e \<and> procs' = procs \<or>
          \<not> full \<and> blocked procs t e p m \<and> \<not> dontWait \<and> err = ERROR ''deadlock detected'' \<and>
          (\<exists>h W. served W (procs(p := (procs p)\<lparr>heldLocks := h, waitLock := None, waitLockMode := m, waitStatus := PROC_WAIT_STATUS_ERROR\<rparr>)) e procs' e'))"

lemma requested_holds:
  "holds (Some (requested_lock procs p m (base_lock e))) = holds e" "queued (Some (requested_lock procs p m (base_lock e))) = queued e"
  "marks (Some (requested_lock procs p m (base_lock e))) = marks e"
proof -
  have b: "holds (Some (base_lock e)) = holds e" "queued (Some (base_lock e)) = queued e" "marks (Some (base_lock e)) = marks e"
    by (cases e; auto simp: base_lock_def new_lock_def holds_simps queued_simps marks_simps fun_eq_iff)+
  show "marks (Some (requested_lock procs p m (base_lock e))) = marks e"
    unfolding b(3) [symmetric] by (auto simp: marks_simps requested_entries fun_eq_iff)
  show "queued (Some (requested_lock procs p m (base_lock e))) = queued e"
    unfolding b(2) [symmetric] by (simp add: queued_simps requested_fields fun_eq_iff)
  show "holds (Some (requested_lock procs p m (base_lock e))) = holds e"
    unfolding b(1) [symmetric] by (auto simp: holds_simps requested_entries fun_eq_iff)
qed

lemma refused_ok:
  assumes inv: "lock_inv X procs t l {p} (Some m)" and st: "stuck procs t l {} (waitProcs l)"
    and pl: "(p, pl) \<in> entries l" and m: "valid_mode m" and pq: "p \<notin> set (waitProcs l)"
    and mask: "\<And>n. bit (waitMask l) n \<longleftrightarrow> n \<in> (\<lambda>q. waitLockMode (procs q)) ` set (waitProcs l)"
    and conf: "(\<exists>q \<in> set (waitProcs l). conflict m (waitLockMode (procs q))) \<or> real_conflict t l p m"
  defines "l1 \<equiv> if holdMask pl = 0 then del_proclock p l else l"
  defines "l2 \<equiv> l1\<lparr>nRequested := nRequested l1 - 1, requested := incr (-1) m (requested l1)\<rparr>"
  shows "lock_ok X procs t l2" "holds (Some l2) = holds (Some l)" "queued (Some l2) = queued (Some l)" "marks (Some l2) = marks (Some l)"
proof -
  note ok = lock_invD [OF inv]
  have f: "waitProcs l1 = waitProcs l" "waitMask l1 = waitMask l" by (simp_all add: l1_def)
  have inv1: "lock_inv X procs t l1 {} (Some m)"
  proof (cases "holdMask pl = 0")
    case True
    then show ?thesis using del_proclock_inv [OF inv pl _ pq] by (simp add: l1_def)
  next
    case False
    have "entries_used {} l"
      using ok(6) False entry_unique [OF ok(1) pl] by (fastforce simp: entries_used_def)
    then show ?thesis using False inv by (simp add: l1_def lock_inv_def)
  qed
  have l2': "l2 = l1\<lparr>nRequested := nRequested l1 - 1, requested := incr (-1) m (requested l1), waitMask := waitMask l1\<rparr>"
    by (simp add: l2_def)
  have inv2: "lock_inv X procs t l2 {} None"
    unfolding l2' by (rule undo_request_inv [OF inv1 m]) (simp add: f mask)
  have keep: "(x, a) \<in> entries l2 \<longleftrightarrow> (x, a) \<in> entries l \<and> (x = p \<longrightarrow> holdMask pl \<noteq> 0)" for x a
    by (auto simp: l2_def l1_def del_entries)
  show h: "holds (Some l2) = holds (Some l)"
    using entry_unique [OF ok(1) pl] by (auto simp: holds_simps keep fun_eq_iff)
  have "\<not> bit (releaseMask pl) n" if "holdMask pl = 0" for n using marked_held [OF ok(1) pl] that by fastforce
  then show "marks (Some l2) = marks (Some l)"
    using entry_unique [OF ok(1) pl] by (auto simp: marks_simps keep fun_eq_iff)
  show "queued (Some l2) = queued (Some l)" by (auto simp: queued_simps l2_def f)
  have "stuck procs t l2 {} (waitProcs l)"
  proof (rule stuck_mono [OF st])
    fix q n assume "q \<in> set (waitProcs l)" and rc: "real_conflict t l q n"
    then have "q \<noteq> p" using pq by blast
    then show "real_conflict t l2 q n"
      using rc entry_unique [OF ok(1) pl] unfolding real_conflict_def keep by (metis bit_0_eq bot_apply bot_bool_def)
  qed simp_all
  moreover have "0 < nRequested l2"
  proof (rule used_pos [OF inv2])
    show "waitProcs l2 \<noteq> [] \<or> (\<exists>(q, pl) \<in> entries l2. holdMask pl \<noteq> 0)"
      using conf
    proof
      assume "real_conflict t l p m"
      then obtain q a n where "(q, a) \<in> entries l" "q \<noteq> p" "bit (holdMask a) n" unfolding real_conflict_def by blast
      then show ?thesis using keep mask_nonzero by fastforce
    qed (auto simp: l2_def f)
  qed
  ultimately show "lock_ok X procs t l2" using inv2 by (simp add: lock_ok_def l2_def f)
qed

lemma acquire_in_table_correct:
  assumes e: "entry_ok X procs t e" and m: "valid_mode m" and free: "\<not> holds e p m" and idle: "waitLock (procs p) = None"
    and g: "\<And>g. lockGroupLeader (procs p) = Some g \<Longrightarrow> lockGroupLeader (procs g) = Some g"
  shows "\<exists>out e' procs'. acquire_in_table lr pr p t m dw rme (e, procs) = Inr (out, e', procs') \<and>
    acquire_post X procs t e p m (no_room lr pr e p) dw rme out e' procs'"
proof -
  define l where "l = requested_lock procs p m (base_lock e)"
  note base = base_lock_inv [OF e]
  have free': "\<And>pl. (p, pl) \<in> entries (base_lock e) \<Longrightarrow> \<not> bit (holdMask pl) m"
    using free by (cases e) (auto simp: base_lock_def new_lock_def holds_simps)
  have set_up: "SetupLockInTable lr pr procs p m e = (if no_room lr pr e p then Inr (Setup_NULL e) else Inr (Setup_Done l))"
    using SetupLockInTable_correct [of X procs t e m p lr pr, OF e m g] free' by (auto simp: l_def)
  have inv: "lock_inv X procs t l {p} (Some m)" unfolding l_def by (rule requested_inv [OF base(1) m g])
  have st: "stuck procs t l {} (waitProcs l)" unfolding l_def requested_fields by (rule requested_stuck [OF base(2)])
  obtain pl where pl: "(p, pl) \<in> entries l" "\<not> bit (holdMask pl) m" unfolding l_def using requested_entry [OF free'] .
  have look: "lookup_proclock p l = Inr pl" using lookup_entry [OF lock_invD(1) [OF inv] pl(1)] .
  have pq: "p \<notin> set (waitProcs l)" using queue_okD(1) [OF lock_invD(3) [OF inv]] idle by fastforce
  have mask: "bit (waitMask l) n \<longleftrightarrow> n \<in> (\<lambda>q. waitLockMode (procs q)) ` set (waitProcs l)" for n
    using lock_invD(3) [OF base(1)] by (auto simp: l_def requested_fields queue_ok_def)
  have hq: "holds (Some l) = holds e" "queued (Some l) = queued e" "marks (Some l) = marks e" unfolding l_def by (rule requested_holds)+
  let ?conf = "(\<exists>q \<in> set (waitProcs l). conflict m (waitLockMode (procs q))) \<or> real_conflict t l p m"
  have check: "(if LockConflicts ! m AND waitMask l \<noteq> 0 then Inr True else LockCheckConflicts p procs m t l p) = Inr ?conf"
    using conflict_mask [of "waitMask l" "(\<lambda>q. waitLockMode (procs q)) ` set (waitProcs l)" m] mask
      LockCheckConflicts_inv [OF inv pl(1) m, of p] by auto
  have bl: "?conf \<longleftrightarrow> blocked procs t e p m" using requested_blocked inv unfolding l_def by blast
  show ?thesis
  proof (cases "no_room lr pr e p")
    case True
    then have "acquire_in_table lr pr p t m dw rme (e, procs) =
        Inr (if rme then Raised (ERROR ''out of shared memory'') else Not_Available, e, procs)"
      using set_up by (simp add: acquire_in_table_def)
    then show ?thesis using e True by (auto simp: acquire_post_def)
  next
    case False
    let ?procs = "procs(p := (procs p)\<lparr>heldLocks := holdMask pl\<rparr>)"
    have step: "acquire_in_table lr pr p t m dw rme (e, procs) =
        (if \<not> ?conf then Inr (Granted, Some (GrantLock l p m), procs)
         else if dw then let l = (if holdMask pl = 0 then del_proclock p l else l)
           in Inr (Not_Available, Some (l\<lparr>nRequested := nRequested l - 1, requested := incr (-1) m (requested l)\<rparr>), procs)
         else map_sum id (\<lambda>(status, r). (sleep_outcome status, r)) (ProcSleep p t m (l, ?procs)))"
      using set_up False by (simp add: acquire_in_table_def check look)
    consider "\<not> ?conf" | "?conf" "dw" | "?conf" "\<not> dw" by blast
    then show ?thesis
    proof cases
      case 1
      have "lock_ok X procs t (GrantLock l p m)" using Grant_ok [OF inv st pl m no_conflict_grantable] 1 pq by blast
      then have "acquire_post X procs t e p m (no_room lr pr e p) dw rme Granted (Some (GrantLock l p m)) procs"
        using False 1 bl holds_Grant [OF lock_invD(1) [OF inv] pl(1) m] hq
        by (auto simp: acquire_post_def entry_ok_def queued_simps GrantLock_fields fun_eq_iff intro!: exI [of _ "heldLocks (procs p)"])
      then show ?thesis unfolding step using 1 by auto
    next
      case 2
      then show ?thesis
        unfolding step using refused_ok [OF inv st pl(1) m pq mask 2(1)] hq False bl
        by (auto simp: acquire_post_def entry_ok_def Let_def)
    next
      case 3
      have sw: "\<And>q. same_waits procs ?procs q" "\<And>q. lockGroupLeader (?procs q) = lockGroupLeader (procs q)"
        by (auto simp: same_waits_def)
      have inv3: "lock_inv X ?procs t l {p} (Some m)" by (rule lock_inv_cong [OF inv sw(2) sw(1)])
      have st3: "stuck ?procs t l {} (waitProcs l)" by (rule stuck_mono [OF st]) auto
      have conf3: "(\<exists>q \<in> set (waitProcs l). conflict m (waitLockMode (?procs q))) \<or> real_conflict t l p m" using 3(1) by auto
      obtain status e' procs' where s: "ProcSleep p t m (l, ?procs) = Inr (status, e', procs')"
          "sleep_post X ?procs t l p m status e' procs'"
        using ProcSleep_correct [OF inv3 st3 pl m pq conf3] by blast
      then show ?thesis
        unfolding step using 3 False bl
        by (cases status) (auto simp: sleep_outcome_def sleep_post_def acquire_post_def hq served_cong [OF hq])
    qed
  qed
qed

lemma idle_not_queued:
  assumes "entry_ok X procs t e" "waitLock (procs p) = None"
  shows "\<not> queued e p"
proof
  assume "queued e p"
  then obtain l where l: "e = Some l" "p \<in> set (waitProcs l)" by (auto simp: queued_def)
  then have "queue_ok procs t l None" using assms(1) lock_invD(3) by (auto simp: entry_ok_def lock_ok_def)
  from queue_okD(1) [OF this l(2)] assms(2) show False by simp
qed

text \<open>What a release leaves to the processes that were not waiting.\<close>

lemma served_not_queued:
  assumes "served W procs e procs' e'" "\<not> queued e p"
  shows "holds e' p n \<longleftrightarrow> holds e p n" "\<not> queued e' p" "holds e q k \<Longrightarrow> holds e' q k"
    "waitLock (procs' p) = waitLock (procs p)"
proof -
  have W: "p \<notin> W" using assms by (auto simp: served_def)
  then have "(procs' p)\<lparr>waitStart := 0\<rparr> = (procs p)\<lparr>waitStart := 0\<rparr>" using assms(1) by (simp add: served_def)
  from arg_cong [OF this, of waitLock] show "waitLock (procs' p) = waitLock (procs p)" by simp
  show "holds e' p n \<longleftrightarrow> holds e p n" "\<not> queued e' p" "holds e q k \<Longrightarrow> holds e' q k"
    using assms W by (auto simp: served_def)
qed

text \<open>The outcomes by the conditions that lead to them.\<close>

lemma acquire_post_table:
  assumes post: "acquire_post X procs t e p m full dontWait report out e' procs'" and idle: "\<not> queued e p"
  shows "entry_ok X procs' t e' \<and>
    (if full
     then e' = e \<and> procs' = procs \<and>
       out = (if report then Raised (ERROR ''out of shared memory'') else Not_Available)
     else if \<not> blocked procs t e p m
     then out = Granted \<and> queued e' = queued e \<and> (\<forall>q n. holds e' q n \<longleftrightarrow> holds e q n \<or> (q = p \<and> n = m))
     else if dontWait
     then out = Not_Available \<and> procs' = procs \<and> queued e' = queued e \<and> holds e' = holds e \<and> marks e' = marks e
     else out = Granted \<and> queued e' = queued e \<and> (\<forall>q n. holds e' q n \<longleftrightarrow> holds e q n \<or> (q = p \<and> n = m)) \<or>
       out = Waiting \<and> holds e' = holds e \<and> marks e' = marks e \<and> (\<forall>q. queued e' q \<longleftrightarrow> queued e q \<or> q = p) \<and>
         waitLock (procs' p) = Some t \<and> waitLockMode (procs' p) = m \<or>
       out = Raised (ERROR ''deadlock detected'') \<and> \<not> queued e' p \<and> (\<forall>n. holds e' p n \<longleftrightarrow> holds e p n) \<and>
         waitLock (procs' p) = None)"
proof (cases out)
  case (Raised err)
  show ?thesis
  proof (cases full)
    case False
    with post Raised obtain h W where d: "blocked procs t e p m" "\<not> dontWait" "err = ERROR ''deadlock detected''"
        "entry_ok X procs' t e'"
      and s: "served W (procs(p := (procs p)\<lparr>heldLocks := h, waitLock := None, waitLockMode := m, waitStatus := PROC_WAIT_STATUS_ERROR\<rparr>)) e procs' e'"
      by (auto simp: acquire_post_def)
    from served_not_queued [OF s idle] d False Raised show ?thesis by simp
  qed (use post Raised in \<open>auto simp: acquire_post_def\<close>)
qed (use post in \<open>auto simp: acquire_post_def\<close>)

lemma acquire_held:
  assumes e: "entry_ok X procs t e" and m: "valid_mode m" and held: "holds e p m"
    and g: "\<And>g. lockGroupLeader (procs p) = Some g \<Longrightarrow> lockGroupLeader (procs g) = Some g"
  shows "\<exists>l. e = Some l \<and> acquire_in_table lr pr p t m dw rme (e, procs) =
    Inr (Raised (ERROR ''lock is already held''),
      Some (l\<lparr>nRequested := nRequested l + 1, requested := incr 1 m (requested l)\<rparr>), procs)"
proof -
  obtain l pl where l: "e = Some l" "(p, pl) \<in> entries l" "bit (holdMask pl) m" using held by (auto simp: holds_def)
  then have p: "p \<in> fst ` entries l" by force
  have "SetupLockInTable lr pr procs p m e =
      Inr (Setup_Error (ERROR ''lock is already held'') (requested_lock procs p m l))"
    using SetupLockInTable_correct [of X procs t e m p lr pr, OF e m g] l p
    by (auto simp: no_room_def base_lock_def)
  then show ?thesis using l(1) p by (simp add: acquire_in_table_def requested_lock_def)
qed

section \<open>Releasing what is marked\<close>

lemma unheld_entry: "(p, pl) \<in> entries l \<Longrightarrow> (p, pl\<lparr>holdMask := holdMask pl AND LOCKBIT_OFF m\<rparr>) \<in> entries (unheld l p m)"
  by (auto simp: entries_unheld)

lemma ungrant_loop_correct:
  assumes "lock_inv X procs t l {p} None" "(p, pl) \<in> entries l" "releaseMask pl = 0" "distinct is"
    "\<forall>i \<in> set is. bit R i \<longrightarrow> bit (holdMask pl) i" "w \<or> stuck procs t l {} (waitProcs l)"
  shows "\<exists>w' l' pl'. ungrant_loop R p is (w, l) = (w', l') \<and> lock_inv X procs t l' {p} None \<and> (p, pl') \<in> entries l' \<and>
    waitProcs l' = waitProcs l \<and> marks (Some l') = marks (Some l) \<and>
    (\<forall>x n. holds (Some l') x n \<longleftrightarrow> holds (Some l) x n \<and> \<not> (x = p \<and> n \<in> set is \<and> bit R n)) \<and>
    (w' \<or> stuck procs t l' {} (waitProcs l'))"
  using assms
proof (induction "is" arbitrary: l pl w)
  case Nil
  then show ?case by auto
next
  case (Cons i "is")
  show ?case
  proof (cases "bit R i")
    case False
    have step: "ungrant_loop R p (i # is) (w, l) = ungrant_loop R p is (w, l)" using False by (simp add: and_ON)
    have h: "\<not> (x = p \<and> n \<in> set (i # is) \<and> bit R n) \<longleftrightarrow> \<not> (x = p \<and> n \<in> set is \<and> bit R n)" for x n using False by auto
    show ?thesis unfolding step h using Cons.prems by (intro Cons.IH [of l pl w]) auto
  next
    case True
    let ?w = "LockConflicts ! i AND waitMask l \<noteq> 0"
    have held: "bit (holdMask pl) i" using Cons.prems(5) True by simp
    have step: "ungrant_loop R p (i # is) (w, l) = ungrant_loop R p is (w \<or> ?w, unheld l p i)"
      using True by (simp add: and_ON UnGrantLock_eq)
    have inv: "lock_inv X procs t (unheld l p i) {p} None"
      using UnGrantLock_inv [OF Cons.prems(1,2) held] Cons.prems(3) by simp
    have st: "(w \<or> ?w) \<or> stuck procs t (unheld l p i) {} (waitProcs (unheld l p i))"
      using unheld_stuck [OF Cons.prems(1)] Cons.prems(6) by blast
    have bits: "\<forall>j \<in> set is. bit R j \<longrightarrow> bit (holdMask (pl\<lparr>holdMask := holdMask pl AND LOCKBIT_OFF i\<rparr>)) j"
      using Cons.prems(4,5) by (auto simp: bit_LOCKBIT_OFF)
    obtain w' l' pl' where r: "ungrant_loop R p is (w \<or> ?w, unheld l p i) = (w', l')" "lock_inv X procs t l' {p} None"
        "(p, pl') \<in> entries l'" "waitProcs l' = waitProcs (unheld l p i)" "marks (Some l') = marks (Some (unheld l p i))"
        "\<forall>x n. holds (Some l') x n \<longleftrightarrow> holds (Some (unheld l p i)) x n \<and> \<not> (x = p \<and> n \<in> set is \<and> bit R n)"
        "w' \<or> stuck procs t l' {} (waitProcs l')"
      using Cons.IH [OF inv unheld_entry [OF Cons.prems(2)] _ _ bits st] Cons.prems(3,4) by auto
    have "\<forall>x n. holds (Some l') x n \<longleftrightarrow> holds (Some l) x n \<and> \<not> (x = p \<and> n \<in> set (i # is) \<and> bit R n)"
      using r(6) True by (auto simp: holds_unheld)
    then show ?thesis unfolding step using r(1-5,7) by (auto simp: unheld_fields)
  qed
qed

definition unmark :: "nat \<Rightarrow> LOCK \<Rightarrow> LOCK" where
  "unmark p l = upd_proclock p (\<lambda>pl. pl\<lparr>releaseMask := 0\<rparr>) l"

lemma unmark_unheld: "unmark p (unheld l p m) = unheld (unmark p l) p m"
  by (rule LOCK.equality) (auto simp: unmark_def unheld_fields upd_proclock_def intro: PROCLOCK.equality)

lemma unmark_loop:
  "ungrant_loop R p is (w, unmark p l) = (fst (ungrant_loop R p is (w, l)), unmark p (snd (ungrant_loop R p is (w, l))))"
proof (induction "is" arbitrary: w l)
  case (Cons i "is")
  have "waitMask (unmark p l) = waitMask l" by (simp add: unmark_def)
  then show ?case using Cons by (simp add: UnGrantLock_eq unmark_unheld [symmetric])
qed simp

lemma unmark_entries: "(q, x) \<in> entries (unmark p l) \<longleftrightarrow> (\<exists>pl. (q, pl) \<in> entries l \<and> x = (if q = p then pl\<lparr>releaseMask := 0\<rparr> else pl))"
  unfolding unmark_def by (rule entries_upd)

text \<open>Changing a release mask changes nothing else of the invariant.\<close>

lemma upd_release_inv:
  assumes inv: "lock_inv X procs t l E pm"
    and f: "\<And>pl. holdMask (f pl) = holdMask pl \<and> groupLeader (f pl) = groupLeader pl"
    and mk: "\<And>pl m. (p, pl) \<in> entries l \<Longrightarrow> bit (releaseMask (f pl)) m \<Longrightarrow> bit (holdMask pl) m"
  shows "lock_inv X procs t (upd_proclock p f l) E pm" "real_conflict t (upd_proclock p f l) = real_conflict t l"
    "holds (Some (upd_proclock p f l)) = holds (Some l)" "queued (Some (upd_proclock p f l)) = queued (Some l)"
proof -
  note ok = lock_invD [OF inv]
  let ?l = "upd_proclock p f l"
  have sub: "\<exists>a. (q, a) \<in> entries l \<and> holdMask x = holdMask a \<and> groupLeader x = groupLeader a" if "(q, x) \<in> entries ?l" for q x
    using that f by (auto simp: entries_upd)
  have sup: "\<exists>x. (q, x) \<in> entries ?l \<and> holdMask x = holdMask a \<and> groupLeader x = groupLeader a" if "(q, a) \<in> entries l" for q a
    using that f by (intro exI [of _ "if q = p then f a else a"]) (auto simp: entries_upd)
  show h: "holds (Some ?l) = holds (Some l)"
    by (intro ext) (metis (no_types, lifting) holds_simps(2) sub sup)
  have hn: "holders_n ?l m = holders_n l m" for m
    unfolding holders_n_def upd_proclock_def
    by (simp add: filter_map comp_def case_prod_beta f) (auto intro!: arg_cong [where f = length] filter_cong simp: f)
  have g: "granted_ok ?l"
  proof -
    have "\<forall>(q, x) \<in> entries ?l. \<forall>m. bit (holdMask x) m \<longrightarrow> valid_mode m" using sub held_valid [OF ok(1)] by fastforce
    moreover have "\<forall>(q, x) \<in> entries ?l. \<forall>m. bit (releaseMask x) m \<longrightarrow> bit (holdMask x) m"
      using mk marked_held [OF ok(1)] f by (auto simp: entries_upd split: if_splits)
    moreover have "(\<exists>(q, pl) \<in> entries ?l. bit (holdMask pl) m) \<longleftrightarrow> (\<exists>(q, pl) \<in> entries l. bit (holdMask pl) m)" for m
      unfolding holders_pos_iff hn ..
    ultimately show ?thesis using ok(1) unfolding granted_ok_def hn by simp
  qed
  have "leaders_ok procs ?l" using ok(2) sub unfolding leaders_ok_def by fastforce
  moreover have "queue_ok procs t ?l pm"
  proof -
    have "\<exists>x. (q, x) \<in> entries ?l \<and> \<not> bit (holdMask x) (waitLockMode (procs q))" if "q \<in> set (waitProcs l)" for q
      using queue_okD(4) [OF ok(3) that] sup by metis
    then show ?thesis using ok(3) unfolding queue_ok_def upd_fields by blast
  qed
  moreover have "requested_ok procs ?l pm" using ok(4) by (simp add: requested_ok_def waiters_n_def)
  moreover have "exclusive X t ?l"
    unfolding exclusive_def
  proof clarify
    fix q x q' x' n n'
    assume e: "(q, x) \<in> entries ?l" "(q', x') \<in> entries ?l" and c: "q \<noteq> q'" "(q, n) \<notin> X" "(q', n') \<notin> X"
      and b: "bit (holdMask x) n" "bit (holdMask x') n'" "conflict n n'"
    obtain a a' where "(q, a) \<in> entries l" "groupLeader x = groupLeader a" "holdMask x = holdMask a"
        "(q', a') \<in> entries l" "groupLeader x' = groupLeader a'" "holdMask x' = holdMask a'"
      using sub [OF e(1)] sub [OF e(2)] by blast
    then show "same_group t x x'" using ok(5) c b unfolding exclusive_def same_group_def by fastforce
  qed
  moreover have "entries_used E ?l" using ok(6) sub unfolding entries_used_def upd_fields by fastforce
  ultimately show "lock_inv X procs t ?l E pm" using g by (simp add: lock_inv_def)
  show "queued (Some ?l) = queued (Some l)" by (simp add: queued_simps fun_eq_iff)
  show "real_conflict t ?l = real_conflict t l"
  proof (intro ext iffI)
    fix q m assume "real_conflict t ?l q m"
    then show "real_conflict t l q m" using sub by (elim real_conflict_mono) metis
  next
    fix q m assume "real_conflict t l q m"
    then show "real_conflict t ?l q m" using sup by (elim real_conflict_mono) metis
  qed
qed

lemma upd_release_stuck:
  "real_conflict t l' = real_conflict t l \<Longrightarrow> stuck procs t l' A qs = stuck procs t l A qs"
  by (induction qs arbitrary: A) simp_all

lemma entry_view:
  assumes "granted_ok l" "(p, pl) \<in> entries l"
  shows "holds (Some l) p n \<longleftrightarrow> bit (holdMask pl) n" "marks (Some l) p n \<longleftrightarrow> bit (releaseMask pl) n"
proof -
  have "a = pl" if "(p, a) \<in> entries l" for a using entry_unique [OF assms(1) that assms(2)] .
  then show "holds (Some l) p n \<longleftrightarrow> bit (holdMask pl) n" "marks (Some l) p n \<longleftrightarrow> bit (releaseMask pl) n"
    unfolding holds_simps marks_simps using assms(2) by blast+
qed

lemma release_marked_correct:
  fixes allLocks :: bool
  assumes e: "entry_ok X procs t e" and ent: "holds e p m" and q: "\<not> queued e p"
  defines "R \<equiv> \<lambda>n :: nat. if allLocks then holds e p n else marks e p n"
  shows "\<exists>W e1 e' procs'. release_marked p t allLocks (e, procs) = Inr (e', procs') \<and> entry_ok X procs' t e' \<and>
    (\<forall>x n. holds e1 x n \<longleftrightarrow> holds e x n \<and> \<not> (x = p \<and> R n)) \<and> queued e1 = queued e \<and>
    (\<forall>x n. marks e1 x n \<longleftrightarrow> marks e x n \<and> x \<noteq> p) \<and> served W procs e1 procs' e'"
proof -
  obtain l pl where l: "e = Some l" "(p, pl) \<in> entries l" "bit (holdMask pl) m" using ent by (auto simp: holds_def)
  have ok: "lock_inv X procs t l {} None" "stuck procs t l {} (waitProcs l)" using e l(1) by (auto simp: entry_ok_def lock_ok_def)
  note inv = lock_invD [OF ok(1)]
  note look = lookup_entry [OF inv(1) l(2)]
  define rel where "rel = (if allLocks then holdMask pl else releaseMask pl)"
  have R: "R n \<longleftrightarrow> bit rel n" for n
    by (simp add: R_def rel_def l(1) entry_view [OF inv(1) l(2)])
  have relh: "bit (holdMask pl) n" if "bit rel n" for n
    using that marked_held [OF inv(1) l(2)] by (auto simp: rel_def split: if_splits)
  have hz: "holdMask pl \<noteq> 0" using l(3) by (auto simp: mask_nonzero)
  show ?thesis
  proof (cases "rel = 0")
    case True
    have "release_marked p t allLocks (e, procs) = Inr (e, procs)"
      using True hz by (simp add: release_marked_def l(1) look rel_def [symmetric])
    moreover have "\<not> marks e p n" for n
      using True hz by (auto simp: rel_def l(1) entry_view [OF inv(1) l(2)] split: if_splits)
    ultimately show ?thesis using e R True served_refl [of procs e] by (intro exI [of _ "{}"] exI [of _ e]) auto
  next
    case False
    let ?l0 = "unmark p l"
    have f: "\<And>a. holdMask (a\<lparr>releaseMask := 0\<rparr>) = holdMask a \<and> groupLeader (a\<lparr>releaseMask := 0\<rparr>) = groupLeader a" by simp
    note u = upd_release_inv [of X procs t l "{}" None "\<lambda>a. a\<lparr>releaseMask := 0\<rparr>" p, OF ok(1) f, folded unmark_def, simplified]
    have inv0: "lock_inv X procs t ?l0 {p} None" using u(1) by (auto simp: lock_inv_def entries_used_def)
    have st0: "False \<or> stuck procs t ?l0 {} (waitProcs ?l0)"
      using ok(2) upd_release_stuck [OF u(2)] by (simp add: unmark_def)
    have pl0: "(p, pl\<lparr>releaseMask := 0\<rparr>) \<in> entries ?l0" using l(2) by (auto simp: unmark_entries)
    obtain w' l' pl' where r: "ungrant_loop rel p modes (False, ?l0) = (w', l')" "lock_inv X procs t l' {p} None"
        "(p, pl') \<in> entries l'" "waitProcs l' = waitProcs ?l0" "marks (Some l') = marks (Some ?l0)"
        "\<forall>x n. holds (Some l') x n \<longleftrightarrow> holds (Some ?l0) x n \<and> \<not> (x = p \<and> n \<in> set modes \<and> bit rel n)"
        "w' \<or> stuck procs t l' {} (waitProcs l')"
      using ungrant_loop_correct [OF inv0 pl0 _ _ _ st0, of modes rel] relh by auto
    have valid: "n \<in> set modes" if "bit rel n" for n using held_valid [OF inv(1) l(2)] relh that by simp
    have pq: "p \<notin> set (waitProcs l')" using q l(1) r(4) by (simp add: queued_simps unmark_def)
    have "\<not> w' \<Longrightarrow> stuck procs t l' {} (waitProcs l')" using r(7) by blast
    from CleanUp_served [of X procs t l' p pl' w' p, OF r(2,3) pq this] obtain W e' procs' where
        c: "CleanUpLock p t p w' (l', procs) = Inr (e', procs')" "entry_ok X procs' t e'" "served W procs (Some l') procs' e'"
      by blast
    have "release_marked p t allLocks (e, procs) = Inr (e', procs')"
      using False hz c(1) r(1) unmark_loop [of rel p modes False l]
      by (simp add: release_marked_def l(1) look rel_def [symmetric] Let_def case_prod_beta unmark_def)
    moreover have "holds (Some l') x n \<longleftrightarrow> holds e x n \<and> \<not> (x = p \<and> R n)" for x n
      using r(6) u(3) valid R by (auto simp: l(1))
    moreover have "queued (Some l') = queued e" using u(4) r(4) by (simp add: l(1) queued_simps fun_eq_iff)
    moreover have "marks (Some l') x n \<longleftrightarrow> marks e x n \<and> x \<noteq> p" for x n
      unfolding r(5) l(1) marks_simps unmark_entries by (cases "x = p") auto
    ultimately show ?thesis using c(2,3)
      by (intro exI [of _ W] exI [of _ "Some l'"] exI [of _ e'] exI [of _ procs'] conjI allI) assumption+
  qed
qed

section \<open>The operations keep the entry well formed\<close>

lemma RemoveFromWaitQueue_ok:
  assumes "entry_ok X procs t (Some l)" "p \<in> set (waitProcs l)"
  shows "\<exists>e' procs'. RemoveFromWaitQueue me t p (l, procs) = Inr (e', procs') \<and> entry_ok X procs' t e' \<and>
    \<not> queued e' p \<and> (\<forall>q n. holds (Some l) q n \<longrightarrow> holds e' q n)"
proof -
  have inv: "lock_inv X procs t l {} None" using assms(1) by (simp add: entry_ok_def lock_ok_def)
  let ?l = "l\<lparr>waitProcs := remove1 p (waitProcs l)\<rparr>"
  have "distinct (waitProcs l)" using lock_invD(3) [OF inv] by (simp add: queue_ok_def)
  then have "\<not> queued (Some ?l) p" by (simp add: queued_simps)
  moreover have "holds (Some ?l) = holds (Some l)" by (simp add: holds_simps fun_eq_iff)
  ultimately show ?thesis using RemoveFromWaitQueue_served [OF inv assms(2), of me] served_not_queued by metis
qed

lemma release_not_held:
  assumes "\<not> holds (Some l) p m" "map_of (procLocks l) p \<noteq> None"
  shows "release_in_table p t m (Some l, procs) = Inr (False, Some l, procs)"
proof -
  obtain pl where pl: "map_of (procLocks l) p = Some pl" using assms(2) by blast
  then have "\<not> bit (holdMask pl) m" using assms(1) map_of_SomeD [OF pl] by (auto simp: holds_simps)
  then show ?thesis using pl by (simp add: release_in_table_def and_ON)
qed

text \<open>
  C38: The outcome of a request for a mode, in the shared table, by a process that is not waiting and
  whose lock group, if any, has its leader.  If the process already holds the mode, an error is raised after the
  request has been counted.  Otherwise the entry stays well formed and: with no room in shared memory
  nothing changes, and the request is refused or raises the error, as the caller chose; if no waiter asks for and no process outside
  the lock group holds a conflicting mode, the lock is granted; else a caller that does not want to wait
  is refused with every holder and waiter unchanged; and a caller that waits is granted the lock (ahead
  of waiters it blocks), joins the queue, or gets the deadlock error, holding no more than before and not in the queue.  No
  request ends in a panic or uses a missing proclock.
\<close>

theorem lock_request_outcome:
  assumes "entry_ok X procs t e" "valid_mode m" "waitLock (procs p) = None"
    "\<And>g. lockGroupLeader (procs p) = Some g \<Longrightarrow> lockGroupLeader (procs g) = Some g"
  shows "(holds e p m \<longrightarrow> (\<exists>l. e = Some l \<and>
      acquire_in_table lock_room proclock_room p t m dontWait reportMemoryError (e, procs) =
        Inr (Raised (ERROR ''lock is already held''),
          Some (l\<lparr>nRequested := nRequested l + 1, requested := incr 1 m (requested l)\<rparr>), procs))) \<and>
    (\<not> holds e p m \<longrightarrow> (\<exists>out e' procs'.
      acquire_in_table lock_room proclock_room p t m dontWait reportMemoryError (e, procs) = Inr (out, e', procs') \<and>
      entry_ok X procs' t e' \<and>
      (if no_room lock_room proclock_room e p
       then e' = e \<and> procs' = procs \<and>
         out = (if reportMemoryError then Raised (ERROR ''out of shared memory'') else Not_Available)
       else if \<not> blocked procs t e p m
       then out = Granted \<and> queued e' = queued e \<and> (\<forall>q n. holds e' q n \<longleftrightarrow> holds e q n \<or> (q = p \<and> n = m))
       else if dontWait
       then out = Not_Available \<and> procs' = procs \<and> queued e' = queued e \<and> holds e' = holds e \<and> marks e' = marks e
       else out = Granted \<and> queued e' = queued e \<and> (\<forall>q n. holds e' q n \<longleftrightarrow> holds e q n \<or> (q = p \<and> n = m)) \<or>
         out = Waiting \<and> holds e' = holds e \<and> marks e' = marks e \<and> (\<forall>q. queued e' q \<longleftrightarrow> queued e q \<or> q = p) \<and>
           waitLock (procs' p) = Some t \<and> waitLockMode (procs' p) = m \<or>
         out = Raised (ERROR ''deadlock detected'') \<and> \<not> queued e' p \<and> (\<forall>n. holds e' p n \<longleftrightarrow> holds e p n) \<and>
           waitLock (procs' p) = None)))"
proof (cases "holds e p m")
  case True
  with acquire_held [OF assms(1,2) True assms(4), of lock_room proclock_room dontWait reportMemoryError]
  show ?thesis by blast
next
  case False
  obtain out e' procs' where
    run: "acquire_in_table lock_room proclock_room p t m dontWait reportMemoryError (e, procs) = Inr (out, e', procs')"
    and post: "acquire_post X procs t e p m (no_room lock_room proclock_room e p) dontWait reportMemoryError out e' procs'"
    using acquire_in_table_correct [OF assms(1,2) False assms(3,4)] by blast
  from acquire_post_table [OF post idle_not_queued [OF assms(1,3)]] run False show ?thesis by blast
qed

definition idle_proc :: PGPROC where
  "idle_proc = \<lparr>waitStatus = PROC_WAIT_STATUS_OK, waitLock = None, waitLockMode = 0, heldLocks = 0, waitStart = 0,
     lockGroupLeader = None\<rparr>"

text \<open>
  An example: process 1 takes \<open>AccessExclusiveLock\<close> on a relation nobody has locked, then process 2 asks for
  \<open>AccessShareLock\<close>.
\<close>

abbreviation sample_tag :: LOCKTAG where
  "sample_tag \<equiv> SET_LOCKTAG_RELATION 5 16384"

abbreviation idle_procs :: procs where
  "idle_procs \<equiv> \<lambda>_. idle_proc"

definition sample_entry :: "LOCK option" where
  "sample_entry =
     (case acquire_in_table True True 1 sample_tag AccessExclusiveLock False True (None, idle_procs) of
        Inr (out, e, procs) \<Rightarrow> e | Inl err \<Rightarrow> None)"

lemma sample_modes: "valid_mode AccessExclusiveLock" "valid_mode AccessShareLock"
  by (simp_all add: valid_mode_def AccessExclusiveLock_def AccessShareLock_def MaxLockMode_def)

lemma sample_idle:
  "waitLock (idle_procs p) = None" "lockGroupLeader (idle_procs p) = Some g \<Longrightarrow> lockGroupLeader (idle_procs g) = Some g"
  by (simp_all add: idle_proc_def)

lemma sample_request:
  "acquire_in_table True True 1 sample_tag AccessExclusiveLock False True (None, idle_procs) =
     Inr (Granted, sample_entry, idle_procs)"
  unfolding sample_entry_def
  by (simp add: acquire_in_table_def SetupLockInTable_def new_lock_def Let_def lookup_proclock_def LockCheckConflicts_def)

lemma sample_waits:
  "map_sum id fst (acquire_in_table True True 2 sample_tag AccessShareLock False True (sample_entry, idle_procs)) = Inr Waiting"
  by code_simp

lemma sample_start:
  "entry_ok {} idle_procs sample_tag None" "\<not> holds None 1 AccessExclusiveLock"
  "\<not> no_room True True None p" "\<not> blocked idle_procs sample_tag None 1 AccessExclusiveLock"
  by (simp_all add: entry_ok_def holds_simps no_room_def blocked_def)

lemma sample_entry_ok:
  "entry_ok {} idle_procs sample_tag sample_entry" "holds sample_entry q n \<longleftrightarrow> q = 1 \<and> n = AccessExclusiveLock"
  "\<not> queued sample_entry q" "\<not> marks sample_entry q n"
proof -
  have "acquire_post {} idle_procs sample_tag None 1 AccessExclusiveLock (no_room True True None 1) False True Granted sample_entry idle_procs"
    using acquire_in_table_correct [OF sample_start(1) sample_modes(1) sample_start(2) sample_idle, of True True False True]
      sample_request by (metis Pair_inject sum.inject(2))
  then show "entry_ok {} idle_procs sample_tag sample_entry" "holds sample_entry q n \<longleftrightarrow> q = 1 \<and> n = AccessExclusiveLock"
    "\<not> queued sample_entry q" "\<not> marks sample_entry q n"
    by (simp_all add: acquire_post_def holds_simps queued_simps marks_simps)
qed

theorem lock_request_outcome_witness:
  "acquire_in_table True True 1 sample_tag AccessExclusiveLock False True (None, idle_procs) =
     Inr (Granted, sample_entry, idle_procs) \<and> holds sample_entry 1 AccessExclusiveLock \<and>
   (\<exists>e procs. acquire_in_table True True 2 sample_tag AccessShareLock False True (sample_entry, idle_procs) =
       Inr (Waiting, e, procs) \<and> queued e 2 \<and> holds e 1 AccessExclusiveLock \<and> entry_ok {} procs sample_tag e) \<and>
   (\<exists>e. acquire_in_table True True 1 sample_tag AccessExclusiveLock False True (sample_entry, idle_procs) =
       Inr (Raised (ERROR ''lock is already held''), e, idle_procs))"
proof -
  have two: "\<not> holds sample_entry 2 AccessShareLock" by (simp add: sample_entry_ok)
  have one: "holds sample_entry 1 AccessExclusiveLock" by (simp add: sample_entry_ok)
  obtain e procs where w: "acquire_in_table True True 2 sample_tag AccessShareLock False True (sample_entry, idle_procs) =
      Inr (Waiting, e, procs)"
    using sample_waits
    by (cases "acquire_in_table True True 2 sample_tag AccessShareLock False True (sample_entry, idle_procs)") auto
  have "entry_ok {} procs sample_tag e \<and> queued e 2 \<and> holds e = holds sample_entry"
    using lock_request_outcome [OF sample_entry_ok(1) sample_modes(2) sample_idle, of 2 True True False True] two w
    by (auto split: if_splits)
  moreover have "\<exists>e. acquire_in_table True True 1 sample_tag AccessExclusiveLock False True (sample_entry, idle_procs) =
       Inr (Raised (ERROR ''lock is already held''), e, idle_procs)"
    using lock_request_outcome [OF sample_entry_ok(1) sample_modes(1) sample_idle, of 1 True True False True] one by blast
  ultimately show ?thesis using sample_request w one by auto
qed

text \<open>
  C39: On a well-formed entry of the lock table, the release of a mode that is held and not marked, the
  release of what is marked (or of all modes) by a holder, and leaving the queue succeed, the first two for a
  process that is not in the queue: none ends in the panic over proclocks that do not match the lock or
  uses a missing proclock, and the entry they leave, if any, is again well formed.  The process no longer
  holds what it released or no longer waits, and every other process keeps what it holds.  A release of
  a mode that the process has a proclock for but does not hold is reported and changes nothing.  Well
  formed: counts and masks agree with the holders and the waiters, conflicting modes are held only within
  a lock group (except for the pairs of a process and a mode in \<open>X\<close>, none if \<open>X\<close> is empty), and every waiter
  is blocked by a holder or by a waiter in front of it.
\<close>

theorem lock_entry_well_formed:
  assumes "entry_ok X procs t e"
  shows "(holds e p m \<and> \<not> queued e p \<and> \<not> marks e p m \<longrightarrow>
      (\<exists>e' procs'. release_in_table p t m (e, procs) = Inr (True, e', procs') \<and> entry_ok X procs' t e' \<and>
         (\<forall>n. holds e' p n \<longleftrightarrow> holds e p n \<and> n \<noteq> m) \<and> (\<forall>q n. q \<noteq> p \<and> holds e q n \<longrightarrow> holds e' q n))) \<and>
    (\<not> holds e p m \<and> e = Some l \<and> map_of (procLocks l) p \<noteq> None \<longrightarrow>
      release_in_table p t m (e, procs) = Inr (False, e, procs)) \<and>
    (holds e p m \<and> \<not> queued e p \<longrightarrow>
      (\<exists>e' procs'. release_marked p t allLocks (e, procs) = Inr (e', procs') \<and> entry_ok X procs' t e' \<and>
         (\<forall>n. holds e' p n \<longleftrightarrow> holds e p n \<and> \<not> allLocks \<and> \<not> marks e p n) \<and>
         (\<forall>q n. q \<noteq> p \<and> holds e q n \<longrightarrow> holds e' q n))) \<and>
    (e = Some l \<and> queued e p \<longrightarrow>
      (\<exists>e' procs'. RemoveFromWaitQueue me t p (l, procs) = Inr (e', procs') \<and> entry_ok X procs' t e' \<and>
         \<not> queued e' p \<and> (\<forall>q n. holds e q n \<longrightarrow> holds e' q n)))"
proof (intro conjI impI; elim conjE)
  assume h: "holds e p m" "\<not> queued e p" "\<not> marks e p m"
  obtain W e1 e' procs' where r: "release_in_table p t m (e, procs) = Inr (True, e', procs')" "entry_ok X procs' t e'"
      "\<forall>x n. holds e1 x n \<longleftrightarrow> holds e x n \<and> \<not> (x = p \<and> n = m)" "queued e1 = queued e" "served W procs e1 procs' e'"
    using release_in_table_correct [OF assms h] by blast
  note k = served_not_queued [OF r(5), unfolded r(4), OF h(2)]
  show "\<exists>e' procs'. release_in_table p t m (e, procs) = Inr (True, e', procs') \<and> entry_ok X procs' t e' \<and>
         (\<forall>n. holds e' p n \<longleftrightarrow> holds e p n \<and> n \<noteq> m) \<and> (\<forall>q n. q \<noteq> p \<and> holds e q n \<longrightarrow> holds e' q n)"
    using r(1-3) k(1,3) by auto
next
  assume "\<not> holds e p m" "e = Some l" "map_of (procLocks l) p \<noteq> None"
  then show "release_in_table p t m (e, procs) = Inr (False, e, procs)" using release_not_held by blast
next
  assume h: "holds e p m" "\<not> queued e p"
  obtain W e1 e' procs' where r: "release_marked p t allLocks (e, procs) = Inr (e', procs')" "entry_ok X procs' t e'"
      "\<forall>x n. holds e1 x n \<longleftrightarrow> holds e x n \<and> \<not> (x = p \<and> (if allLocks then holds e p n else marks e p n))"
      "queued e1 = queued e" "served W procs e1 procs' e'"
    using release_marked_correct [OF assms h, of allLocks] by (elim exE conjE) (rule that)
  note k = served_not_queued [OF r(5), unfolded r(4), OF h(2)]
  show "\<exists>e' procs'. release_marked p t allLocks (e, procs) = Inr (e', procs') \<and> entry_ok X procs' t e' \<and>
         (\<forall>n. holds e' p n \<longleftrightarrow> holds e p n \<and> \<not> allLocks \<and> \<not> marks e p n) \<and>
         (\<forall>q n. q \<noteq> p \<and> holds e q n \<longrightarrow> holds e' q n)"
    using r(1-3) k(1,3) by auto
next
  assume "e = Some l" "queued e p"
  then show "\<exists>e' procs'. RemoveFromWaitQueue me t p (l, procs) = Inr (e', procs') \<and> entry_ok X procs' t e' \<and>
         \<not> queued e' p \<and> (\<forall>q n. holds e q n \<longrightarrow> holds e' q n)"
    using RemoveFromWaitQueue_ok [of X procs t l p me] assms by (auto simp: queued_simps)
qed

theorem lock_entry_well_formed_witness:
  "\<exists>l procs. acquire_in_table True True 2 sample_tag AccessShareLock False True (sample_entry, idle_procs) =
       Inr (Waiting, Some l, procs) \<and> queued (Some l) 2 \<and>
     (\<exists>e' procs'. release_in_table 1 sample_tag AccessExclusiveLock (Some l, procs) = Inr (True, e', procs') \<and>
        entry_ok {} procs' sample_tag e' \<and> \<not> holds e' 1 AccessExclusiveLock) \<and>
     (\<exists>e' procs'. RemoveFromWaitQueue 2 sample_tag 2 (l, procs) = Inr (e', procs') \<and>
        entry_ok {} procs' sample_tag e' \<and> \<not> queued e' 2 \<and> holds e' 1 AccessExclusiveLock)"
proof -
  have two: "\<not> holds sample_entry 2 AccessShareLock" by (simp add: sample_entry_ok)
  obtain e procs where w: "acquire_in_table True True 2 sample_tag AccessShareLock False True (sample_entry, idle_procs) =
      Inr (Waiting, e, procs)"
    using sample_waits
    by (cases "acquire_in_table True True 2 sample_tag AccessShareLock False True (sample_entry, idle_procs)") auto
  have post: "entry_ok {} procs sample_tag e" "\<And>q. queued e q \<longleftrightarrow> q = 2" "holds e = holds sample_entry" "marks e = marks sample_entry"
    using acquire_in_table_correct [OF sample_entry_ok(1) sample_modes(2) two sample_idle, of True True False True] w
    by (auto simp: acquire_post_def sample_entry_ok)
  obtain l where l: "e = Some l" using post(2) [of 2] by (auto simp: queued_def)
  have h: "holds e 1 AccessExclusiveLock" "\<not> queued e 1" "\<not> marks e 1 AccessExclusiveLock"
    using post by (simp_all add: sample_entry_ok)
  obtain e' procs' where "release_in_table 1 sample_tag AccessExclusiveLock (Some l, procs) = Inr (True, e', procs')"
      "entry_ok {} procs' sample_tag e'" "\<not> holds e' 1 AccessExclusiveLock"
    using lock_entry_well_formed [OF post(1), THEN conjunct1, THEN mp, OF conjI [OF h(1) conjI [OF h(2,3)]]]
    unfolding l by blast
  moreover have q: "e = Some l \<and> queued e 2" using l post(2) by simp
  obtain e2 procs2 where "RemoveFromWaitQueue 2 sample_tag 2 (l, procs) = Inr (e2, procs2)"
      "entry_ok {} procs2 sample_tag e2" "\<not> queued e2 2" "holds e2 1 AccessExclusiveLock"
    using lock_entry_well_formed [OF post(1), THEN conjunct2, THEN conjunct2, THEN conjunct2, THEN mp, OF q, of 2] h(1)
    by blast
  ultimately show ?thesis using w q unfolding l by blast
qed

end
