(* ===== verification/Spec2Isabelle.thy ===== *)
theory Spec2Isabelle
  imports Bitutils Hashfn Bitmapset Attmap PgList Binaryheap Pgarch Fsmpage Freespace Encode Locktable
begin

text \<open>
  A verification development for the core of the PostgreSQL backend in this repository.
\<close>

end
